(* ===== verification/Netip.thy ===== *)
theory Netip
  imports Prelude
begin

text \<open>
  The part of Go's standard package \<^verbatim>\<open>net/netip\<close> the sources use: addresses (IPv4, IPv6 with
  an optional zone, and the zero \<^verbatim>\<open>Addr\<close>), prefixes, their parsers and printers.

  An address keeps its width: \<^verbatim>\<open>netip.Addr\<close> is a 32-bit or a 128-bit word.  A prefix is an
  address and a number of bits, \<open>-1\<close> for an invalid one, as \<^verbatim>\<open>Prefix.Bits\<close> reports it.
  The representation invariant of \<^verbatim>\<open>netip.Prefix\<close> (a valid prefix has at most as many bits as
  its address, and its address carries no zone) is part of \<open>is_valid\<close>.  Parse errors are
  \<open>None\<close>: none of the callers looks at the message.

  The second half relates every operation to the set of addresses a prefix covers and to
  arithmetic on the address value; the component theories reason with those facts only.
\<close>

unbundle bit_operations_syntax

section \<open>Addresses\<close>

datatype addr = AddrZero | Addr4 "32 word" | Addr6 "128 word" string

fun bit_len :: "addr \<Rightarrow> nat" where
  "bit_len AddrZero = 0"
| "bit_len (Addr4 _) = 32"
| "bit_len (Addr6 _ _) = 128"

fun is4 :: "addr \<Rightarrow> bool" where
  "is4 (Addr4 _) = True"
| "is4 _ = False"

fun is6 :: "addr \<Rightarrow> bool" where
  "is6 (Addr6 _ _) = True"
| "is6 _ = False"

definition addr_valid :: "addr \<Rightarrow> bool" where
  "addr_valid a \<longleftrightarrow> a \<noteq> AddrZero"

fun addr_zone :: "addr \<Rightarrow> string" where
  "addr_zone (Addr6 _ z) = z"
| "addr_zone _ = []"

fun with_zone :: "addr \<Rightarrow> string \<Rightarrow> addr" where
  "with_zone (Addr6 w _) z = Addr6 w z"
| "with_zone a z = a"

fun addr_val :: "addr \<Rightarrow> nat" where
  "addr_val AddrZero = 0"
| "addr_val (Addr4 w) = unat w"
| "addr_val (Addr6 w _) = unat w"

fun is4in6 :: "addr \<Rightarrow> bool" where
  "is4in6 (Addr6 w _) = (drop_bit 32 w = 0xffff)"
| "is4in6 _ = False"

fun unmap :: "addr \<Rightarrow> addr" where
  "unmap (Addr6 w z) = (if drop_bit 32 w = 0xffff then Addr4 (ucast w) else Addr6 w z)"
| "unmap a = a"

text \<open>\<^verbatim>\<open>Addr.IsLinkLocalUnicast\<close>: 169.254.0.0/16 and fe80::/10.\<close>

fun is_link_local_unicast :: "addr \<Rightarrow> bool" where
  "is_link_local_unicast AddrZero = False"
| "is_link_local_unicast (Addr4 w) = (drop_bit 16 w = 0xa9fe)"
| "is_link_local_unicast (Addr6 w _) =
     (if drop_bit 32 w = 0xffff then drop_bit 16 (ucast w :: 32 word) = 0xa9fe
      else drop_bit 118 w = 0x3fa)"

text \<open>The order of \<^verbatim>\<open>Addr.Compare\<close>: width, then value (an integer, for evaluation), then zone.\<close>

fun addr_num :: "addr \<Rightarrow> int" where
  "addr_num AddrZero = 0"
| "addr_num (Addr4 w) = uint w"
| "addr_num (Addr6 w _) = uint w"

lemma addr_num_val: "addr_num a = int (addr_val a)"
  by (cases a) simp_all

definition addr_key :: "addr \<Rightarrow> nat \<times> int \<times> string" where
  "addr_key a = (bit_len a, addr_num a, addr_zone a)"

section \<open>Prefixes\<close>

datatype netprefix = NetPrefix (pfx_addr: addr) (pfx_bits: int)

definition prefix_zero :: netprefix where
  "prefix_zero = NetPrefix AddrZero (-1)"

definition prefix_from :: "addr \<Rightarrow> int \<Rightarrow> netprefix" where
  "prefix_from a b =
     NetPrefix (with_zone a [])
       (if a \<noteq> AddrZero \<and> 0 \<le> b \<and> b \<le> int (bit_len a) then b else -1)"

definition is_valid :: "netprefix \<Rightarrow> bool" where
  "is_valid p \<longleftrightarrow> pfx_addr p \<noteq> AddrZero \<and> 0 \<le> pfx_bits p \<and> pfx_bits p \<le> int (bit_len (pfx_addr p))
     \<and> addr_zone (pfx_addr p) = []"

definition is_single_ip :: "netprefix \<Rightarrow> bool" where
  "is_single_ip p \<longleftrightarrow> is_valid p \<and> pfx_bits p = int (bit_len (pfx_addr p))"

text \<open>\<open>host_bits\<close> is how many low bits of the address a prefix leaves free.\<close>

definition host_bits :: "netprefix \<Rightarrow> nat" where
  "host_bits p = bit_len (pfx_addr p) - nat (pfx_bits p)"

fun mask_addr :: "nat \<Rightarrow> addr \<Rightarrow> addr" where
  "mask_addr h AddrZero = AddrZero"
| "mask_addr h (Addr4 w) = Addr4 (push_bit h (drop_bit h w))"
| "mask_addr h (Addr6 w z) = Addr6 (push_bit h (drop_bit h w)) []"

definition masked :: "netprefix \<Rightarrow> netprefix" where
  "masked p = (if is_valid p then NetPrefix (mask_addr (host_bits p) (pfx_addr p)) (pfx_bits p)
     else prefix_zero)"

fun same_high_bits :: "nat \<Rightarrow> addr \<Rightarrow> addr \<Rightarrow> bool" where
  "same_high_bits h (Addr4 v) (Addr4 w) = (drop_bit h (v XOR w) = 0)"
| "same_high_bits h (Addr6 v _) (Addr6 w _) = (drop_bit h (v XOR w) = 0)"
| "same_high_bits h _ _ = False"

definition contains :: "netprefix \<Rightarrow> addr \<Rightarrow> bool" where
  "contains p a \<longleftrightarrow> is_valid p \<and> addr_zone a = [] \<and> same_high_bits (host_bits p) (pfx_addr p) a"

definition overlaps :: "netprefix \<Rightarrow> netprefix \<Rightarrow> bool" where
  "overlaps p q =
     (if \<not> is_valid p \<or> \<not> is_valid q then False
      else if p = q then True
      else if is4 (pfx_addr p) \<noteq> is4 (pfx_addr q) then False
      else let m = min (pfx_bits p) (pfx_bits q)
        in m = 0 \<or> pfx_addr (masked (NetPrefix (pfx_addr p) m)) = pfx_addr (masked (NetPrefix (pfx_addr q) m)))"

text \<open>\<^verbatim>\<open>netip.PrefixFrom(a, a.BitLen())\<close>: the network of one host.\<close>

definition host_prefix :: "addr \<Rightarrow> netprefix" where
  "host_prefix a = prefix_from a (int (bit_len a))"

section \<open>Printing\<close>

definition hex_digit :: "nat \<Rightarrow> char" where
  "hex_digit n = (if n < 10 then char_of (48 + n) else char_of (87 + n))"

fun hex :: "nat \<Rightarrow> string" where
  "hex n = (if n < 16 then [hex_digit n] else hex (n div 16) @ [hex_digit (n mod 16)])"

declare hex.simps [simp del]

definition string4 :: "nat \<Rightarrow> string" where
  "string4 v = join ''.'' [decimal (v div 2 ^ 24 mod 256), decimal (v div 2 ^ 16 mod 256),
     decimal (v div 2 ^ 8 mod 256), decimal (v mod 256)]"

text \<open>The eight 16-bit groups of an IPv6 address, most significant first.\<close>

definition groups6 :: "nat \<Rightarrow> nat list" where
  "groups6 v = map (\<lambda>i. v div 2 ^ (16 * (7 - i)) mod 65536) [0..<8]"

text \<open>
  The run of zero groups written \<^verbatim>\<open>::\<close>: the leftmost among the longest runs of at least two.
  \<open>zero_run\<close> is the length of the run a list starts with; \<open>best_run\<close> scans the start
  positions in order, as \<^verbatim>\<open>appendTo6\<close> does, keeping the first longest run as (start, end).
\<close>

fun zero_run :: "nat list \<Rightarrow> nat" where
  "zero_run (0 # gs) = Suc (zero_run gs)"
| "zero_run _ = 0"

fun best_run :: "nat \<Rightarrow> nat list \<Rightarrow> nat \<times> nat \<Rightarrow> nat \<times> nat" where
  "best_run i [] best = best"
| "best_run i (g # gs) best =
     (let l = zero_run (g # gs)
      in best_run (Suc i) gs (if 2 \<le> l \<and> snd best - fst best < l then (i, i + l) else best))"

definition string6 :: "nat \<Rightarrow> string" where
  "string6 v =
     (let gs = groups6 v; (s, e) = best_run 0 gs (255, 255)
      in if s = 255 then join '':'' (map hex gs)
         else join '':'' (map hex (take s gs)) @ ''::'' @ join '':'' (map hex (drop e gs)))"

fun addr_string :: "addr \<Rightarrow> string" where
  "addr_string AddrZero = ''invalid IP''"
| "addr_string (Addr4 w) = string4 (unat w)"
| "addr_string (Addr6 w z) =
     (if is4in6 (Addr6 w z) then ''::ffff:'' @ string4 (unat (ucast w :: 32 word))
      else string6 (unat w)) @ (if z = [] then [] else ''%'' @ z)"

definition prefix_string :: "netprefix \<Rightarrow> string" where
  "prefix_string p =
     (if is_valid p then addr_string (pfx_addr p) @ ''/'' @ itoa (pfx_bits p) else ''invalid Prefix'')"

section \<open>Parsing\<close>

text \<open>
  \<^verbatim>\<open>parseIPv4Fields\<close>: the octets read so far, the value of the current one and its number of
  digits (none yet right after a dot or at the start).
\<close>

fun parse4_fields :: "string \<Rightarrow> nat list \<Rightarrow> nat \<Rightarrow> nat \<Rightarrow> nat list option" where
  "parse4_fields [] acc val digs = (if length acc < 3 then None else Some (acc @ [val]))"
| "parse4_fields (c # cs) acc val digs =
     (if is_digit c then
        if digs = 1 \<and> val = 0 then None
        else let v = val * 10 + digit_val c
          in if 255 < v then None else parse4_fields cs acc v (Suc digs)
      else if c = CHR ''.'' then
        if digs = 0 \<or> cs = [] \<or> length acc = 3 then None
        else parse4_fields cs (acc @ [val]) 0 0
      else None)"

definition octets_val :: "nat list \<Rightarrow> nat" where
  "octets_val os = foldl (\<lambda>v b. v * 256 + b) 0 os"

definition parse4 :: "string \<Rightarrow> addr option" where
  "parse4 s = map_option (\<lambda>os. Addr4 (of_nat (octets_val os))) (parse4_fields s [] 0 0)"

definition hex_val :: "char \<Rightarrow> nat option" where
  "hex_val c =
     (let n = of_char c in
      if 48 \<le> n \<and> n \<le> 57 then Some (n - 48)
      else if 97 \<le> n \<and> n \<le> 102 then Some (n - 87)
      else if 65 \<le> n \<and> n \<le> 70 then Some (n - 55)
      else None)"

text \<open>Digits scanned so far, their value, the rest of the string; a fifth digit is an error.\<close>

fun scan_hex :: "string \<Rightarrow> nat \<Rightarrow> nat \<Rightarrow> (nat \<times> nat \<times> string) option" where
  "scan_hex [] off acc = Some (off, acc, [])"
| "scan_hex (c # cs) off acc =
     (case hex_val c of
        None \<Rightarrow> Some (off, acc, c # cs)
      | Some d \<Rightarrow> if off > 3 then None else scan_hex cs (Suc off) (acc * 16 + d))"

text \<open>
  The group loop of \<^verbatim>\<open>parseIPv6\<close>: \<open>n\<close> groups may still be read, \<open>ell\<close> is the position
  of the \<^verbatim>\<open>::\<close> in groups, \<open>gs\<close> the groups read.  The result is what is left of the string.
\<close>

fun parse6_loop :: "nat \<Rightarrow> string \<Rightarrow> nat option \<Rightarrow> nat list \<Rightarrow> (string \<times> nat option \<times> nat list) option"
  where
  "parse6_loop 0 s ell gs = Some (s, ell, gs)"
| "parse6_loop (Suc n) s ell gs =
     (case scan_hex s 0 0 of
        None \<Rightarrow> None
      | Some (off, acc, rest) \<Rightarrow>
          if off = 0 then None
          else (case rest of
            [] \<Rightarrow> Some ([], ell, gs @ [acc])
          | c # cs \<Rightarrow>
            if c = CHR ''.'' then
              if ell = None \<and> length gs \<noteq> 6 \<or> length gs > 6 then None
              else (case parse4_fields s [] 0 0 of
                  Some [a, b, d, e] \<Rightarrow> Some ([], ell, gs @ [a * 256 + b, d * 256 + e])
                | _ \<Rightarrow> None)
            else if c \<noteq> CHR '':'' \<or> cs = [] then None
            else if hd cs = CHR '':'' then
              if ell \<noteq> None then None
              else if tl cs = [] then Some ([], Some (Suc (length gs)), gs @ [acc])
              else parse6_loop n (tl cs) (Some (Suc (length gs))) (gs @ [acc])
            else parse6_loop n cs ell (gs @ [acc])))"

definition groups_val :: "nat list \<Rightarrow> nat" where
  "groups_val gs = foldl (\<lambda>v g. v * 65536 + g) 0 gs"

definition finish6 :: "string \<times> nat option \<times> nat list \<Rightarrow> nat option" where
  "finish6 = (\<lambda>(s, ell, gs).
     if s \<noteq> [] then None
     else if length gs < 8 then
       (case ell of
          None \<Rightarrow> None
        | Some e \<Rightarrow> Some (groups_val (take e gs @ replicate (8 - length gs) 0 @ drop e gs)))
     else if ell \<noteq> None then None
     else Some (groups_val gs))"

definition parse6 :: "string \<Rightarrow> addr option" where
  "parse6 inp =
     (let s = takeWhile (\<lambda>c. c \<noteq> CHR ''%'') inp; r = dropWhile (\<lambda>c. c \<noteq> CHR ''%'') inp
      in if r \<noteq> [] \<and> tl r = [] then None
         else let zone = tl r in
           if has_prefix s ''::'' then
             if drop 2 s = [] then Some (Addr6 0 zone)
             else map_option (\<lambda>v. Addr6 (of_nat v) zone)
               (Option.bind (parse6_loop 8 (drop 2 s) (Some 0) []) finish6)
           else map_option (\<lambda>v. Addr6 (of_nat v) zone)
               (Option.bind (parse6_loop 8 s None []) finish6))"

fun parse_addr_scan :: "string \<Rightarrow> string \<Rightarrow> addr option" where
  "parse_addr_scan full [] = None"
| "parse_addr_scan full (c # cs) =
     (if c = CHR ''.'' then parse4 full
      else if c = CHR '':'' then parse6 full
      else if c = CHR ''%'' then None
      else parse_addr_scan full cs)"

definition parse_addr :: "string \<Rightarrow> addr option" where
  "parse_addr s = parse_addr_scan s s"

text \<open>
  \<^verbatim>\<open>ParsePrefix\<close> splits at the last slash; the length is decimal, without sign or leading zero.
  (\<^verbatim>\<open>strconv.Atoi\<close> fails on a number that does not fit; such a number is out of range here anyway.)
\<close>

definition parse_bits :: "string \<Rightarrow> nat option" where
  "parse_bits s =
     (if s = [] \<or> \<not> list_all is_digit s \<or> (length s > 1 \<and> hd s = CHR ''0'') then None
      else Some (decimal_value s 0))"

definition parse_prefix :: "string \<Rightarrow> netprefix option" where
  "parse_prefix s =
     (let r = rev s; bs = rev (takeWhile (\<lambda>c. c \<noteq> CHR ''/'') r); l = dropWhile (\<lambda>c. c \<noteq> CHR ''/'') r
      in if l = [] then None
         else (case parse_addr (rev (tl l)) of
            None \<Rightarrow> None
          | Some a \<Rightarrow>
              if addr_zone a \<noteq> [] then None
              else (case parse_bits bs of
                  None \<Rightarrow> None
                | Some b \<Rightarrow> if b > bit_len a then None else Some (prefix_from a (int b)))))"

section \<open>What prefixes cover\<close>

definition covers :: "netprefix \<Rightarrow> addr set" where
  "covers p = {a. contains p a}"

definition covers_all :: "netprefix list \<Rightarrow> addr set" where
  "covers_all ps = (\<Union>p \<in> set ps. covers p)"

text \<open>The sources' test that \<open>p\<close> lies inside \<open>q\<close>.\<close>

definition subnet :: "netprefix \<Rightarrow> netprefix \<Rightarrow> bool" where
  "subnet q p \<longleftrightarrow> pfx_bits q \<le> pfx_bits p \<and> contains q (pfx_addr p)"

lemma xor_eq_0_iff: "(x :: 'a :: len word) XOR y = 0 \<longleftrightarrow> x = y"
  by (metis bit.xor_left_self xor_self_eq xor.comm_neutral)

lemma drop_bit_eq_unat:
  "drop_bit h x = drop_bit h (y :: 'a :: len word) \<longleftrightarrow> unat x div 2 ^ h = unat y div 2 ^ h"
  by (metis drop_bit_eq_div unat_drop_bit_eq word_unat_eq_iff)

lemma same_high_bits_iff:
  "same_high_bits h a b \<longleftrightarrow> a \<noteq> AddrZero \<and> bit_len a = bit_len b
     \<and> addr_val a div 2 ^ h = addr_val b div 2 ^ h"
  by (cases a; cases b) (simp_all add: drop_bit_xor xor_eq_0_iff drop_bit_eq_unat)

lemma contains_iff [netip_simps]:
  "contains p a \<longleftrightarrow> is_valid p \<and> addr_zone a = [] \<and> bit_len (pfx_addr p) = bit_len a
     \<and> addr_val (pfx_addr p) div 2 ^ host_bits p = addr_val a div 2 ^ host_bits p"
  by (auto simp: contains_def same_high_bits_iff is_valid_def)

lemma addr_eqI:
  "bit_len a = bit_len b \<Longrightarrow> addr_val a = addr_val b \<Longrightarrow> addr_zone a = addr_zone b \<Longrightarrow> a = b"
  by (cases a; cases b) (auto simp: word_unat_eq_iff)

lemma addr_key_inj: "addr_key a = addr_key b \<longleftrightarrow> a = b"
  using addr_eqI[of a b] by (auto simp: addr_key_def addr_num_val)

instantiation addr :: linorder
begin

definition less_eq_addr :: "addr \<Rightarrow> addr \<Rightarrow> bool" where
  "less_eq_addr a b \<longleftrightarrow> addr_key a \<le> addr_key b"

definition less_addr :: "addr \<Rightarrow> addr \<Rightarrow> bool" where
  "less_addr a b \<longleftrightarrow> addr_key a < addr_key b"

instance
  by standard (auto simp: less_eq_addr_def less_addr_def less_le_not_le addr_key_inj
    dest: order_trans antisym)

end

lemma addr_val_less: "addr_val a < 2 ^ bit_len a"
proof (cases a)
  case (Addr4 x2)
  then show ?thesis using unsigned_less[of x2] by simp
next
  case (Addr6 x31 x32)
  then show ?thesis using unsigned_less[of x31] by simp
qed simp

lemma bit_len_0_iff [simp]: "bit_len a = 0 \<longleftrightarrow> a = AddrZero"
  by (cases a) auto

lemma is4_iff: "is4 a \<longleftrightarrow> bit_len a = 32"
  by (cases a) auto

lemma is6_iff: "is6 a \<longleftrightarrow> bit_len a = 128"
  by (cases a) auto

lemma is4_eq_bit_len:
  "a \<noteq> AddrZero \<Longrightarrow> b \<noteq> AddrZero \<Longrightarrow> (is4 a = is4 b) \<longleftrightarrow> (bit_len a = bit_len b)"
  by (cases a; cases b) auto

text \<open>An address of any width and value: every value below the width's bound is taken.\<close>

definition addr_of :: "nat \<Rightarrow> nat \<Rightarrow> addr" where
  "addr_of w v = (if w = 32 then Addr4 (of_nat v) else if w = 128 then Addr6 (of_nat v) [] else AddrZero)"

lemma bit_len_cases: "bit_len a = 0 \<or> bit_len a = 32 \<or> bit_len a = 128"
  by (cases a) auto

lemma addr_of_props:
  assumes "v < 2 ^ bit_len a" and "a \<noteq> AddrZero"
  shows "addr_val (addr_of (bit_len a) v) = v" "bit_len (addr_of (bit_len a) v) = bit_len a"
    "addr_zone (addr_of (bit_len a) v) = []"
  using assms by (cases a; simp add: addr_of_def unat_of_nat)+

lemma mask_addr_props [simp]:
  "bit_len (mask_addr h a) = bit_len a" "addr_zone (mask_addr h a) = []"
  "(mask_addr h a = AddrZero) = (a = AddrZero)"
  by (cases a; simp)+

lemma unat_push_drop:
  "unat (push_bit h (drop_bit h (w :: 'a :: len word))) = unat w div 2 ^ h * 2 ^ h"
proof -
  have "unat w div 2 ^ h * 2 ^ h < 2 ^ LENGTH('a)"
    using unsigned_less[of w] by (meson div_times_less_eq_dividend le_less_trans)
  then show ?thesis
    unfolding unsigned_push_bit_eq unsigned_drop_bit_eq
    by (simp add: push_bit_eq_mult drop_bit_eq_div take_bit_eq_mod)
qed

lemma addr_val_mask_addr: "addr_val (mask_addr h a) = addr_val a div 2 ^ h * 2 ^ h"
  by (cases a) (simp_all add: unat_push_drop)

lemma is_valid_masked [simp]: "is_valid (masked p) = is_valid p"
  by (auto simp: masked_def is_valid_def prefix_zero_def)

lemma pfx_bits_masked: "is_valid p \<Longrightarrow> pfx_bits (masked p) = pfx_bits p"
  by (simp add: masked_def)

lemma bit_len_masked: "is_valid p \<Longrightarrow> bit_len (pfx_addr (masked p)) = bit_len (pfx_addr p)"
  by (simp add: masked_def)

lemma host_bits_masked: "is_valid p \<Longrightarrow> host_bits (masked p) = host_bits p"
  by (simp add: masked_def host_bits_def)

lemma addr_val_masked:
  "is_valid p \<Longrightarrow> addr_val (pfx_addr (masked p)) = addr_val (pfx_addr p) div 2 ^ host_bits p * 2 ^ host_bits p"
  by (simp add: masked_def addr_val_mask_addr)

lemmas masked_simps = pfx_bits_masked bit_len_masked host_bits_masked addr_val_masked

lemma contains_masked [simp]: "contains (masked p) a = contains p a"
  by (cases "is_valid p") (auto simp: contains_iff masked_simps)

lemma covers_masked [simp]: "covers (masked p) = covers p"
  by (simp add: covers_def)

lemma covers_invalid: "\<not> is_valid p \<Longrightarrow> covers p = {}"
  by (simp add: covers_def contains_iff)

lemma masked_masked [simp]: "masked (masked p) = masked p"
proof (cases "is_valid p")
  case True
  then have "mask_addr (host_bits p) (pfx_addr (masked p)) = pfx_addr (masked p)"
    by (intro addr_eqI) (simp_all add: masked_simps addr_val_mask_addr, simp add: masked_def)
  with True show ?thesis
    by (simp add: masked_def[of "masked p"] masked_simps netprefix.expand)
next
  case False
  then show ?thesis by (simp add: masked_def) (simp add: is_valid_def prefix_zero_def)
qed

lemma self_contained: "is_valid p \<Longrightarrow> contains p (pfx_addr p)"
  by (simp add: contains_iff is_valid_def)

lemma covers_nonempty: "is_valid p \<Longrightarrow> covers p \<noteq> {}"
  using self_contained by (auto simp: covers_def)

lemma div_div_power:
  "h \<le> k \<Longrightarrow> (v :: nat) div 2 ^ k = v div 2 ^ h div 2 ^ (k - h)"
  by (metis div_mult2_eq le_add_diff_inverse power_add)

lemma subnet_covers:
  assumes "subnet q p" and "is_valid p"
  shows "covers p \<subseteq> covers q"
proof
  fix a assume "a \<in> covers p"
  from assms have v: "is_valid q" "bit_len (pfx_addr q) = bit_len (pfx_addr p)"
    and b: "pfx_bits q \<le> pfx_bits p"
    and e: "addr_val (pfx_addr q) div 2 ^ host_bits q = addr_val (pfx_addr p) div 2 ^ host_bits q"
    by (auto simp: subnet_def contains_iff)
  have h: "host_bits p \<le> host_bits q"
    using v b assms(2) by (simp add: host_bits_def is_valid_def)
  from \<open>a \<in> covers p\<close> have a: "addr_zone a = []" "bit_len (pfx_addr p) = bit_len a"
    "addr_val (pfx_addr p) div 2 ^ host_bits p = addr_val a div 2 ^ host_bits p"
    by (auto simp: covers_def contains_iff)
  with v e show "a \<in> covers q"
    by (simp add: covers_def contains_iff div_div_power[OF h])
qed

text \<open>Two prefixes that share an address are nested; the longer one lies inside the shorter one.\<close>

lemma overlap_subnet:
  assumes "a \<in> covers p" and "a \<in> covers q" and "pfx_bits q \<le> pfx_bits p"
  shows "subnet q p"
proof -
  from assms have v: "is_valid p" "is_valid q" "bit_len (pfx_addr q) = bit_len a"
    "bit_len (pfx_addr p) = bit_len a"
    and ep: "addr_val (pfx_addr p) div 2 ^ host_bits p = addr_val a div 2 ^ host_bits p"
    and eq: "addr_val (pfx_addr q) div 2 ^ host_bits q = addr_val a div 2 ^ host_bits q"
    by (auto simp: covers_def contains_iff)
  have h: "host_bits p \<le> host_bits q"
    using v assms(3) by (simp add: host_bits_def is_valid_def)
  have "addr_val (pfx_addr p) div 2 ^ host_bits q = addr_val a div 2 ^ host_bits q"
    using ep by (simp add: div_div_power[OF h])
  with v eq assms(3) show ?thesis by (simp add: subnet_def contains_iff is_valid_def)
qed

lemma covers_card:
  assumes "is_valid p"
  shows "finite (covers p)" and "card (covers p) = 2 ^ host_bits p"
proof -
  let ?h = "host_bits p" and ?n = "addr_val (pfx_addr p) div 2 ^ host_bits p"
  have bij: "bij_betw addr_val (covers p) {?n * 2 ^ ?h ..< (?n + 1) * 2 ^ ?h}"
  proof (rule bij_betwI')
    fix a b assume "a \<in> covers p" "b \<in> covers p"
    then show "(addr_val a = addr_val b) = (a = b)"
      by (auto simp: covers_def contains_iff intro: addr_eqI)
  next
    fix a assume "a \<in> covers p"
    then have "addr_val a div 2 ^ ?h = ?n" by (simp add: covers_def contains_iff)
    then show "addr_val a \<in> {?n * 2 ^ ?h ..< (?n + 1) * 2 ^ ?h}"
      by (metis add.commute atLeastLessThan_iff div_times_less_eq_dividend dividend_less_times_div
          mult.commute plus_1_eq_Suc mult_Suc Suc_eq_plus1 zero_less_numeral zero_less_power)
  next
    fix v assume v: "v \<in> {?n * 2 ^ ?h ..< (?n + 1) * 2 ^ ?h}"
    then have dv: "v div 2 ^ ?h = ?n"
      by (metis add.commute atLeastLessThan_iff div_nat_eqI mult.commute plus_1_eq_Suc Suc_eq_plus1)
    have lt: "v < 2 ^ bit_len (pfx_addr p)"
    proof -
      have le: "?h \<le> bit_len (pfx_addr p)" by (simp add: host_bits_def)
      have "?n < 2 ^ (bit_len (pfx_addr p) - ?h)"
        using addr_val_less[of "pfx_addr p"] le
        by (metis less_mult_imp_div_less le_add_diff_inverse2 power_add)
      then have "v div 2 ^ ?h < 2 ^ (bit_len (pfx_addr p) - ?h)" by (simp add: dv)
      then show ?thesis
        using le by (metis div_less_iff_less_mult le_add_diff_inverse2 power_add zero_less_numeral zero_less_power)
    qed
    have nz: "pfx_addr p \<noteq> AddrZero" using assms by (simp add: is_valid_def)
    show "\<exists>a \<in> covers p. v = addr_val a"
      using addr_of_props[OF lt nz] dv assms
      by (intro bexI[of _ "addr_of (bit_len (pfx_addr p)) v"]) (simp_all add: covers_def contains_iff)
  qed
  from bij show "finite (covers p)" by (simp add: bij_betw_finite)
  from bij show "card (covers p) = 2 ^ host_bits p"
    by (simp add: bij_betw_same_card)
qed

lemma covers_subset_iff:
  assumes "is_valid p" and "is_valid q"
  shows "covers p \<subseteq> covers q \<longleftrightarrow> subnet q p"
proof
  assume "subnet q p"
  then show "covers p \<subseteq> covers q" using assms by (simp add: subnet_covers)
next
  assume s: "covers p \<subseteq> covers q"
  have "pfx_addr p \<in> covers p" using assms self_contained by (simp add: covers_def)
  moreover have "pfx_bits q \<le> pfx_bits p"
  proof -
    have "card (covers p) \<le> card (covers q)" by (rule card_mono[OF covers_card(1)[OF assms(2)] s])
    then have "(2::nat) ^ host_bits p \<le> 2 ^ host_bits q" using assms by (simp add: covers_card(2))
    then have "host_bits p \<le> host_bits q" by simp
    moreover have "bit_len (pfx_addr p) = bit_len (pfx_addr q)"
      using s \<open>pfx_addr p \<in> covers p\<close> by (auto simp: covers_def contains_iff)
    ultimately show ?thesis using assms unfolding host_bits_def is_valid_def by linarith
  qed
  ultimately show "subnet q p" using s by (auto simp: subnet_def covers_def)
qed

text \<open>A masked prefix is determined by what it covers.\<close>

lemma covers_inject:
  assumes "is_valid p" and "is_valid q" and "masked p = p" and "masked q = q"
  shows "covers p = covers q \<longleftrightarrow> p = q"
proof
  assume c: "covers p = covers q"
  with assms have pq: "subnet p q" "subnet q p" by (simp_all flip: covers_subset_iff)
  then have b: "pfx_bits p = pfx_bits q" and l: "bit_len (pfx_addr p) = bit_len (pfx_addr q)"
    and e: "addr_val (pfx_addr p) div 2 ^ host_bits p = addr_val (pfx_addr q) div 2 ^ host_bits p"
    by (auto simp: subnet_def contains_iff)
  then have h: "host_bits p = host_bits q" by (simp add: host_bits_def)
  have "addr_val (pfx_addr p) = addr_val (pfx_addr q)"
    using e h addr_val_masked[OF assms(1)] addr_val_masked[OF assms(2)] by (simp add: assms(3,4))
  then have "pfx_addr p = pfx_addr q"
    using assms l by (intro addr_eqI) (simp_all add: is_valid_def)
  with b show "p = q" by (simp add: netprefix.expand)
qed simp

lemma overlaps_iff:
  assumes "is_valid p" and "is_valid q"
  shows "overlaps p q \<longleftrightarrow> covers p \<inter> covers q \<noteq> {}"
proof -
  let ?m = "min (pfx_bits p) (pfx_bits q)"
  let ?p = "NetPrefix (pfx_addr p) ?m" and ?q = "NetPrefix (pfx_addr q) ?m"
  have nz: "pfx_addr p \<noteq> AddrZero" "pfx_addr q \<noteq> AddrZero" using assms by (simp_all add: is_valid_def)
  show ?thesis
  proof (cases "bit_len (pfx_addr p) = bit_len (pfx_addr q)")
    case False
    then have "overlaps p q \<longleftrightarrow> False"
      using assms nz is4_eq_bit_len[OF nz] by (auto simp: overlaps_def)
    moreover have "covers p \<inter> covers q = {}" using False by (auto simp: covers_def contains_iff)
    ultimately show ?thesis by simp
  next
    case True
    have v: "is_valid ?p" "is_valid ?q" using assms True by (auto simp: is_valid_def)
    have h: "host_bits ?q = host_bits ?p" using True by (simp add: host_bits_def)
    have sub: "subnet ?p p" "subnet ?q q"
      using assms v by (auto simp: subnet_def contains_iff is_valid_def)
    have "overlaps p q \<longleftrightarrow> ?m = 0 \<or> pfx_addr (masked ?p) = pfx_addr (masked ?q)"
      using assms True is4_eq_bit_len[OF nz] by (auto simp: overlaps_def Let_def)
    also have "\<dots> \<longleftrightarrow> addr_val (pfx_addr p) div 2 ^ host_bits ?p = addr_val (pfx_addr q) div 2 ^ host_bits ?p"
    proof -
      have "addr_val (pfx_addr p) div 2 ^ host_bits ?p = addr_val (pfx_addr q) div 2 ^ host_bits ?p"
        if "?m = 0"
      proof -
        have "host_bits ?p = bit_len (pfx_addr p)" using that by (simp add: host_bits_def)
        with addr_val_less[of "pfx_addr p"] addr_val_less[of "pfx_addr q"] True show ?thesis by simp
      qed
      moreover have "pfx_addr (masked ?p) = pfx_addr (masked ?q) \<longleftrightarrow>
          addr_val (pfx_addr p) div 2 ^ host_bits ?p = addr_val (pfx_addr q) div 2 ^ host_bits ?p"
      proof
        assume "pfx_addr (masked ?p) = pfx_addr (masked ?q)"
        then show "addr_val (pfx_addr p) div 2 ^ host_bits ?p = addr_val (pfx_addr q) div 2 ^ host_bits ?p"
          using addr_val_masked[OF v(1)] addr_val_masked[OF v(2)] h by simp
      next
        assume "addr_val (pfx_addr p) div 2 ^ host_bits ?p = addr_val (pfx_addr q) div 2 ^ host_bits ?p"
        then show "pfx_addr (masked ?p) = pfx_addr (masked ?q)"
          using v True h by (intro addr_eqI) (simp_all add: masked_simps, simp_all add: masked_def)
      qed
      ultimately show ?thesis by blast
    qed
    also have "\<dots> \<longleftrightarrow> covers p \<inter> covers q \<noteq> {}"
    proof
      assume e: "addr_val (pfx_addr p) div 2 ^ host_bits ?p = addr_val (pfx_addr q) div 2 ^ host_bits ?p"
      show "covers p \<inter> covers q \<noteq> {}"
      proof (cases "pfx_bits p \<le> pfx_bits q")
        case t: True
        then have "host_bits ?p = host_bits p" by (simp add: host_bits_def)
        with e True assms have "pfx_addr q \<in> covers p \<inter> covers q"
          by (auto simp: covers_def contains_iff is_valid_def)
        then show ?thesis by blast
      next
        case f: False
        then have "host_bits ?p = host_bits q" using True by (simp add: host_bits_def)
        with e True assms have "pfx_addr p \<in> covers p \<inter> covers q"
          by (auto simp: covers_def contains_iff is_valid_def)
        then show ?thesis by blast
      qed
    next
      assume "covers p \<inter> covers q \<noteq> {}"
      then obtain a where a: "a \<in> covers p" "a \<in> covers q" by blast
      with sub v assms have "a \<in> covers ?p" "a \<in> covers ?q" using subnet_covers by blast+
      then show "addr_val (pfx_addr p) div 2 ^ host_bits ?p = addr_val (pfx_addr q) div 2 ^ host_bits ?p"
        using h by (simp add: covers_def contains_iff)
    qed
    finally show ?thesis .
  qed
qed

end
