(* ===== verification/Nets.thy ===== *)
theory Nets
  imports Netip
begin

text \<open>
  Networks (masked prefixes) as sets of addresses.  The theory holds the one operation on a
  single network the components share, \<open>halves\<close> (\<^verbatim>\<open>internal/routing/tunnels.go\<close>), the induction
  rule it gives (halving a network down to single addresses), and pairwise disjoint lists of
  networks.

  \<^verbatim>\<open>halves\<close> sets bit \<^verbatim>\<open>p.Bits()\<close> of the masked address, counted from the most significant one:
  bit \<open>host_bits p - 1\<close> of the word.  Its callers pass a valid prefix with fewer bits than its
  address has, so the byte the source indexes exists.
\<close>

section \<open>Networks\<close>

definition masked_net :: "netprefix \<Rightarrow> bool" where
  "masked_net p \<longleftrightarrow> is_valid p \<and> masked p = p"

lemma masked_net_valid [dest]: "masked_net p \<Longrightarrow> is_valid p"
  by (simp add: masked_net_def)

lemma masked_net_masked [simp]: "is_valid p \<Longrightarrow> masked_net (masked p)"
  by (simp add: masked_net_def)

lemma masked_net_val:
  "masked_net p \<Longrightarrow> addr_val (pfx_addr p) div 2 ^ host_bits p * 2 ^ host_bits p = addr_val (pfx_addr p)"
  using addr_val_masked[of p] by (simp add: masked_net_def)

lemma masked_net_zone: "masked_net p \<Longrightarrow> addr_zone (pfx_addr p) = []"
  by (simp add: masked_net_def is_valid_def)

lemma masked_netI:
  assumes "is_valid p" and "2 ^ host_bits p dvd addr_val (pfx_addr p)"
  shows "masked_net p"
proof -
  have "mask_addr (host_bits p) (pfx_addr p) = pfx_addr p"
    using assms by (intro addr_eqI) (simp_all add: addr_val_mask_addr, simp add: is_valid_def)
  with assms(1) show ?thesis by (simp add: masked_net_def masked_def)
qed

lemma masked_net_eqI:
  assumes "masked_net p" "masked_net q" "bit_len (pfx_addr p) = bit_len (pfx_addr q)"
    "addr_val (pfx_addr p) = addr_val (pfx_addr q)" "pfx_bits p = pfx_bits q"
  shows "p = q"
  using assms addr_eqI[of "pfx_addr p" "pfx_addr q"] by (simp add: netprefix.expand masked_net_zone)

lemma masked_net_covers_nonempty: "masked_net p \<Longrightarrow> covers p \<noteq> {}"
  by (simp add: covers_nonempty masked_net_valid)

lemma masked_net_covers_inject: "masked_net p \<Longrightarrow> masked_net q \<Longrightarrow> covers p = covers q \<longleftrightarrow> p = q"
  by (simp add: masked_net_def covers_inject)

lemma in_covers_iff:
  "is_valid p \<Longrightarrow> a \<in> covers p \<longleftrightarrow> addr_zone a = [] \<and> bit_len a = bit_len (pfx_addr p)
     \<and> addr_val a div 2 ^ host_bits p = addr_val (pfx_addr p) div 2 ^ host_bits p"
  by (auto simp: covers_def contains_iff)

lemma host_bits_0_covers:
  assumes "is_valid p" "host_bits p = 0"
  shows "covers p = {pfx_addr p}"
  using assms addr_eqI[of _ "pfx_addr p"] unfolding set_eq_iff in_covers_iff[OF assms(1)]
  by (auto simp: is_valid_def)

text \<open>Two networks that share an address are nested.\<close>

lemma covers_nested:
  assumes "a \<in> covers p" and "a \<in> covers q"
  shows "covers p \<subseteq> covers q \<or> covers q \<subseteq> covers p"
proof -
  have v: "is_valid p" "is_valid q" using assms covers_invalid by blast+
  show ?thesis
    using overlap_subnet[OF assms] overlap_subnet[OF assms(2,1)] v
    by (metis covers_subset_iff linear)
qed

lemma covers_all_simps [simp]:
  "covers_all [] = {}" "covers_all (p # ps) = covers p \<union> covers_all ps"
  "covers_all (ps @ qs) = covers_all ps \<union> covers_all qs"
  by (auto simp: covers_all_def)

lemma covers_all_set: "set ps = set qs \<Longrightarrow> covers_all ps = covers_all qs"
  by (simp add: covers_all_def)

lemma covers_all_concat: "covers_all (concat pss) = (\<Union>ps \<in> set pss. covers_all ps)"
  by (auto simp: covers_all_def)

lemma covers_all_map_masked [simp]: "covers_all (map masked ps) = covers_all ps"
  by (simp add: covers_all_def)

lemma covers_all_filter_valid [simp]: "covers_all (filter is_valid ps) = covers_all ps"
  by (induction ps) (simp_all add: covers_invalid)

section \<open>Halves\<close>

lemma div_power_Suc: "(v :: nat) div 2 ^ Suc h = v div 2 ^ h div 2"
  by (metis div_mult2_eq power_Suc2)

lemma half_cases:
  "(a :: nat) div 2 = b div 2 \<Longrightarrow> a \<noteq> b \<Longrightarrow> x div 2 = a div 2 \<longleftrightarrow> x = a \<or> x = b"
  by arith

fun set_addr_bit :: "nat \<Rightarrow> addr \<Rightarrow> addr" where
  "set_addr_bit i AddrZero = AddrZero"
| "set_addr_bit i (Addr4 w) = Addr4 (w OR push_bit i 1)"
| "set_addr_bit i (Addr6 w z) = Addr6 (w OR push_bit i 1) z"

definition halves :: "netprefix \<Rightarrow> netprefix \<times> netprefix" where
  "halves p =
     (let a = pfx_addr (masked p); bits = pfx_bits p + 1
      in (prefix_from a bits, prefix_from (set_addr_bit (host_bits p - 1) a) bits))"

lemma unat_or_push_bit:
  assumes "i < LENGTH('a)" and "2 ^ Suc i dvd unat (w :: 'a :: len word)"
  shows "unat (w OR push_bit i 1) = unat w + 2 ^ i"
proof -
  have nb: "\<not> bit (unat w) i"
    using assms(2) by (auto simp: bit_iff_odd elim!: dvdE)
  have p: "unat (push_bit i 1 :: 'a word) = 2 ^ i"
    using assms(1) unfolding unsigned_push_bit_eq by (simp add: push_bit_eq_mult take_bit_eq_mod)
  have "unat w + 2 ^ i = unat w OR 2 ^ i"
    using nb by (intro disjunctive_add_eq_or) (simp add: and_exp_eq_0_iff_not_bit)
  then show ?thesis by (simp only: unsigned_or_eq p)
qed

lemma set_addr_bit_props [simp]:
  "bit_len (set_addr_bit i a) = bit_len a" "addr_zone (set_addr_bit i a) = addr_zone a"
  "(set_addr_bit i a = AddrZero) = (a = AddrZero)"
  by (cases a; simp)+

lemma addr_val_set_addr_bit:
  assumes "i < bit_len a" and "2 ^ Suc i dvd addr_val a"
  shows "addr_val (set_addr_bit i a) = addr_val a + 2 ^ i"
proof (cases a)
  case (Addr4 w)
  then show ?thesis using assms unat_or_push_bit[of i w] by simp
next
  case (Addr6 w z)
  then show ?thesis using assms unat_or_push_bit[of i w] by simp
qed (use assms in simp)

lemma pfx_from_simps:
  assumes "a \<noteq> AddrZero" "0 \<le> b" "b \<le> int (bit_len a)" "addr_zone a = []"
  shows "prefix_from a b = NetPrefix a b"
  using assms by (cases a) (simp_all add: prefix_from_def)

lemma halves_nets:
  assumes v: "is_valid p" and h: "host_bits p = Suc k" and e: "halves p = (lo, hi)"
  shows "masked_net lo" "masked_net hi" "pfx_bits lo = pfx_bits p + 1" "pfx_bits hi = pfx_bits p + 1"
    "host_bits lo = k" "host_bits hi = k"
    "addr_val (pfx_addr lo) div 2 ^ k = 2 * (addr_val (pfx_addr p) div 2 ^ Suc k)"
    "addr_val (pfx_addr hi) div 2 ^ k = Suc (2 * (addr_val (pfx_addr p) div 2 ^ Suc k))"
    "bit_len (pfx_addr lo) = bit_len (pfx_addr p)" "bit_len (pfx_addr hi) = bit_len (pfx_addr p)"
proof -
  let ?a = "pfx_addr (masked p)" and ?b = "pfx_bits p + 1" and ?n = "addr_val (pfx_addr p) div 2 ^ Suc k"
  let ?c = "set_addr_bit k ?a"
  have a: "bit_len ?a = bit_len (pfx_addr p)" "addr_zone ?a = []" "?a \<noteq> AddrZero"
      "addr_val ?a = ?n * 2 ^ Suc k"
    using v h by (auto simp: masked_def addr_val_mask_addr is_valid_def)
  have b: "0 \<le> ?b" "?b \<le> int (bit_len ?a)" "k < bit_len ?a" "bit_len ?a - nat ?b = k"
    using v h unfolding a(1) host_bits_def is_valid_def by linarith+
  have c: "addr_val ?c = ?n * 2 ^ Suc k + 2 ^ k"
    using addr_val_set_addr_bit[OF b(3)] a(4) by (metis dvd_triv_right)
  have lo: "lo = NetPrefix ?a ?b" and hi: "hi = NetPrefix ?c ?b"
    using e h a b by (auto simp: halves_def Let_def pfx_from_simps)
  show "pfx_bits lo = ?b" "pfx_bits hi = ?b" using lo hi by simp_all
  show hb: "host_bits lo = k" "host_bits hi = k" using lo hi b(4) by (simp_all add: host_bits_def)
  have val: "is_valid lo" "is_valid hi" using lo hi a b by (simp_all add: is_valid_def)
  show "masked_net lo" using val(1) hb(1) a(4) lo by (intro masked_netI) simp_all
  show "masked_net hi" using val(2) hb(2) c hi by (intro masked_netI) simp_all
  show "addr_val (pfx_addr lo) div 2 ^ k = 2 * ?n" using lo a(4) by simp
  have "addr_val (pfx_addr hi) = Suc (2 * ?n) * 2 ^ k" using hi c by (simp add: algebra_simps)
  then show "addr_val (pfx_addr hi) div 2 ^ k = Suc (2 * ?n)" by (metis nonzero_mult_div_cancel_right power_not_zero zero_neq_numeral)
  show "bit_len (pfx_addr lo) = bit_len (pfx_addr p)" "bit_len (pfx_addr hi) = bit_len (pfx_addr p)"
    using lo hi a by simp_all
qed

lemma halves_covers:
  assumes v: "is_valid p" and h: "host_bits p = Suc k" and e: "halves p = (lo, hi)"
  shows "covers p = covers lo \<union> covers hi" "covers lo \<inter> covers hi = {}"
proof -
  note n = halves_nets[OF assms]
  have m: "a \<in> covers lo \<longleftrightarrow> addr_zone a = [] \<and> bit_len a = bit_len (pfx_addr p)
        \<and> addr_val a div 2 ^ k = 2 * (addr_val (pfx_addr p) div 2 ^ Suc k)"
    "a \<in> covers hi \<longleftrightarrow> addr_zone a = [] \<and> bit_len a = bit_len (pfx_addr p)
        \<and> addr_val a div 2 ^ k = Suc (2 * (addr_val (pfx_addr p) div 2 ^ Suc k))"
    "a \<in> covers p \<longleftrightarrow> addr_zone a = [] \<and> bit_len a = bit_len (pfx_addr p)
        \<and> addr_val a div 2 ^ k div 2 = addr_val (pfx_addr p) div 2 ^ Suc k" for a
    using in_covers_iff[OF masked_net_valid[OF n(1)]] in_covers_iff[OF masked_net_valid[OF n(2)]]
      in_covers_iff[OF v] h n(5-10) div_power_Suc by simp_all
  have "(x :: nat) div 2 = y \<longleftrightarrow> x = 2 * y \<or> x = Suc (2 * y)" for x y by arith
  then show "covers p = covers lo \<union> covers hi" unfolding set_eq_iff Un_iff m by blast
  show "covers lo \<inter> covers hi = {}" unfolding set_eq_iff Int_iff m by simp
qed

text \<open>Induction over a network by halving it down to single addresses.\<close>

lemma halving_induct [consumes 1, case_names single split]:
  assumes "is_valid p"
    and "\<And>p. is_valid p \<Longrightarrow> host_bits p = 0 \<Longrightarrow> P p"
    and "\<And>p lo hi. is_valid p \<Longrightarrow> host_bits p > 0 \<Longrightarrow> halves p = (lo, hi) \<Longrightarrow> P lo \<Longrightarrow> P hi \<Longrightarrow> P p"
  shows "P p"
  using assms(1)
proof (induction "host_bits p" arbitrary: p)
  case 0
  then show ?case by (simp add: assms(2))
next
  case (Suc k)
  obtain lo hi where e: "halves p = (lo, hi)" by force
  note n = halves_nets[OF Suc.prems Suc.hyps(2)[symmetric] e]
  show ?case
    using Suc.hyps(1)[of lo] Suc.hyps(1)[of hi] n(1,2,5,6) assms(3)[OF Suc.prems _ e] Suc.hyps(2)
    by (simp add: masked_net_valid)
qed

section \<open>Disjoint lists of networks\<close>

definition disjoint_nets :: "netprefix list \<Rightarrow> bool" where
  "disjoint_nets ps \<longleftrightarrow> distinct ps \<and> (\<forall>p \<in> set ps. \<forall>q \<in> set ps. p \<noteq> q \<longrightarrow> covers p \<inter> covers q = {})"

abbreviation nets_ok :: "netprefix list \<Rightarrow> bool" where
  "nets_ok ps \<equiv> (\<forall>p \<in> set ps. masked_net p)"

lemma disjoint_nets_Nil [simp]: "disjoint_nets []"
  by (simp add: disjoint_nets_def)

lemma disjoint_nets_Cons:
  assumes "masked_net p"
  shows "disjoint_nets (p # ps) \<longleftrightarrow> covers p \<inter> covers_all ps = {} \<and> disjoint_nets ps"
proof
  assume d: "disjoint_nets (p # ps)"
  then have "covers p \<inter> covers q = {}" if "q \<in> set ps" for q
    using that by (auto simp: disjoint_nets_def)
  with d show "covers p \<inter> covers_all ps = {} \<and> disjoint_nets ps"
    by (simp add: disjoint_nets_def covers_all_def Int_UN_distrib)
next
  assume d: "covers p \<inter> covers_all ps = {} \<and> disjoint_nets ps"
  then have c: "covers p \<inter> covers q = {}" if "q \<in> set ps" for q
    using that by (auto simp: covers_all_def)
  then have "p \<notin> set ps" using masked_net_covers_nonempty[OF assms] by blast
  with c d show "disjoint_nets (p # ps)"
    by (simp add: disjoint_nets_def Int_commute)
qed

lemma disjoint_nets_snoc:
  "masked_net p \<Longrightarrow> disjoint_nets (ps @ [p]) \<longleftrightarrow> covers p \<inter> covers_all ps = {} \<and> disjoint_nets ps"
proof -
  have "disjoint_nets (ps @ [p]) \<longleftrightarrow> disjoint_nets (p # ps)"
    unfolding disjoint_nets_def by (simp only: set_append list.set Un_insert_right Un_empty_right distinct_append
      distinct.simps) blast
  then show "masked_net p \<Longrightarrow> disjoint_nets (ps @ [p]) \<longleftrightarrow> covers p \<inter> covers_all ps = {} \<and> disjoint_nets ps"
    by (simp add: disjoint_nets_Cons)
qed

end
