(* ===== verification/Netip_Strings.thy ===== *)
theory Netip_Strings
  imports Nets
begin

text \<open>
  Printing an address or a prefix and parsing it back gives the same value, for every address
  (IPv4, IPv4-mapped, IPv6 with the longest run of zero groups elided, with or without a zone)
  and every valid prefix.  The sources carry networks as strings between their components, in
  routes, rules and map keys: these facts let the component theories reason about the networks
  the strings stand for.
\<close>

section \<open>Dotted decimals\<close>

lemma decimal_small:
  "n < 10 \<Longrightarrow> decimal n = [char_of (48 + n)]"
  "10 \<le> n \<Longrightarrow> n < 100 \<Longrightarrow> decimal n = [char_of (48 + n div 10), char_of (48 + n mod 10)]"
  "100 \<le> n \<Longrightarrow> n < 1000 \<Longrightarrow>
     decimal n = [char_of (48 + n div 100), char_of (48 + n div 10 mod 10), char_of (48 + n mod 10)]"
proof -
  show a: "decimal n = [char_of (48 + n)]" if "n < 10" for n using that by (subst decimal.simps) simp
  show b: "decimal n = [char_of (48 + n div 10), char_of (48 + n mod 10)]" if "10 \<le> n" "n < 100" for n
    using that by (subst decimal.simps) (simp add: a)
  show "decimal n = [char_of (48 + n div 100), char_of (48 + n div 10 mod 10), char_of (48 + n mod 10)]"
    if "100 \<le> n" "n < 1000"
    using that by (subst decimal.simps) (simp add: b div_mult2_eq[symmetric])
qed

lemma parse4_fields_decimal:
  assumes "n < 256"
  shows "parse4_fields (decimal n @ s) acc 0 0 = parse4_fields s acc n (length (decimal n))"
proof -
  consider "n < 10" | "10 \<le> n" "n < 100" | "100 \<le> n" by linarith
  then show ?thesis
  proof cases
    case 1
    then show ?thesis by (simp add: decimal_small is_digit_char_of digit_val_char_of)
  next
    case 2
    then have d: "n div 10 < 10" "0 < n div 10" "n div 10 * 10 + n mod 10 = n" "n mod 10 < 10" by simp_all
    from 2 show ?thesis using d assms
      by (simp add: decimal_small is_digit_char_of digit_val_char_of)
  next
    case 3
    then have "n div 100 < 10" "0 < n div 100" "n mod 10 < 10" "n div 10 mod 10 < 10"
      "n div 10 * 10 + n mod 10 = n" "n div 10 < 256"
      using assms by simp_all
    moreover have "n div 100 * 10 + n div 10 mod 10 = n div 10"
      using div_mult_mod_eq[of "n div 10" 10] by (simp add: div_mult2_eq[symmetric])
    ultimately have d: "n div 100 < 10" "0 < n div 100" "n mod 10 < 10" "n div 10 mod 10 < 10"
      "n div 100 * 10 + n div 10 mod 10 = n div 10" "n div 10 * 10 + n mod 10 = n" "n div 10 < 256" by blast+
    from 3 show ?thesis using d assms
      by (simp add: decimal_small is_digit_char_of digit_val_char_of)
  qed
qed

lemma decimal_length_pos [simp]: "0 < length (decimal n)"
  by simp

lemma dot_not_digit [simp]: "\<not> is_digit CHR ''.''"
  by (simp add: is_digit_def)

lemma parse4_fields_string:
  assumes "a < 256" "b < 256" "c < 256" "d < 256"
  shows "parse4_fields (decimal a @ ''.'' @ decimal b @ ''.'' @ decimal c @ ''.'' @ decimal d) [] 0 0 = Some [a, b, c, d]"
  using assms parse4_fields_decimal[of d "[]"] by (simp add: parse4_fields_decimal)

definition octets4 :: "nat \<Rightarrow> nat list" where
  "octets4 v = [v div 2 ^ 24 mod 256, v div 2 ^ 16 mod 256, v div 2 ^ 8 mod 256, v mod 256]"

lemma octets_val_octets4: "v < 2 ^ 32 \<Longrightarrow> octets_val (octets4 v) = v"
proof -
  assume "v < 2 ^ 32"
  then have "v div 2 ^ 24 mod 256 = v div 2 ^ 24" by simp
  moreover have "v div 2 ^ 24 * 256 + v div 2 ^ 16 mod 256 = v div 2 ^ 16"
    using div_mult_mod_eq[of "v div 2 ^ 16" 256] by (simp add: div_mult2_eq[symmetric])
  moreover have "v div 2 ^ 16 * 256 + v div 2 ^ 8 mod 256 = v div 2 ^ 8"
    using div_mult_mod_eq[of "v div 2 ^ 8" 256] by (simp add: div_mult2_eq[symmetric])
  moreover have "v div 2 ^ 8 * 256 + v mod 256 = v"
    using div_mult_mod_eq[of v 256] by simp
  ultimately show ?thesis by (simp add: octets_val_def octets4_def)
qed

lemma parse4_fields_string4: "parse4_fields (string4 v) [] 0 0 = Some (octets4 v)"
  using parse4_fields_string[of "v div 2 ^ 24 mod 256" "v div 2 ^ 16 mod 256" "v div 2 ^ 8 mod 256" "v mod 256"]
  by (simp add: string4_def octets4_def)

lemma parse4_string4: "parse4 (string4 (unat w)) = Some (Addr4 w)"
  using octets_val_octets4[of "unat w"] addr_val_less[of "Addr4 w"] by (simp add: parse4_def parse4_fields_string4)

lemma parse_addr_scan_skip:
  "\<forall>c \<in> set xs. c \<notin> {CHR ''.'', CHR '':'', CHR ''%''} \<Longrightarrow> parse_addr_scan full (xs @ ys) = parse_addr_scan full ys"
  by (induction xs) auto

lemma decimal_plain: "\<forall>c \<in> set (decimal n). c \<notin> {CHR ''.'', CHR '':'', CHR ''%''}"
  using decimal_notin[of _ n] by (auto simp: is_digit_def)

lemma parse_addr_string4: "parse_addr (string4 (unat w)) = Some (Addr4 w)"
  using parse4_string4[of w] parse_addr_scan_skip[OF decimal_plain]
  by (simp add: parse_addr_def string4_def)

section \<open>Hexadecimal groups\<close>

lemma hex_small:
  "n < 16 \<Longrightarrow> hex n = [hex_digit n]"
  "16 \<le> n \<Longrightarrow> n < 256 \<Longrightarrow> hex n = [hex_digit (n div 16), hex_digit (n mod 16)]"
  "256 \<le> n \<Longrightarrow> n < 4096 \<Longrightarrow>
     hex n = [hex_digit (n div 256), hex_digit (n div 16 mod 16), hex_digit (n mod 16)]"
  "4096 \<le> n \<Longrightarrow> n < 65536 \<Longrightarrow>
     hex n = [hex_digit (n div 4096), hex_digit (n div 256 mod 16), hex_digit (n div 16 mod 16), hex_digit (n mod 16)]"
proof -
  show a: "hex n = [hex_digit n]" if "n < 16" for n using that by (subst hex.simps) simp
  show b: "hex n = [hex_digit (n div 16), hex_digit (n mod 16)]" if "16 \<le> n" "n < 256" for n
    using that by (subst hex.simps) (simp add: a)
  show c: "hex n = [hex_digit (n div 256), hex_digit (n div 16 mod 16), hex_digit (n mod 16)]"
    if "256 \<le> n" "n < 4096" for n
    using that by (subst hex.simps) (simp add: b div_mult2_eq[symmetric])
  show "hex n = [hex_digit (n div 4096), hex_digit (n div 256 mod 16), hex_digit (n div 16 mod 16), hex_digit (n mod 16)]"
    if "4096 \<le> n" "n < 65536"
    using that by (subst hex.simps) (simp add: c div_mult2_eq[symmetric])
qed

lemma hex_val_digit: "n < 16 \<Longrightarrow> hex_val (hex_digit n) = Some n"
  by (auto simp: hex_val_def hex_digit_def Let_def of_char_of)

definition stops_hex :: "string \<Rightarrow> bool" where
  "stops_hex s \<longleftrightarrow> (s = [] \<or> hex_val (hd s) = None)"

lemma scan_hex_stop: "stops_hex s \<Longrightarrow> scan_hex s off acc = Some (off, acc, s)"
  by (cases s) (auto simp: stops_hex_def)

lemma scan_hex_hex:
  assumes "n < 65536" and "stops_hex s"
  shows "\<exists>k. scan_hex (hex n @ s) 0 0 = Some (Suc k, n, s)"
proof -
  note st = scan_hex_stop[OF assms(2)]
  have m: "x div 16 * 16 + x mod 16 = x" for x :: nat by simp
  have e: "n div 256 = n div 16 div 16" "n div 4096 = n div 16 div 16 div 16" by (simp_all add: div_mult2_eq[symmetric])
  have q: "n = 16 * (n div 16) + n mod 16" "n div 16 = 16 * (n div 256) + n div 16 mod 16"
      "n div 256 = 16 * (n div 4096) + n div 256 mod 16"
    unfolding e by simp_all
  consider "n < 16" | "16 \<le> n" "n < 256" | "256 \<le> n" "n < 4096" | "4096 \<le> n" by linarith
  then show ?thesis
  proof cases
    case 1
    then show ?thesis using st by (simp add: hex_small hex_val_digit)
  next
    case 2
    then show ?thesis using st by (simp add: hex_small hex_val_digit m)
  next
    case 3
    then have "n div 256 < 16" by simp
    with 3 st show ?thesis unfolding hex_small(3)[OF 3] by (simp add: hex_val_digit) (insert q, linarith)
  next
    case 4
    then have "n div 4096 < 16" using assms(1) by simp
    with 4 st show ?thesis unfolding hex_small(4)[OF 4 assms(1)]
      by (simp add: hex_val_digit) (insert q, linarith)
  qed
qed

lemma hex_nonempty [simp]: "hex n \<noteq> []"
  by (subst hex.simps) simp

lemma hex_digit_cases: "n < 16 \<Longrightarrow> hex_val (hex_digit n) \<noteq> None"
  by (simp add: hex_val_digit)

lemma hex_chars: "\<forall>c \<in> set (hex n). hex_val c \<noteq> None"
proof (induction n rule: hex.induct)
  case (1 n)
  show ?case
  proof (cases "n < 16")
    case True
    then show ?thesis by (subst hex.simps) (simp add: hex_val_digit)
  next
    case False
    with 1 show ?thesis by (subst hex.simps) (auto simp: hex_val_digit)
  qed
qed

lemma hex_val_sep [simp]: "hex_val CHR '':'' = None" "hex_val CHR ''.'' = None" "hex_val CHR ''%'' = None"
  by (simp_all add: hex_val_def)

definition hexes :: "nat list \<Rightarrow> string" where
  "hexes gs = join '':'' (map hex gs)"

lemma hexes_simps [simp]: "hexes [] = []" "hexes [g] = hex g" "hexes (g # h # gs) = hex g @ '':'' @ hexes (h # gs)"
  by (simp_all add: hexes_def)

lemma hex_hd: "hd (hex n) \<noteq> CHR '':''"
  using hex_chars[of n] hd_in_set[OF hex_nonempty, of n] by force

lemma hexes_hd: "gs \<noteq> [] \<Longrightarrow> hexes gs \<noteq> [] \<and> hd (hexes gs) \<noteq> CHR '':''"
  using hex_hd by (cases gs; cases "tl gs") (auto simp: hd_append)

section \<open>The group loop\<close>

lemma parse6_loop_hex:
  assumes "g < 65536" and "stops_hex s"
  shows "parse6_loop (Suc n) (hex g @ s) ell gs =
    (case s of [] \<Rightarrow> Some ([], ell, gs @ [g])
     | c # cs \<Rightarrow>
        if c = CHR ''.'' then
          if ell = None \<and> length gs \<noteq> 6 \<or> length gs > 6 then None
          else (case parse4_fields (hex g @ s) [] 0 0 of
              Some [a, b, d, e] \<Rightarrow> Some ([], ell, gs @ [a * 256 + b, d * 256 + e])
            | _ \<Rightarrow> None)
        else if c \<noteq> CHR '':'' \<or> cs = [] then None
        else if hd cs = CHR '':'' then
          if ell \<noteq> None then None
          else if tl cs = [] then Some ([], Some (Suc (length gs)), gs @ [g])
          else parse6_loop n (tl cs) (Some (Suc (length gs))) (gs @ [g])
        else parse6_loop n cs ell (gs @ [g]))"
  using scan_hex_hex[OF assms] by (auto split: list.splits)

abbreviation groups_ok :: "nat list \<Rightarrow> bool" where
  "groups_ok gs \<equiv> list_all (\<lambda>g. g < 65536) gs"

lemma stops_hex_simps [simp]: "stops_hex []" "stops_hex (CHR '':'' # s)" "stops_hex (CHR ''.'' # s)"
  by (simp_all add: stops_hex_def)

lemma parse6_loop_hexes:
  "groups_ok hs \<Longrightarrow> hs \<noteq> [] \<Longrightarrow> length hs \<le> n \<Longrightarrow>
     parse6_loop n (hexes hs) ell gs = Some ([], ell, gs @ hs)"
proof (induction hs arbitrary: n gs)
  case (Cons h hs)
  then obtain m where n: "n = Suc m" by (cases n) auto
  show ?case
  proof (cases hs)
    case Nil
    then show ?thesis using Cons.prems parse6_loop_hex[of h "[]" m ell gs] by (simp add: n)
  next
    case (Cons h' hs')
    then show ?thesis
      using Cons.IH[of m "gs @ [h]"] Cons.prems parse6_loop_hex[of h "'':'' @ hexes hs" m ell gs] hexes_hd[of hs]
      by (simp add: n del: parse6_loop.simps)
  qed
qed simp

lemma parse6_loop_ellipsis:
  "groups_ok hs \<Longrightarrow> hs \<noteq> [] \<Longrightarrow> length hs \<le> n \<Longrightarrow>
     parse6_loop n (hexes hs @ ''::'' @ s) None gs =
       (if s = [] then Some ([], Some (length gs + length hs), gs @ hs)
        else parse6_loop (n - length hs) s (Some (length gs + length hs)) (gs @ hs))"
proof (induction hs arbitrary: n gs)
  case (Cons h hs)
  then obtain m where n: "n = Suc m" by (cases n) auto
  show ?case
  proof (cases hs)
    case Nil
    then show ?thesis using Cons.prems parse6_loop_hex[of h "''::'' @ s" m None gs]
      by (simp add: n del: parse6_loop.simps)
  next
    case (Cons h' hs')
    then show ?thesis
      using Cons.IH[of m "gs @ [h]"] Cons.prems hexes_hd[of hs]
        parse6_loop_hex[of h "'':'' @ hexes hs @ ''::'' @ s" m None gs]
      by (simp add: n del: parse6_loop.simps)
  qed
qed simp

section \<open>The longest run of zeros\<close>

lemma zero_run_spec: "take (zero_run gs) gs = replicate (zero_run gs) 0 \<and> zero_run gs \<le> length gs"
  by (induction gs rule: zero_run.induct) auto

lemma best_run_spec:
  "best_run i gs best = (s, e) \<Longrightarrow>
     (s, e) = best \<or> (i \<le> s \<and> s + 2 \<le> e \<and> e \<le> i + length gs
       \<and> take (e - s) (drop (s - i) gs) = replicate (e - s) 0)"
proof (induction i gs best rule: best_run.induct)
  case (2 i g gs best)
  let ?l = "zero_run (g # gs)" and ?b = "if 2 \<le> zero_run (g # gs) \<and> snd best - fst best < zero_run (g # gs)
    then (i, i + zero_run (g # gs)) else best"
  have r: "best_run (Suc i) gs ?b = (s, e)" using "2.prems" by (simp add: Let_def)
  from "2.IH"[OF refl r] consider "(s, e) = ?b"
    | "Suc i \<le> s" "s + 2 \<le> e" "e \<le> Suc i + length gs" "take (e - s) (drop (s - Suc i) gs) = replicate (e - s) 0"
    by blast
  then show ?case
  proof cases
    case 1
    then show ?thesis using zero_run_spec[of "g # gs"] by (auto split: if_splits)
  next
    case 2
    then show ?thesis by (auto simp: drop_Cons' not_less_eq_eq Suc_diff_le)
  qed
qed simp

section \<open>Addresses\<close>

lemma groups6_list:
  "groups6 v = [v div 2 ^ 112 mod 65536, v div 2 ^ 96 mod 65536, v div 2 ^ 80 mod 65536, v div 2 ^ 64 mod 65536,
     v div 2 ^ 48 mod 65536, v div 2 ^ 32 mod 65536, v div 2 ^ 16 mod 65536, v mod 65536]"
  by (simp add: groups6_def upt_conv_Cons)

lemma groups6_ok [simp]: "groups_ok (groups6 v)" "length (groups6 v) = 8"
  by (simp_all add: groups6_list)

lemma groups_step: "v div 2 ^ (k + 16) * 65536 + v div 2 ^ k mod 65536 = (v :: nat) div 2 ^ k"
  using div_mult_mod_eq[of "v div 2 ^ k" 65536] by (simp add: div_mult2_eq power_add)

lemma groups_val_groups6: "v < 2 ^ 128 \<Longrightarrow> groups_val (groups6 v) = v"
proof -
  assume "v < 2 ^ 128"
  then have "v div 2 ^ 112 mod 65536 = v div 2 ^ 112" by simp
  then show ?thesis
    using groups_step[of v 96] groups_step[of v 80] groups_step[of v 64] groups_step[of v 48]
      groups_step[of v 32] groups_step[of v 16] groups_step[of v 0]
    by (simp add: groups_val_def groups6_list)
qed

lemma string6_cases:
  obtains (full) "string6 v = hexes (groups6 v)"
  | (run) pre post n where "groups6 v = pre @ replicate n 0 @ post" "2 \<le> n"
      "string6 v = hexes pre @ ''::'' @ hexes post"
proof -
  obtain s e where b: "best_run 0 (groups6 v) (255, 255) = (s, e)" by force
  show thesis
  proof (cases "s = 255")
    case True
    then show thesis using b by (intro full) (simp add: string6_def hexes_def)
  next
    case False
    with best_run_spec[OF b] have r: "s + 2 \<le> e" "e \<le> 8" "take (e - s) (drop s (groups6 v)) = replicate (e - s) 0"
      by auto
    have "groups6 v = take s (groups6 v) @ take (e - s) (drop s (groups6 v)) @ drop e (groups6 v)"
      using r(1) by (metis append_take_drop_id drop_drop le_add_diff_inverse2 add_leD1 take_add)
    with r have "groups6 v = take s (groups6 v) @ replicate (e - s) 0 @ drop e (groups6 v)" by simp
    moreover have "string6 v = hexes (take s (groups6 v)) @ ''::'' @ hexes (drop e (groups6 v))"
      using False by (simp only: string6_def hexes_def Let_def b prod.case if_False)
    ultimately show thesis using r(1) by (intro run) auto
  qed
qed

lemma hexes_no_percent: "CHR ''%'' \<notin> set (hexes gs)"
proof -
  have "CHR ''%'' \<notin> set (hex g)" for g using hex_chars[of g] by force
  then show ?thesis by (induction gs rule: induct_list012) auto
qed

lemma has_prefix_colons: "s \<noteq> [] \<Longrightarrow> hd s \<noteq> CHR '':'' \<Longrightarrow> \<not> has_prefix s ''::''"
  by (cases s) (auto simp: has_prefix_def)

definition body6 :: "string \<Rightarrow> nat option" where
  "body6 s = (if has_prefix s ''::'' then
       if drop 2 s = [] then Some 0 else Option.bind (parse6_loop 8 (drop 2 s) (Some 0) []) finish6
     else Option.bind (parse6_loop 8 s None []) finish6)"

lemma parse6_body:
  assumes "CHR ''%'' \<notin> set s"
  shows "parse6 (s @ (if z = [] then [] else ''%'' @ z)) = map_option (\<lambda>v. Addr6 (of_nat v) z) (body6 s)"
proof -
  have t: "takeWhile (\<lambda>c. c \<noteq> CHR ''%'') (s @ (if z = [] then [] else ''%'' @ z)) = s"
    "dropWhile (\<lambda>c. c \<noteq> CHR ''%'') (s @ (if z = [] then [] else ''%'' @ z)) = (if z = [] then [] else ''%'' @ z)"
    using assms by (auto simp: takeWhile_append dropWhile_append)
  show ?thesis unfolding parse6_def t by (auto simp: body6_def Let_def)
qed

lemma body6_string6:
  assumes "v < 2 ^ 128"
  shows "body6 (string6 v) = Some v"
proof (cases v rule: string6_cases)
  case full
  have ne: "groups6 v \<noteq> []" by (simp add: groups6_list)
  have "parse6_loop 8 (hexes (groups6 v)) None [] = Some ([], None, groups6 v)"
    using ne by (simp add: parse6_loop_hexes)
  with full ne hexes_hd[OF ne] groups_val_groups6[OF assms] show ?thesis
    by (simp add: body6_def has_prefix_colons finish6_def)
next
  case (run pre post n)
  have len: "length pre + n + length post = 8" using arg_cong[OF run(1), of length] by simp
  have ok: "groups_ok pre" "groups_ok post" using groups6_ok(1)[of v] unfolding run(1) by simp_all
  have val: "groups_val (pre @ replicate n 0 @ post) = v" using groups_val_groups6[OF assms] run(1) by simp
  have fin: "finish6 ([], Some (length pre), pre @ post) = Some v"
    using len run(2) val by (simp add: finish6_def) (metis add_diff_cancel_right' add.assoc add.commute)
  show ?thesis
  proof (cases "pre = []")
    case True
    show ?thesis
    proof (cases "post = []")
      case post: True
      have "v = 0" using val True post by (simp add: groups_val_def) (induction n; simp)
      with True post run(3) show ?thesis by (simp add: body6_def has_prefix_def)
    next
      case False
      then have "parse6_loop 8 (hexes post) (Some 0) [] = Some ([], Some 0, post)"
        using ok len parse6_loop_hexes[of post 8 "Some 0" "[]"] by simp
      with False True run(3) fin hexes_hd[OF False] show ?thesis by (simp add: body6_def has_prefix_def)
    qed
  next
    case False
    have "parse6_loop 8 (string6 v) None [] = Some ([], Some (length pre), pre @ post)"
    proof (cases "post = []")
      case True
      then show ?thesis using parse6_loop_ellipsis[OF ok(1) False, of 8 "[]" "[]"] len run(3) by simp
    next
      case post: False
      have "parse6_loop (8 - length pre) (hexes post) (Some (length pre)) pre = Some ([], Some (length pre), pre @ post)"
        using ok len post parse6_loop_hexes[of post "8 - length pre" "Some (length pre)" pre] by simp
      with post hexes_hd[OF post] show ?thesis
        using parse6_loop_ellipsis[OF ok(1) False, of 8 "hexes post" "[]"] len run(3) by simp
    qed
    moreover have "\<not> has_prefix (string6 v) ''::''"
      using hexes_hd[OF False] run(3) by (intro has_prefix_colons) (simp_all add: hd_append)
    ultimately show ?thesis using fin by (simp add: body6_def)
  qed
qed

lemma string6_no_percent: "CHR ''%'' \<notin> set (string6 v)"
  by (cases v rule: string6_cases) (auto simp: hexes_no_percent)

lemma string6_scan: "parse_addr_scan full (string6 v @ t) = parse6 full"
proof -
  have plain: "\<forall>c \<in> set (hex g). c \<notin> {CHR ''.'', CHR '':'', CHR ''%''}" for g
    using hex_chars[of g] by force
  have h: "parse_addr_scan full (hexes gs @ CHR '':'' # r) = parse6 full" for gs r
    by (cases gs; cases "tl gs") (auto simp: parse_addr_scan_skip[OF plain] append_assoc)
  show ?thesis
  proof (cases v rule: string6_cases)
    case full
    obtain a b r where "groups6 v = a # b # r" by (simp add: groups6_list)
    then have "string6 v @ t = hexes [a] @ CHR '':'' # hexes (b # r) @ t" using full by simp
    then show ?thesis using h by metis
  next
    case (run pre post n)
    then show ?thesis using h[of pre "CHR '':'' # hexes post @ t"] by simp
  qed
qed

lemma hex_val_decimal_digit: "n < 10 \<Longrightarrow> hex_val (char_of (48 + n)) = Some n"
  by (simp add: hex_val_def Let_def of_char_of)

lemma scan_hex_decimal:
  assumes "n < 256" and "stops_hex s"
  shows "\<exists>k v. scan_hex (decimal n @ s) 0 0 = Some (Suc k, v, s)"
proof -
  note st = scan_hex_stop[OF assms(2)]
  consider "n < 10" | "10 \<le> n" "n < 100" | "100 \<le> n" by linarith
  then show ?thesis
  proof cases
    case 1
    then show ?thesis using st by (simp add: decimal_small hex_val_decimal_digit)
  next
    case 2
    then show ?thesis using st by (simp add: decimal_small hex_val_decimal_digit)
  next
    case 3
    then have "n div 100 < 10" using assms(1) by simp
    with 3 assms(1) st show ?thesis by (simp add: decimal_small hex_val_decimal_digit)
  qed
qed

lemma string4_dot: "\<exists>a r. a < 256 \<and> string4 v = decimal a @ CHR ''.'' # r"
  by (rule exI[of _ "v div 2 ^ 24 mod 256"]) (simp add: string4_def)

lemma parse6_loop_string4:
  assumes "length gs \<le> 6"
  shows "parse6_loop (Suc n) (string4 v) (Some e) gs =
     Some ([], Some e, gs @ [v div 2 ^ 24 mod 256 * 256 + v div 2 ^ 16 mod 256, v div 2 ^ 8 mod 256 * 256 + v mod 256])"
proof -
  obtain a r where s: "a < 256" "string4 v = decimal a @ CHR ''.'' # r" using string4_dot by blast
  obtain k x where sc: "scan_hex (string4 v) 0 0 = Some (Suc k, x, CHR ''.'' # r)"
    using scan_hex_decimal[of a "CHR ''.'' # r"] s by auto
  show ?thesis using assms by (simp add: sc parse4_fields_string4 octets4_def)
qed

lemma string4_hd: "string4 v \<noteq> [] \<and> hd (string4 v) \<noteq> CHR '':''"
proof -
  obtain a r where s: "string4 v = decimal a @ CHR ''.'' # r" using string4_dot by blast
  have "hd (decimal a) \<noteq> CHR '':''"
    using decimal_digits[of a] hd_in_set[OF decimal_nonempty, of a] by (force simp: is_digit_def)
  with s show ?thesis by (simp add: hd_append)
qed

lemma hex_ffff: "hex 65535 = ''ffff''"
proof -
  have "hex_digit 15 = CHR ''f''" by code_simp
  then show ?thesis by (simp add: hex_small)
qed

lemma body6_4in6:
  assumes "v < 2 ^ 32"
  shows "body6 (''::ffff:'' @ string4 v) = Some (65535 * 2 ^ 32 + v)"
proof -
  have z: "replicate 5 (0 :: nat) = [0, 0, 0, 0, 0]" by (simp add: eval_nat_numeral)
  have "parse6_loop 8 (''ffff:'' @ string4 v) (Some 0) [] = parse6_loop 7 (string4 v) (Some 0) [65535]"
    using parse6_loop_hex[of 65535 "CHR '':'' # string4 v" 7 "Some 0" "[]"] string4_hd[of v]
    by (simp add: hex_ffff del: parse6_loop.simps)
  also have "\<dots> = Some ([], Some 0, [65535, v div 2 ^ 24 mod 256 * 256 + v div 2 ^ 16 mod 256,
      v div 2 ^ 8 mod 256 * 256 + v mod 256])"
    using parse6_loop_string4[of "[65535]" 6 v 0] by (simp del: parse6_loop.simps)
  finally have "body6 (''::ffff:'' @ string4 v) = Some (groups_val (replicate 5 0 @ [65535,
      v div 2 ^ 24 mod 256 * 256 + v div 2 ^ 16 mod 256, v div 2 ^ 8 mod 256 * 256 + v mod 256]))"
    by (simp add: body6_def has_prefix_def finish6_def del: parse6_loop.simps)
  also have "groups_val (replicate 5 0 @ [65535,
      v div 2 ^ 24 mod 256 * 256 + v div 2 ^ 16 mod 256, v div 2 ^ 8 mod 256 * 256 + v mod 256]) = 65535 * 2 ^ 32 + v"
  proof -
    have "v div 2 ^ 24 mod 256 = v div 2 ^ 24" using assms by simp
    then show ?thesis
      unfolding z using octets_val_octets4[OF assms] by (simp add: groups_val_def octets_val_def octets4_def)
  qed
  finally show ?thesis .
qed

lemma parse_addr_string:
  assumes "a \<noteq> AddrZero"
  shows "parse_addr (addr_string a) = Some a"
proof (cases a)
  case (Addr6 w z)
  let ?t = "if z = [] then [] else ''%'' @ z"
  show ?thesis
  proof (cases "is4in6 (Addr6 w z)")
    case True
    let ?x = "ucast w :: 32 word"
    have nat: "65535 * 2 ^ 32 + unat ?x = unat w"
    proof -
      have "unat w div 2 ^ 32 = 65535"
      proof -
        have "drop_bit 32 w = 65535" using True by (simp only: is4in6.simps)
        then have "unat (drop_bit 32 w) = unat (65535 :: 128 word)" by (rule arg_cong)
        then show ?thesis unfolding unat_drop_bit_eq by (simp add: drop_bit_eq_div)
      qed
      moreover have "unat ?x = unat w mod 2 ^ 32" by (simp add: unsigned_ucast_eq take_bit_eq_mod)
      ultimately show ?thesis by (metis div_mult_mod_eq)
    qed
    have np: "CHR ''%'' \<notin> set (''::ffff:'' @ string4 (unat ?x))"
      using decimal_plain by (auto simp: string4_def)
    have "parse_addr (addr_string a) = parse6 ((''::ffff:'' @ string4 (unat ?x)) @ ?t)"
      using True Addr6 by (simp add: parse_addr_def)
    also have "\<dots> = Some (Addr6 w z)"
      unfolding parse6_body[OF np] using body6_4in6[of "unat ?x"] addr_val_less[of "Addr4 ?x"] nat
      by simp
    finally show ?thesis using Addr6 by simp
  next
    case False
    then have "parse_addr (addr_string a) = parse6 (string6 (unat w) @ ?t)"
      using Addr6 string6_scan[of _ "unat w" ?t] by (simp add: parse_addr_def)
    also have "\<dots> = Some (Addr6 w z)"
      unfolding parse6_body[OF string6_no_percent] using body6_string6[of "unat w"] addr_val_less[of a] Addr6 by simp
    finally show ?thesis using Addr6 by simp
  qed
qed (use assms parse_addr_string4 in auto)

section \<open>Prefixes\<close>

lemma parse_bits_decimal: "parse_bits (decimal n) = Some n"
proof -
  have "\<not> (length (decimal n) > 1 \<and> hd (decimal n) = CHR ''0'')"
  proof (induction n rule: decimal.induct)
    case (1 n)
    show ?case
    proof (cases "n < 10")
      case True
      then show ?thesis by (simp add: decimal_small)
    next
      case False
      then have d: "decimal n = decimal (n div 10) @ [char_of (48 + n mod 10)]" by (subst decimal.simps) simp
      have "hd (decimal (n div 10)) \<noteq> CHR ''0''"
      proof (cases "n div 10 < 10")
        case True
        then have "0 < n div 10" using False by simp
        then have "digit_val (char_of (48 + n div 10)) \<noteq> digit_val (CHR ''0'')"
          using True by (simp only: digit_val_char_of) (simp add: digit_val_def)
        then show ?thesis using True by (auto simp: decimal_small)
      next
        case f: False
        then have "length (decimal (n div 10)) > 1" by (subst decimal.simps) (simp add: Suc_lessI)
        then show ?thesis using 1 False by blast
      qed
      then show ?thesis by (simp add: d)
    qed
  qed
  then show ?thesis
    using decimal_digits[of n] by (auto simp: parse_bits_def list_all_iff decimal_value_decimal)
qed

lemma last_slash:
  assumes "CHR ''/'' \<notin> set b"
  shows "takeWhile (\<lambda>c. c \<noteq> CHR ''/'') (rev (s @ CHR ''/'' # b)) = rev b"
    "dropWhile (\<lambda>c. c \<noteq> CHR ''/'') (rev (s @ CHR ''/'' # b)) = CHR ''/'' # rev s"
  using assms by (auto simp: takeWhile_append dropWhile_append)

lemma parse_prefix_string:
  assumes "is_valid p"
  shows "parse_prefix (prefix_string p) = Some p"
proof -
  let ?a = "pfx_addr p" and ?d = "decimal (nat (pfx_bits p))"
  have v: "?a \<noteq> AddrZero" "0 \<le> pfx_bits p" "pfx_bits p \<le> int (bit_len ?a)" "addr_zone ?a = []"
    using assms by (simp_all add: is_valid_def)
  have s: "prefix_string p = addr_string ?a @ CHR ''/'' # ?d"
    using assms v by (simp add: prefix_string_def itoa_def)
  have ns: "CHR ''/'' \<notin> set ?d" by (rule decimal_notin) (simp add: is_digit_def)
  have "nat (pfx_bits p) \<le> bit_len ?a" using v by linarith
  then show ?thesis
    unfolding parse_prefix_def s last_slash[OF ns] Let_def
    using v parse_addr_string[OF v(1)] parse_bits_decimal by (simp add: pfx_from_simps netprefix.expand)
qed

lemma prefix_string_inject: "is_valid p \<Longrightarrow> is_valid q \<Longrightarrow> prefix_string p = prefix_string q \<longleftrightarrow> p = q"
  using parse_prefix_string by (metis option.inject)

lemma addr_string_inject: "a \<noteq> AddrZero \<Longrightarrow> b \<noteq> AddrZero \<Longrightarrow> addr_string a = addr_string b \<longleftrightarrow> a = b"
  using parse_addr_string by (metis option.inject)

lemma parse_addr_valid: "parse_addr s = Some a \<Longrightarrow> a \<noteq> AddrZero"
proof -
  have "parse_addr_scan s t = Some a \<Longrightarrow> a \<noteq> AddrZero" for t
    by (induction s t rule: parse_addr_scan.induct)
      (auto simp: parse4_def parse6_def Let_def split: if_splits)
  then show "parse_addr s = Some a \<Longrightarrow> a \<noteq> AddrZero" by (simp add: parse_addr_def)
qed

lemma parse_prefix_valid: "parse_prefix s = Some p \<Longrightarrow> is_valid p"
  using parse_addr_valid
  by (auto simp: parse_prefix_def Let_def pfx_from_simps is_valid_def split: if_splits option.splits)

text \<open>The characters a printed prefix is made of; separators of keys and selectors are not among them.\<close>

definition addr_char :: "char \<Rightarrow> bool" where
  "addr_char c \<longleftrightarrow> hex_val c \<noteq> None \<or> c \<in> {CHR ''.'', CHR '':''}"

lemma decimal_addr_chars: "list_all addr_char (decimal n)"
proof -
  have "is_digit c \<Longrightarrow> addr_char c" for c by (simp add: is_digit_def addr_char_def hex_val_def Let_def)
  then show ?thesis using decimal_digits[of n] by (auto simp: list_all_iff)
qed

lemma hexes_addr_chars: "list_all addr_char (hexes gs)"
  using hex_chars by (induction gs rule: induct_list012) (auto simp: list_all_iff addr_char_def)

lemma string4_addr_chars: "list_all addr_char (string4 v)"
  using decimal_addr_chars by (simp add: string4_def) (simp add: addr_char_def)

lemma string6_addr_chars: "list_all addr_char (string6 v)"
  using hexes_addr_chars by (cases v rule: string6_cases) (simp_all, simp add: addr_char_def)

lemma addr_chars: "a \<noteq> AddrZero \<Longrightarrow> addr_zone a = [] \<Longrightarrow> list_all addr_char (addr_string a)"
  using string4_addr_chars string6_addr_chars by (cases a) (simp_all, simp add: addr_char_def hex_val_def)

lemma addr_string_no_slash: "a \<noteq> AddrZero \<Longrightarrow> addr_zone a = [] \<Longrightarrow> CHR ''/'' \<notin> set (addr_string a)"
  using addr_chars[of a] by (auto simp: list_all_iff addr_char_def hex_val_def)

lemma prefix_chars: "is_valid p \<Longrightarrow> list_all (\<lambda>c. addr_char c \<or> c = CHR ''/'') (prefix_string p)"
  using addr_chars[of "pfx_addr p"] decimal_addr_chars
  by (auto simp: prefix_string_def itoa_def is_valid_def list_all_iff)

lemma prefix_string_no_sep:
  assumes "is_valid p"
  shows "CHR ''|'' \<notin> set (prefix_string p)" "CHR '' '' \<notin> set (prefix_string p)"
  using prefix_chars[OF assms] by (auto simp: list_all_iff addr_char_def hex_val_def)

end
