(* ===== verification/Domain.thy ===== *)
theory Domain
  imports Netip_Strings "HOL-Library.Code_Target_Nat"
begin

text \<open>
  The entities of \<^verbatim>\<open>internal/domain\<close> the modelled components share, field by field.  Go's
  string-based enumerations (families, owners, modes, rule types) stay strings, because the code
  passes unknown values through; their constants are abbreviations.  Optional pointers are
  \<open>option\<close> values.  An embedded struct is a field (\<open>mr_Route\<close> of a managed route).
  Field names carry a prefix naming their record.
\<close>

section \<open>Networks\<close>

type_synonym family = string

abbreviation FamilyV4 :: family where "FamilyV4 \<equiv> ''v4''"
abbreviation FamilyV6 :: family where "FamilyV6 \<equiv> ''v6''"

type_synonym owner = string

abbreviation OwnerSystem :: owner where "OwnerSystem \<equiv> ''system''"
abbreviation OwnerRiftRoute :: owner where "OwnerRiftRoute \<equiv> ''riftroute''"
abbreviation OwnerVPN :: owner where "OwnerVPN \<equiv> ''vpn''"
abbreviation OwnerUnknown :: owner where "OwnerUnknown \<equiv> ''unknown''"

abbreviation ProtoRiftRoute :: string where "ProtoRiftRoute \<equiv> ''riftroute''"

record route =
  rt_DstCIDR :: string
  rt_Gateway :: string
  rt_Iface :: string
  rt_Metric :: int
  rt_Family :: family
  rt_Owner :: owner
  rt_Proto :: string
  rt_Table :: string
  rt_Profile :: string
  rt_Cloned :: bool
  rt_Scoped :: bool
  rt_Reject :: bool

text \<open>The zero value of a struct: what a composite literal leaves out.\<close>

definition route0 :: route where
  "route0 = \<lparr>rt_DstCIDR = [], rt_Gateway = [], rt_Iface = [], rt_Metric = 0, rt_Family = [], rt_Owner = [],
     rt_Proto = [], rt_Table = [], rt_Profile = [], rt_Cloned = False, rt_Scoped = False, rt_Reject = False\<rparr>"

record policy_rule =
  pr_Priority :: int
  pr_Selector :: string
  pr_Table :: string
  pr_Family :: family
  pr_Proto :: string
  pr_RouteToIface :: string
  pr_RouteToGW :: string

definition policy_rule0 :: policy_rule where
  "policy_rule0 = \<lparr>pr_Priority = 0, pr_Selector = [], pr_Table = [], pr_Family = [], pr_Proto = [],
     pr_RouteToIface = [], pr_RouteToGW = []\<rparr>"

record iface =
  if_Name :: string
  if_Up :: bool
  if_Kind :: string
  if_Addrs :: "string list"
  if_MTU :: int
  if_IsVPN :: bool

record dns_state =
  dn_Servers :: "string list"
  dn_SearchDomains :: "string list"
  dn_Iface :: string

record default_route =
  df_Family :: family
  df_Present :: bool
  df_Gateway :: string
  df_Iface :: string
  df_Owner :: owner
  df_ViaVPN :: bool

record route_decision =
  rd_Target :: string
  rd_Source :: string
  rd_MatchedCIDR :: string
  rd_Gateway :: string
  rd_Iface :: string
  rd_Family :: family
  rd_Owner :: owner
  rd_Profile :: string
  rd_ViaVPN :: bool
  rd_Tunnel :: string
  rd_TunnelType :: string
  rd_Reachable :: bool
  rd_Rejected :: bool

section \<open>Profiles\<close>

type_synonym mode = string

abbreviation ModeExclude :: mode where "ModeExclude \<equiv> ''exclude''"
abbreviation ModeInclude :: mode where "ModeInclude \<equiv> ''include''"
abbreviation ModeTunnel :: mode where "ModeTunnel \<equiv> ''tunnel''"

abbreviation RuleCIDR :: string where "RuleCIDR \<equiv> ''cidr''"
abbreviation RuleIP :: string where "RuleIP \<equiv> ''ip''"
abbreviation RuleDomain :: string where "RuleDomain \<equiv> ''domain''"
abbreviation RuleASN :: string where "RuleASN \<equiv> ''asn''"
abbreviation RuleCountry :: string where "RuleCountry \<equiv> ''country''"
abbreviation RuleApp :: string where "RuleApp \<equiv> ''app''"

record profile_rule =
  ru_Type :: string
  ru_Value :: string
  ru_Comment :: string

record profile =
  pf_ID :: string
  pf_Name :: string
  pf_Description :: string
  pf_Enabled :: bool
  pf_Mode :: mode
  pf_Gateway :: string
  pf_Priority :: int
  pf_Rules :: "profile_rule list"
  pf_Lists :: "string list"
  pf_IPVersion :: "family list"
  pf_Tunnel :: string

record rule_list =
  li_Name :: string
  li_Static :: "string list"
  li_Source :: string
  li_Refresh :: string
  li_LastFetched :: "time option"
  li_Checksum :: string
  li_Resolved :: "string list"

definition Entries :: "rule_list \<Rightarrow> string list" where
  "Entries l = li_Static l @ li_Resolved l"

text \<open>
  The loop ranges over runes; every byte of a multi-byte or invalid sequence is outside the
  accepted set, so testing bytes gives the same verdict.
\<close>

definition in_range :: "char \<Rightarrow> char \<Rightarrow> char \<Rightarrow> bool" where
  "in_range lo hi r \<longleftrightarrow> lo \<le> r \<and> r \<le> hi"

definition uid_char :: "char \<Rightarrow> bool" where
  "uid_char r \<longleftrightarrow> in_range (CHR ''a'') (CHR ''z'') r \<or> in_range (CHR ''A'') (CHR ''Z'') r
     \<or> in_range (CHR ''0'') (CHR ''9'') r \<or> r \<in> set ''_-.''"

definition IsUIDLike :: "string \<Rightarrow> bool" where
  "IsUIDLike s \<longleftrightarrow> s \<noteq> [] \<and> list_all uid_char s"

definition DomainRuleHost :: "string \<Rightarrow> string" where
  "DomainRuleHost v = trim_prefix v ''*.''"

record managed_route =
  mr_Route :: route
  mr_ProfileID :: string
  mr_CreatedAt :: time

record managed_rule =
  ml_Rule :: policy_rule
  ml_ProfileID :: string
  ml_CreatedAt :: time

section \<open>Plans\<close>

text \<open>\<open>OpOther\<close> stands for any other string in the field.\<close>

datatype op_kind = OpAddRoute | OpDelRoute | OpAddRule | OpDelRule | OpOther string

record plan_op =
  po_Kind :: op_kind
  po_Route :: "managed_route option"
  po_Rule :: "managed_rule option"
  po_Command :: "string list"
  po_Human :: string

record plan =
  pl_Ops :: "plan_op list"
  pl_Inverse :: "plan_op list"

datatype tx_result = TxPending | TxCommitted | TxRolledBack | TxFailed

datatype diff_action = DiffAdd | DiffDel | DiffChange

record diff_entry =
  de_Action :: diff_action
  de_Route :: route

record diff =
  di_Entries :: "diff_entry list"
  di_Adds :: nat
  di_Dels :: nat
  di_Changes :: nat
  di_InSync :: bool

record conflict =
  cf_Kind :: string
  cf_A :: string
  cf_B :: string
  cf_Detail :: string

section \<open>Tunnels\<close>

record tunnel_blocked =
  tb_Route :: string
  tb_Reason :: string

record tunnel_except =
  te_Net :: string
  te_Reason :: string

record tunnel_narrowed =
  tn_Route :: string
  tn_Except :: "tunnel_except list"

end
