(* ===== verification/Aggregate.thy ===== *)
theory Aggregate
  imports Nets
begin

text \<open>
  \<^verbatim>\<open>internal/routing/aggregate.go\<close>: the prefix set of a profile is reduced to the smallest
  equivalent list of networks before it becomes routes, and \<^verbatim>\<open>within\<close>
  (\<^verbatim>\<open>internal/routing/engine.go\<close>) tests membership in such a list.

  \<open>sortPrefixes\<close> is a sort by key; the sources sort with an unstable sort, which gives the same
  list because distinct masked networks have distinct keys.  The loop of \<^verbatim>\<open>mergeOnce\<close> walks the
  sorted list, taking a pair or one element at a time (\<open>merge_walk\<close>); its \<^verbatim>\<open>used\<close> marks are the
  elements already passed.  \<open>merge_all\<close> is the loop that repeats it until nothing merges; it ends
  because every merge shortens the list.

  The theorems: aggregation keeps exactly the covered addresses, its result is disjoint, free of
  complete pairs and sorted, hence the unique canonical form and of minimal length; membership of
  a network in the union is decided by looking at one network at a time.  The interface
  \<open>aggregator\<close> is what the clients rely on.
\<close>

section \<open>The code\<close>

definition prefix_sort_key :: "netprefix \<Rightarrow> bool \<times> (nat \<times> int \<times> string) \<times> int" where
  "prefix_sort_key p = (\<not> is4 (pfx_addr p), addr_key (pfx_addr p), pfx_bits p)"

definition sortPrefixes :: "netprefix list \<Rightarrow> netprefix list" where
  "sortPrefixes ps = sort_key prefix_sort_key ps"

fun drop_covered :: "netprefix list \<Rightarrow> netprefix list \<Rightarrow> netprefix list" where
  "drop_covered kept [] = kept"
| "drop_covered kept (p # ps) =
     (if list_ex (\<lambda>q. pfx_bits q \<le> pfx_bits p \<and> contains q (pfx_addr p)) kept
      then drop_covered kept ps else drop_covered (kept @ [p]) ps)"

definition parent_of :: "netprefix \<Rightarrow> netprefix" where
  "parent_of p = masked (prefix_from (pfx_addr p) (pfx_bits p - 1))"

definition complete_pair :: "netprefix \<Rightarrow> netprefix \<Rightarrow> bool" where
  "complete_pair p q \<longleftrightarrow> pfx_bits p > 0 \<and> pfx_bits p = pfx_bits q
     \<and> contains (parent_of p) (pfx_addr p) \<and> contains (parent_of p) (pfx_addr q)
     \<and> pfx_addr p \<noteq> pfx_addr q"

fun merge_walk :: "netprefix list \<Rightarrow> netprefix list \<times> bool" where
  "merge_walk [] = ([], False)"
| "merge_walk [p] = ([p], False)"
| "merge_walk (p # q # rest) =
     (if complete_pair p q then (parent_of p # fst (merge_walk rest), True)
      else (p # fst (merge_walk (q # rest)), snd (merge_walk (q # rest))))"

definition mergeOnce :: "netprefix list \<Rightarrow> netprefix list \<times> bool" where
  "mergeOnce ps = merge_walk (sortPrefixes ps)"

lemma merge_walk_length:
  "length (fst (merge_walk ps)) + (if snd (merge_walk ps) then 1 else 0) \<le> length ps"
  by (induction ps rule: merge_walk.induct) auto

lemma mergeOnce_length: "snd (mergeOnce ps) \<Longrightarrow> length (fst (mergeOnce ps)) < length ps"
  using merge_walk_length[of "sortPrefixes ps"] by (simp add: mergeOnce_def sortPrefixes_def)

function merge_all :: "netprefix list \<Rightarrow> netprefix list" where
  "merge_all kept =
     (if snd (mergeOnce kept) then merge_all (fst (mergeOnce kept)) else fst (mergeOnce kept))"
  by pat_completeness auto
termination
  by (relation "measure length") (simp_all add: mergeOnce_length)

declare merge_all.simps [simp del]

definition Aggregate :: "netprefix list \<Rightarrow> netprefix list" where
  "Aggregate prefixes =
     merge_all (drop_covered [] (sortPrefixes (map masked (filter is_valid prefixes))))"

lemmas prefix_sort_key_simps = prefix_sort_key_def addr_key_def addr_num_val

lemma covers_all_sortPrefixes [simp]: "covers_all (sortPrefixes ps) = covers_all ps"
  by (rule covers_all_set) (simp add: sortPrefixes_def)

lemma set_sortPrefixes [simp]: "set (sortPrefixes ps) = set ps"
  by (simp add: sortPrefixes_def)

lemma disjoint_nets_sortPrefixes [simp]: "disjoint_nets (sortPrefixes ps) = disjoint_nets ps"
  by (simp add: disjoint_nets_def sortPrefixes_def)

subsection \<open>Dropping covered networks\<close>

lemma prefix_sort_key_inj:
  "masked_net p \<Longrightarrow> masked_net q \<Longrightarrow> prefix_sort_key p = prefix_sort_key q \<longleftrightarrow> p = q"
  using masked_net_eqI[of p q] unfolding prefix_sort_key_simps prod.inject of_nat_eq_iff by blast

text \<open>In sorted order no later network strictly contains an earlier one.\<close>

lemma subnet_sorted:
  assumes "masked_net p" "masked_net q" "subnet p q" "prefix_sort_key q \<le> prefix_sort_key p"
  shows "subnet q p"
proof -
  from assms have w: "bit_len (pfx_addr p) = bit_len (pfx_addr q)" and v: "is_valid p" "is_valid q"
    and e: "addr_val (pfx_addr p) div 2 ^ host_bits p = addr_val (pfx_addr q) div 2 ^ host_bits p"
    by (auto simp: subnet_def contains_iff masked_net_def)
  have "addr_val (pfx_addr p) \<le> addr_val (pfx_addr q)"
    using masked_net_val[OF assms(1)] e by (metis div_times_less_eq_dividend)
  moreover have "is4 (pfx_addr p) = is4 (pfx_addr q)" using w by (simp add: is4_iff)
  ultimately have "addr_val (pfx_addr p) = addr_val (pfx_addr q)" "pfx_bits q \<le> pfx_bits p"
    using assms(4) w masked_net_zone[OF assms(1)] masked_net_zone[OF assms(2)]
    by (auto simp: prefix_sort_key_simps)
  with w v show ?thesis by (simp add: subnet_def contains_iff is_valid_def)
qed

lemma subnet_bex: "list_ex (\<lambda>q. pfx_bits q \<le> pfx_bits p \<and> contains q (pfx_addr p)) qs \<longleftrightarrow> (\<exists>q \<in> set qs. subnet q p)"
  by (simp add: list_ex_iff subnet_def)

lemma drop_covered_spec:
  assumes "nets_ok (kept @ ps)" and "sorted (map prefix_sort_key (kept @ ps))" and "disjoint_nets kept"
  shows "nets_ok (drop_covered kept ps) \<and> disjoint_nets (drop_covered kept ps)
     \<and> covers_all (drop_covered kept ps) = covers_all (kept @ ps)"
  using assms
proof (induction ps arbitrary: kept)
  case Nil
  then show ?case by simp
next
  case (Cons p ps)
  show ?case
  proof (cases "\<exists>q \<in> set kept. subnet q p")
    case True
    have "covers p \<subseteq> covers_all kept"
      using True Cons.prems(1) subnet_covers by (fastforce simp: covers_all_def masked_net_def)
    moreover have "sorted (map prefix_sort_key (kept @ ps))"
      using Cons.prems(2) by (auto simp: sorted_append)
    ultimately have "nets_ok (drop_covered kept ps) \<and> disjoint_nets (drop_covered kept ps)
        \<and> covers_all (drop_covered kept ps) = covers_all (kept @ p # ps)"
      using Cons.IH[of kept] Cons.prems(1,3) by auto
    moreover have "drop_covered kept (p # ps) = drop_covered kept ps"
      using True by (simp add: subnet_bex)
    ultimately show ?thesis by simp
  next
    case False
    have "covers p \<inter> covers q = {}" if q: "q \<in> set kept" for q
    proof (rule ccontr)
      assume "covers p \<inter> covers q \<noteq> {}"
      then obtain a where a: "a \<in> covers p" "a \<in> covers q" by blast
      have ok: "masked_net p" "masked_net q" using Cons.prems(1) q by auto
      have le: "prefix_sort_key q \<le> prefix_sort_key p"
        using Cons.prems(2) q by (auto simp: sorted_append)
      have "subnet q p"
        using overlap_subnet[OF a] overlap_subnet[OF a(2,1)] subnet_sorted[OF ok _ le] by linarith
      with False q show False by blast
    qed
    then have "disjoint_nets (kept @ [p])"
      using Cons.prems by (subst disjoint_nets_snoc) (auto simp: covers_all_def)
    moreover have "drop_covered kept (p # ps) = drop_covered (kept @ [p]) ps"
      using False by (simp add: subnet_bex)
    ultimately show ?thesis
      using Cons.IH[of "kept @ [p]"] Cons.prems(1,2) by simp
  qed
qed

subsection \<open>Merging complete pairs\<close>

lemma complete_pair_parent:
  assumes "complete_pair p q" "masked_net p" "masked_net q"
  shows "masked_net (parent_of p)" "covers (parent_of p) = covers p \<union> covers q"
    "pfx_bits (parent_of p) = pfx_bits p - 1"
proof -
  let ?h = "host_bits p" and ?r = "prefix_from (pfx_addr p) (pfx_bits p - 1)"
  have b: "pfx_bits p > 0" "pfx_bits q = pfx_bits p" and ne: "pfx_addr p \<noteq> pfx_addr q"
    and cq: "contains ?r (pfx_addr q)"
    using assms(1) by (auto simp: complete_pair_def parent_of_def)
  have vr: "is_valid ?r" using cq by (simp add: contains_iff)
  have ar: "pfx_addr ?r = pfx_addr p"
    using assms(2) by (cases "pfx_addr p") (auto simp: prefix_from_def masked_net_def is_valid_def)
  have br: "pfx_bits ?r = pfx_bits p - 1" using vr by (auto simp: prefix_from_def is_valid_def split: if_splits)
  have hr: "host_bits ?r = Suc ?h"
    using ar br b(1) assms(2) by (simp add: host_bits_def masked_net_def is_valid_def) linarith
  have w: "bit_len (pfx_addr q) = bit_len (pfx_addr p)" using cq ar by (simp add: contains_iff)
  have hq: "host_bits q = ?h" using w b(2) by (simp add: host_bits_def)
  show "masked_net (parent_of p)" using vr by (simp add: parent_of_def)
  show "pfx_bits (parent_of p) = pfx_bits p - 1" using vr br by (simp add: parent_of_def pfx_bits_masked)
  let ?np = "addr_val (pfx_addr p) div 2 ^ ?h" and ?nq = "addr_val (pfx_addr q) div 2 ^ ?h"
  have half: "?np div 2 = ?nq div 2"
    using cq ar hr by (simp only: contains_iff div_power_Suc)
  have dif: "?np \<noteq> ?nq"
  proof
    assume e: "?np = ?nq"
    have "addr_val (pfx_addr p) = ?np * 2 ^ ?h" using masked_net_val[OF assms(2)] by (rule sym)
    also have "\<dots> = addr_val (pfx_addr q)" unfolding e using masked_net_val[OF assms(3)] unfolding hq .
    finally show False
      using ne addr_eqI[OF w[symmetric]] masked_net_zone[OF assms(2)] masked_net_zone[OF assms(3)] by simp
  qed
  have key: "x div 2 = ?np div 2 \<longleftrightarrow> x = ?np \<or> x = ?nq" for x
    using half_cases[OF half dif] .
  show "covers (parent_of p) = covers p \<union> covers q"
  proof (intro set_eqI)
    fix a
    have "a \<in> covers (parent_of p) \<longleftrightarrow> contains ?r a"
      by (simp add: parent_of_def covers_def)
    also have "\<dots> \<longleftrightarrow> addr_zone a = [] \<and> bit_len (pfx_addr p) = bit_len a
        \<and> ?np div 2 = addr_val a div 2 ^ ?h div 2"
      using vr ar hr by (simp only: contains_iff div_power_Suc simp_thms)
    also have "\<dots> \<longleftrightarrow> a \<in> covers p \<union> covers q"
    proof -
      have "a \<in> covers p \<longleftrightarrow> addr_zone a = [] \<and> bit_len (pfx_addr p) = bit_len a \<and> addr_val a div 2 ^ ?h = ?np"
        using assms(2) unfolding covers_def mem_Collect_eq contains_iff masked_net_def by metis
      moreover have "a \<in> covers q \<longleftrightarrow> addr_zone a = [] \<and> bit_len (pfx_addr p) = bit_len a \<and> addr_val a div 2 ^ ?h = ?nq"
        using assms(3) w hq unfolding covers_def mem_Collect_eq contains_iff masked_net_def by metis
      ultimately show ?thesis
        unfolding Un_iff key[of "addr_val a div 2 ^ ?h", symmetric] using key[of "addr_val a div 2 ^ ?h"] by metis
    qed
    finally show "a \<in> covers (parent_of p) \<longleftrightarrow> a \<in> covers p \<union> covers q" .
  qed
qed

lemma merge_walk_spec:
  assumes "nets_ok ps" and "disjoint_nets ps"
  shows "nets_ok (fst (merge_walk ps)) \<and> disjoint_nets (fst (merge_walk ps))
     \<and> covers_all (fst (merge_walk ps)) = covers_all ps"
  using assms
proof (induction ps rule: merge_walk.induct)
  case (3 p q rest)
  have ok: "masked_net p" "masked_net q" "nets_ok rest" using "3.prems" by auto
  have dis: "covers p \<inter> covers_all rest = {}" "covers q \<inter> covers_all rest = {}"
    "covers p \<inter> covers q = {}" "disjoint_nets rest" "disjoint_nets (q # rest)"
    using "3.prems" ok by (auto simp: disjoint_nets_Cons)
  show ?case
  proof (cases "complete_pair p q")
    case True
    from complete_pair_parent[OF True ok(1,2)] "3.IH"(1)[OF True ok(3) dis(4)] dis True
    show ?thesis by (auto simp: disjoint_nets_Cons)
  next
    case False
    with "3.IH"(2)[OF False] ok dis show ?thesis by (auto simp: disjoint_nets_Cons)
  qed
qed simp_all

lemma mergeOnce_spec:
  "nets_ok ps \<Longrightarrow> disjoint_nets ps \<Longrightarrow> nets_ok (fst (mergeOnce ps)) \<and> disjoint_nets (fst (mergeOnce ps))
     \<and> covers_all (fst (mergeOnce ps)) = covers_all ps"
  using merge_walk_spec[of "sortPrefixes ps"] by (simp add: mergeOnce_def)

lemma merge_all_spec:
  assumes "nets_ok ps" and "disjoint_nets ps"
  shows "nets_ok (merge_all ps) \<and> disjoint_nets (merge_all ps) \<and> covers_all (merge_all ps) = covers_all ps"
  using assms
proof (induction ps rule: merge_all.induct)
  case (1 ps)
  note m = mergeOnce_spec[OF "1.prems"]
  show ?case
  proof (cases "snd (mergeOnce ps)")
    case True
    then have e: "merge_all ps = merge_all (fst (mergeOnce ps))" by (subst merge_all.simps) simp
    from "1.IH"[OF True] m show ?thesis unfolding e by metis
  next
    case False
    then have e: "merge_all ps = fst (mergeOnce ps)" by (subst merge_all.simps) simp
    from m show ?thesis unfolding e .
  qed
qed

lemma Aggregate_spec:
  "nets_ok (Aggregate ps) \<and> disjoint_nets (Aggregate ps) \<and> covers_all (Aggregate ps) = covers_all ps"
proof -
  let ?n = "sortPrefixes (map masked (filter is_valid ps))"
  have ok: "nets_ok ?n" by auto
  have srt: "sorted (map prefix_sort_key ?n)" by (simp add: sortPrefixes_def)
  note d = drop_covered_spec[of "[]" ?n, unfolded append_Nil, OF ok srt disjoint_nets_Nil]
  have "covers_all ?n = covers_all (filter is_valid ps)"
    by (simp add: covers_all_def)
  also have "\<dots> = covers_all ps"
    by (induction ps) (simp_all add: covers_invalid)
  finally have "covers_all ?n = covers_all ps" .
  with d merge_all_spec[of "drop_covered [] ?n"] show ?thesis by (simp add: Aggregate_def)
qed

section \<open>Canonical form\<close>

lemma parent_of_net:
  assumes "masked_net p" and "pfx_bits p > 0"
  shows "masked_net (parent_of p)" "pfx_bits (parent_of p) = pfx_bits p - 1" "covers p \<subseteq> covers (parent_of p)"
proof -
  let ?r = "prefix_from (pfx_addr p) (pfx_bits p - 1)"
  have v: "is_valid p" using assms(1) by blast
  have r: "?r = NetPrefix (pfx_addr p) (pfx_bits p - 1)"
    using v assms(2) by (intro pfx_from_simps) (auto simp: is_valid_def)
  have vr: "is_valid ?r" unfolding r using v assms(2) by (auto simp: is_valid_def)
  have "subnet ?r p"
    using vr self_contained[OF vr] by (simp add: subnet_def r)
  then show "covers p \<subseteq> covers (parent_of p)" using subnet_covers v by (simp add: parent_of_def)
  show "masked_net (parent_of p)" using vr by (simp add: parent_of_def)
  show "pfx_bits (parent_of p) = pfx_bits p - 1" using vr by (simp add: parent_of_def pfx_bits_masked) (simp add: r)
qed

lemma same_bits_eq:
  assumes "masked_net p" "masked_net q" "pfx_bits p = pfx_bits q" "a \<in> covers p" "a \<in> covers q"
  shows "p = q"
proof -
  have "subnet p q" "subnet q p" using overlap_subnet assms(3-5) by simp_all
  then have "covers p = covers q" using assms(1,2) by (simp add: set_eq_subset subnet_covers masked_net_valid)
  then show ?thesis using assms(1,2) by (simp add: masked_net_covers_inject)
qed

lemma complete_pair_iff:
  assumes "masked_net p" and "masked_net q"
  shows "complete_pair p q \<longleftrightarrow> pfx_bits p > 0 \<and> pfx_bits p = pfx_bits q \<and> p \<noteq> q \<and> parent_of p = parent_of q"
proof
  assume c: "complete_pair p q"
  then have b: "pfx_bits p > 0" "pfx_bits p = pfx_bits q" "pfx_addr p \<noteq> pfx_addr q"
    by (simp_all add: complete_pair_def)
  have cov: "covers (parent_of p) = covers p \<union> covers q" using complete_pair_parent(2)[OF c assms] .
  obtain a where "a \<in> covers q" using masked_net_covers_nonempty[OF assms(2)] by blast
  then have "parent_of p = parent_of q"
    using parent_of_net[OF assms(1)] parent_of_net[OF assms(2)] b cov
    by (intro same_bits_eq[of "parent_of p" "parent_of q" a]) auto
  with b show "pfx_bits p > 0 \<and> pfx_bits p = pfx_bits q \<and> p \<noteq> q \<and> parent_of p = parent_of q" by auto
next
  assume c: "pfx_bits p > 0 \<and> pfx_bits p = pfx_bits q \<and> p \<noteq> q \<and> parent_of p = parent_of q"
  have "pfx_addr p \<in> covers p" "pfx_addr q \<in> covers q"
    using assms self_contained by (auto simp: covers_def)
  then have "contains (parent_of p) (pfx_addr p)" "contains (parent_of p) (pfx_addr q)"
    using parent_of_net(3)[OF assms(1)] parent_of_net(3)[OF assms(2)] c by (auto simp: covers_def)
  moreover have "pfx_addr p \<noteq> pfx_addr q" using c by (auto simp: netprefix.expand)
  ultimately show "complete_pair p q" using c by (simp add: complete_pair_def)
qed

lemma complete_pair_halves:
  assumes "masked_net r" and "host_bits r > 0" and e: "halves r = (lo, hi)"
  shows "complete_pair lo hi"
proof -
  have v: "is_valid r" using assms(1) by blast
  from assms(2) obtain k where k: "host_bits r = Suc k" using gr0_implies_Suc by blast
  note n = halves_nets[OF v k e] and c = halves_covers[OF v k e]
  have b: "pfx_bits lo > 0" "pfx_bits hi > 0" using n(3,4) v by (auto simp: is_valid_def)
  have "parent_of x = r" if x: "masked_net x" "pfx_bits x > 0" "pfx_bits x = pfx_bits r + 1" "covers x \<subseteq> covers r" for x
  proof -
    obtain a where "a \<in> covers x" using masked_net_covers_nonempty[OF x(1)] by blast
    with x parent_of_net[OF x(1,2)] assms(1) show ?thesis
      by (intro same_bits_eq[of "parent_of x" r a]) auto
  qed
  then have "parent_of lo = r" "parent_of hi = r" using n b c by auto
  moreover have "lo \<noteq> hi" using c(2) masked_net_covers_nonempty[OF n(1)] by auto
  ultimately show ?thesis using n b by (simp add: complete_pair_iff)
qed

definition sibling_free :: "netprefix list \<Rightarrow> bool" where
  "sibling_free ps \<longleftrightarrow> (\<forall>p \<in> set ps. \<forall>q \<in> set ps. \<not> complete_pair p q)"

text \<open>
  A network inside the union of a list without a complete pair lies inside one of its networks.
\<close>

lemma sibling_free_covers:
  assumes "nets_ok S" and "sibling_free S" and "is_valid r" and "covers r \<subseteq> covers_all S"
  shows "\<exists>s \<in> set S. covers r \<subseteq> covers s"
  using assms(3,4)
proof (induction r rule: halving_induct)
  case (single p)
  then show ?case using host_bits_0_covers[of p] by (auto simp: covers_all_def)
next
  case (split p lo hi)
  from split(2) obtain k where k: "host_bits p = Suc k" using gr0_implies_Suc by blast
  note n = halves_nets[OF split(1) k split(3)] and c = halves_covers[OF split(1) k split(3)]
  obtain s0 s1 where s: "s0 \<in> set S" "covers lo \<subseteq> covers s0" "s1 \<in> set S" "covers hi \<subseteq> covers s1"
    using split c(1) by auto
  have up: "covers p \<subseteq> covers s"
    if x: "masked_net x" "pfx_bits x = pfx_bits p + 1" "covers x \<subseteq> covers p"
      and y: "s \<in> set S" "covers x \<subseteq> covers s" "s \<noteq> x" for x s
  proof -
    have vs: "masked_net s" using assms(1) y(1) by blast
    obtain a where a: "a \<in> covers x" using masked_net_covers_nonempty[OF x(1)] by blast
    have "pfx_bits s \<le> pfx_bits x"
      using covers_subset_iff[of x s] x(1) vs y(2) by (auto simp: subnet_def)
    moreover have "pfx_bits s \<noteq> pfx_bits x" using same_bits_eq[OF vs x(1)] a y by blast
    ultimately have "subnet s p" using overlap_subnet[of a p s] a x y by auto
    then show ?thesis using subnet_covers split(1) by blast
  qed
  show ?case
  proof (cases "s0 = lo \<and> s1 = hi")
    case True
    have "complete_pair lo hi"
      using complete_pair_halves[of "masked p" lo hi] split(1-3)
      by (simp add: host_bits_masked halves_def pfx_bits_masked Let_def)
    with True s assms(2) show ?thesis by (auto simp: sibling_free_def)
  next
    case False
    then show ?thesis using up[of lo s0] up[of hi s1] n c s by blast
  qed
qed

lemma merge_walk_unchanged:
  "\<not> snd (merge_walk ps) \<Longrightarrow> fst (merge_walk ps) = ps \<and> successively (\<lambda>p q. \<not> complete_pair p q) ps"
  by (induction ps rule: merge_walk.induct) (auto split: if_splits)

lemma complete_pair_sym:
  "masked_net p \<Longrightarrow> masked_net q \<Longrightarrow> complete_pair p q \<Longrightarrow> complete_pair q p"
  by (auto simp: complete_pair_iff)

text \<open>What lies between the two halves of a network in sorted order overlaps one of them.\<close>

lemma complete_pair_between:
  assumes "masked_net p" "masked_net m" "masked_net q" "complete_pair p q"
    and "prefix_sort_key p \<le> prefix_sort_key m" "prefix_sort_key m \<le> prefix_sort_key q"
  shows "covers m \<inter> (covers p \<union> covers q) \<noteq> {}"
proof -
  note r = complete_pair_parent[OF assms(4,1,3)]
  have "pfx_addr p \<in> covers (parent_of p)" "pfx_addr q \<in> covers (parent_of p)"
    using assms(4) by (auto simp: complete_pair_def covers_def)
  then have i: "bit_len (pfx_addr p) = bit_len (pfx_addr q)"
    "bit_len (pfx_addr (parent_of p)) = bit_len (pfx_addr p)"
    "addr_val (pfx_addr p) div 2 ^ host_bits (parent_of p) = addr_val (pfx_addr q) div 2 ^ host_bits (parent_of p)"
    "addr_val (pfx_addr (parent_of p)) div 2 ^ host_bits (parent_of p) = addr_val (pfx_addr p) div 2 ^ host_bits (parent_of p)"
    using r(1) by (auto simp: in_covers_iff)
  have four: "is4 (pfx_addr p) = is4 (pfx_addr q)" using i by (simp add: is4_iff)
  have b: "bit_len (pfx_addr m) = bit_len (pfx_addr p)"
    using assms(5,6) i(1) four by (auto simp: prefix_sort_key_simps)
  then have "addr_val (pfx_addr p) \<le> addr_val (pfx_addr m)" "addr_val (pfx_addr m) \<le> addr_val (pfx_addr q)"
    using assms(5,6) i(1) four by (auto simp: prefix_sort_key_simps is4_iff)
  then have "addr_val (pfx_addr m) div 2 ^ host_bits (parent_of p) = addr_val (pfx_addr p) div 2 ^ host_bits (parent_of p)"
    using i(3) by (metis div_le_mono le_antisym)
  then have "pfx_addr m \<in> covers (parent_of p)"
    using i b assms(2) r(1) by (simp add: in_covers_iff masked_net_valid masked_net_zone)
  moreover have "pfx_addr m \<in> covers m"
    using assms(2) self_contained by (auto simp: covers_def)
  ultimately show ?thesis using r(2) by blast
qed

lemma successively_sibling_free:
  assumes "nets_ok ps" "disjoint_nets ps" "sorted (map prefix_sort_key ps)"
    "successively (\<lambda>p q. \<not> complete_pair p q) ps"
  shows "sibling_free ps"
  using assms
proof (induction ps rule: induct_list012)
  case (3 p m ps)
  have ok: "masked_net p" "masked_net m" "nets_ok ps" using "3.prems"(1) by auto
  have dis: "disjoint_nets (m # ps)" "covers p \<inter> covers m = {}" "covers m \<inter> covers_all ps = {}"
    using "3.prems"(2) ok by (auto simp: disjoint_nets_Cons)
  have tl: "sibling_free (m # ps)"
    using "3.IH"(2) "3.prems" dis by simp
  have no: "\<not> complete_pair p q" if q: "q \<in> set (m # ps)" for q
  proof
    assume c: "complete_pair p q"
    with "3.prems"(4) q have qps: "q \<in> set ps" by auto
    have "covers m \<inter> (covers p \<union> covers q) \<noteq> {}"
      using "3.prems"(3) ok qps c by (intro complete_pair_between) auto
    moreover have "covers m \<inter> covers q = {}" using dis(3) qps by (auto simp: covers_all_def)
    ultimately show False using dis(2) by blast
  qed
  moreover have "\<not> complete_pair p p" by (simp add: complete_pair_def)
  ultimately show ?case
    using tl ok complete_pair_sym[of _ p] by (auto simp: sibling_free_def)
qed (simp_all add: sibling_free_def complete_pair_def)

lemma merge_all_canonical:
  assumes "nets_ok ps" and "disjoint_nets ps"
  shows "sorted (map prefix_sort_key (merge_all ps)) \<and> sibling_free (merge_all ps)"
  using assms
proof (induction ps rule: merge_all.induct)
  case (1 ps)
  note m = mergeOnce_spec[OF "1.prems"]
  show ?case
  proof (cases "snd (mergeOnce ps)")
    case True
    then show ?thesis using "1.IH" m by (subst (1 2) merge_all.simps) simp
  next
    case False
    let ?s = "sortPrefixes ps"
    have u: "fst (mergeOnce ps) = ?s" "successively (\<lambda>p q. \<not> complete_pair p q) ?s"
      using merge_walk_unchanged[of ?s] False by (simp_all add: mergeOnce_def)
    have e: "merge_all ps = ?s" using False u(1) by (subst merge_all.simps) simp
    have "sorted (map prefix_sort_key ?s)" by (simp add: sortPrefixes_def)
    then show ?thesis
      unfolding e using successively_sibling_free[of ?s] "1.prems" u(2) by simp
  qed
qed

lemma Aggregate_canonical:
  "sorted (map prefix_sort_key (Aggregate ps)) \<and> sibling_free (Aggregate ps)"
  unfolding Aggregate_def
  using drop_covered_spec[of "[]" "sortPrefixes (map masked (filter is_valid ps))"]
  by (intro merge_all_canonical) (auto simp: sortPrefixes_def)

lemma Aggregate_maximal:
  assumes "is_valid r" and "covers r \<subseteq> covers_all ps"
  shows "\<exists>s \<in> set (Aggregate ps). covers r \<subseteq> covers s"
  using Aggregate_spec[of ps] Aggregate_canonical[of ps] assms by (intro sibling_free_covers) auto

text \<open>Two canonical lists with the same coverage are equal.\<close>

lemma canonical_subset:
  assumes "nets_ok ps" "disjoint_nets ps" "sibling_free ps" "nets_ok qs" "disjoint_nets qs" "sibling_free qs"
    and "covers_all ps = covers_all qs"
  shows "set ps \<subseteq> set qs"
proof
  fix p assume p: "p \<in> set ps"
  then have ok: "masked_net p" using assms by blast
  have "covers p \<subseteq> covers_all qs" using p assms(7) by (auto simp: covers_all_def)
  then obtain q where q: "q \<in> set qs" "covers p \<subseteq> covers q"
    using sibling_free_covers[OF assms(4,6)] ok by blast
  then have mq: "masked_net q" using assms(4) by blast
  have "covers q \<subseteq> covers_all ps" using q assms(7) by (auto simp: covers_all_def)
  then obtain p' where p': "p' \<in> set ps" "covers q \<subseteq> covers p'"
    using sibling_free_covers[OF assms(1,3)] mq by blast
  have "p = p'"
    using assms(2) p p' q masked_net_covers_nonempty[OF ok] unfolding disjoint_nets_def by blast
  then have "covers p = covers q" using q p' by blast
  then show "p \<in> set qs" using q(1) ok mq by (simp add: masked_net_covers_inject)
qed

lemma Aggregate_unique:
  assumes "nets_ok qs" "disjoint_nets qs" "sibling_free qs" "sorted (map prefix_sort_key qs)"
    and "covers_all qs = covers_all ps"
  shows "Aggregate ps = qs"
proof -
  note a = Aggregate_spec[of ps] and c = Aggregate_canonical[of ps]
  have st: "set (Aggregate ps) = set qs"
    using canonical_subset[of "Aggregate ps" qs] canonical_subset[of qs "Aggregate ps"] a c assms by blast
  have d: "distinct (map prefix_sort_key xs)" if "nets_ok xs" "disjoint_nets xs" for xs
    using that by (auto simp: distinct_map disjoint_nets_def inj_on_def prefix_sort_key_inj)
  have "sort_key prefix_sort_key (Aggregate ps) = sort_key prefix_sort_key qs"
    using st a assms by (intro sort_key_unique d) auto
  then show ?thesis using c assms(4) by (simp add: sort_key_id_if_sorted)
qed

section \<open>Membership\<close>

definition within :: "netprefix \<Rightarrow> netprefix list \<Rightarrow> bool" where
  "within pfx aggregated =
     list_ex (\<lambda>a. pfx_bits a \<le> pfx_bits pfx \<and> contains a (pfx_addr pfx)) aggregated"

lemma within_subnet: "within p ps \<longleftrightarrow> (\<exists>q \<in> set ps. subnet q p)"
  by (simp add: within_def subnet_bex)

lemma within_covers: "is_valid p \<Longrightarrow> within p ps \<Longrightarrow> covers p \<subseteq> covers_all ps"
  using subnet_covers by (fastforce simp: within_subnet covers_all_def)

section \<open>The interface the clients rely on\<close>

locale aggregator =
  fixes agg :: "netprefix list \<Rightarrow> netprefix list"
  assumes agg_covers: "covers_all (agg ps) = covers_all ps"
    and agg_nets: "nets_ok (agg ps)"
    and agg_disjoint: "disjoint_nets (agg ps)"
    and agg_maximal: "is_valid r \<Longrightarrow> covers r \<subseteq> covers_all ps \<Longrightarrow> \<exists>s \<in> set (agg ps). covers r \<subseteq> covers s"
begin

lemma agg_within_iff:
  assumes "is_valid p"
  shows "within p (agg ps) \<longleftrightarrow> covers p \<subseteq> covers_all ps"
proof
  assume "within p (agg ps)"
  then show "covers p \<subseteq> covers_all ps" using within_covers[OF assms] agg_covers by blast
next
  assume "covers p \<subseteq> covers_all ps"
  then obtain s where s: "s \<in> set (agg ps)" "covers p \<subseteq> covers s"
    using agg_maximal assms by blast
  then show "within p (agg ps)"
    using agg_nets[of ps] assms covers_subset_iff[of p s] unfolding within_subnet by blast
qed

lemma agg_minimal:
  assumes "covers_all qs = covers_all ps"
  shows "length (agg ps) \<le> length qs"
proof -
  have dis: "s = t" if "s \<in> set (agg ps)" "t \<in> set (agg ps)" "x \<in> covers s" "x \<in> covers t" for s t x
    using agg_disjoint[of ps] that unfolding disjoint_nets_def by blast
  define f where "f q = (SOME s. s \<in> set (agg ps) \<and> covers q \<subseteq> covers s)" for q
  have "set (agg ps) \<subseteq> f ` set qs"
  proof
    fix s assume s: "s \<in> set (agg ps)"
    obtain x where x: "x \<in> covers s" using agg_nets[of ps] s masked_net_covers_nonempty[of s] by blast
    then have "x \<in> covers_all qs" using agg_covers[of ps] s assms by (auto simp: covers_all_def)
    then obtain q where q: "q \<in> set qs" "x \<in> covers q" by (auto simp: covers_all_def)
    have "covers q \<subseteq> covers_all ps" using q assms by (auto simp: covers_all_def)
    then have "\<exists>s. s \<in> set (agg ps) \<and> covers q \<subseteq> covers s"
      using agg_maximal[of q ps] q(2) covers_invalid by blast
    then have "f q \<in> set (agg ps) \<and> covers q \<subseteq> covers (f q)"
      unfolding f_def by (rule someI_ex)
    then have "s = f q" using dis s x q(2) by blast
    then show "s \<in> f ` set qs" using q(1) by blast
  qed
  then have "card (set (agg ps)) \<le> card (set qs)"
    by (meson List.finite_set card_image_le card_mono finite_imageI le_trans)
  then show ?thesis
    using agg_disjoint[of ps] distinct_card[of "agg ps"] card_length[of qs] by (simp add: disjoint_nets_def)
qed

end

interpretation agg: aggregator Aggregate
  using Aggregate_spec Aggregate_maximal by unfold_locales blast+

section \<open>Properties\<close>

text \<open>
  C1.  Aggregation never adds or loses an address: the aggregated networks are valid masked
  networks, pairwise disjoint, and together cover exactly the addresses the valid input prefixes cover.
\<close>

theorem Aggregate_exact:
  "covers_all (Aggregate ps) = covers_all ps \<and> list_all masked_net (Aggregate ps)
     \<and> disjoint_nets (Aggregate ps)"
  using Aggregate_spec[of ps] by (simp add: list_all_iff)

text \<open>
  C2.  The aggregated list is minimal: no list of prefixes with the same coverage is shorter.
\<close>

theorem Aggregate_minimal:
  assumes "covers_all qs = covers_all ps"
  shows "length (Aggregate ps) \<le> length qs"
  using assms by (rule agg.agg_minimal)

text \<open>The two halves of 10.0.0.0/8, one of them given twice, against the list given the other way round.\<close>

theorem Aggregate_minimal_witness:
  "let lo = NetPrefix (Addr4 0x0A000000) 9; hi = NetPrefix (Addr4 0x0A800000) 9
   in covers_all [hi, lo] = covers_all [lo, hi, lo] \<and> length (Aggregate [lo, hi, lo]) \<le> length [hi, lo]"
proof -
  let ?lo = "NetPrefix (Addr4 0x0A000000) 9" and ?hi = "NetPrefix (Addr4 0x0A800000) 9"
  have c: "covers_all [?hi, ?lo] = covers_all [?lo, ?hi, ?lo]" by auto
  from c Aggregate_minimal[OF c] show ?thesis by (simp add: Let_def)
qed

text \<open>
  C3.  The aggregated list is a canonical form: two prefix lists aggregate to the same list
  exactly when they cover the same addresses.
\<close>

theorem Aggregate_eq_iff: "Aggregate ps = Aggregate qs \<longleftrightarrow> covers_all ps = covers_all qs"
proof
  assume "Aggregate ps = Aggregate qs"
  then show "covers_all ps = covers_all qs" using Aggregate_spec by metis
next
  assume "covers_all ps = covers_all qs"
  then show "Aggregate ps = Aggregate qs"
    using Aggregate_spec[of qs] Aggregate_canonical[of qs] by (intro Aggregate_unique) auto
qed

text \<open>
  C4.  A prefix passes the \<^verbatim>\<open>within\<close> test against an aggregated list exactly when every address
  of it is covered by the list that was aggregated.
\<close>

theorem within_Aggregate_iff:
  assumes "is_valid p"
  shows "within p (Aggregate ps) \<longleftrightarrow> covers p \<subseteq> covers_all ps"
  using assms by (rule agg.agg_within_iff)

text \<open>10.0.0.0/8 lies within its two halves, though in neither of them.\<close>

theorem within_Aggregate_iff_witness:
  "let p = NetPrefix (Addr4 0x0A000000) 8;
       ps = [NetPrefix (Addr4 0x0A800000) 9, NetPrefix (Addr4 0x0A000000) 9]
   in is_valid p \<and> \<not> within p ps \<and> within p (Aggregate ps) \<and> covers p \<subseteq> covers_all ps"
proof -
  let ?p = "NetPrefix (Addr4 0x0A000000) 8"
    and ?ps = "[NetPrefix (Addr4 0x0A800000) 9, NetPrefix (Addr4 0x0A000000) 9]"
  have v: "is_valid ?p" by code_simp
  have n: "\<not> within ?p ?ps" and w: "within ?p (Aggregate ?ps)" by code_simp+
  have "covers ?p \<subseteq> covers_all ?ps" using within_Aggregate_iff[OF v, of ?ps] w by blast
  with v n w show ?thesis by (simp add: Let_def)
qed

end
