(* ===== verification/Keys.thy ===== *)
theory Keys
  imports Domain Aggregate
begin

text \<open>
  The input of the desired-state builder and the keys and helpers of
  \<^verbatim>\<open>internal/routing/engine.go\<close> and \<^verbatim>\<open>internal/routing/tunnels.go\<close> that identify routes and
  rules, turn profile entries into prefixes and pick gateways.

  Go maps that are only looked up are functions (\<open>in_Lists\<close>, \<open>in_Domains\<close>); \<open>in_Occupied\<close>,
  which is also iterated, is an association list with distinct keys.
\<close>

section \<open>Inputs of the builder\<close>

record tunnel_input =
  ti_Name :: string
  ti_Iface :: string
  ti_V6 :: bool
  ti_Block :: bool
  ti_Routes :: "string list"
  ti_Bypass :: "addr list"
  ti_Servers :: "addr list"

record desired_input =
  in_Profiles :: "profile list"
  in_GatewayV4 :: addr
  in_GatewayV6 :: addr
  in_PhysIfaceV4 :: string
  in_PhysIfaceV6 :: string
  in_PhysNetV4 :: netprefix
  in_PhysNetV6 :: netprefix
  in_VPNGatewayV4 :: addr
  in_VPNGatewayV6 :: addr
  in_VPNIfaceV4 :: string
  in_VPNIfaceV6 :: string
  in_Lists :: "string \<Rightarrow> string list"
  in_Domains :: "string \<Rightarrow> string list"
  in_Tunnels :: "tunnel_input list"
  in_Occupied :: "(string \<times> string) list"
  in_DNSServers :: "addr list"
  in_Anchors :: "addr list"
  in_Tailscale :: "netprefix list"
  in_TailscaleTable :: string
  in_TailscaleExitNode :: bool
  in_Platform :: string
  in_PolicyRouting :: bool
  in_Now :: time

definition input0 :: desired_input where
  "input0 = \<lparr>in_Profiles = [], in_GatewayV4 = AddrZero, in_GatewayV6 = AddrZero, in_PhysIfaceV4 = [],
     in_PhysIfaceV6 = [], in_PhysNetV4 = prefix_zero, in_PhysNetV6 = prefix_zero, in_VPNGatewayV4 = AddrZero,
     in_VPNGatewayV6 = AddrZero, in_VPNIfaceV4 = [], in_VPNIfaceV6 = [], in_Lists = (\<lambda>_. []),
     in_Domains = (\<lambda>_. []), in_Tunnels = [], in_Occupied = [], in_DNSServers = [], in_Anchors = [],
     in_Tailscale = [], in_TailscaleTable = [], in_TailscaleExitNode = False, in_Platform = [],
     in_PolicyRouting = False, in_Now = 0\<rparr>"

abbreviation ModelBTable :: string where "ModelBTable \<equiv> ''5252''"
abbreviation ModelBRulePrio :: int where "ModelBRulePrio \<equiv> 5252"
abbreviation ModelBMark :: string where "ModelBMark \<equiv> ''0x5252''"
abbreviation TailscaleRulePrio :: int where "TailscaleRulePrio \<equiv> 5251"
abbreviation tailscaleTag :: string where "tailscaleTag \<equiv> ''tailscale''"
abbreviation BypassTable :: string where "BypassTable \<equiv> ''5253''"
abbreviation BypassRulePrio :: int where "BypassRulePrio \<equiv> 5260"
abbreviation modelBProfileTag :: string where "modelBProfileTag \<equiv> ''model-b''"
abbreviation TunnelProfilePrefix :: string where "TunnelProfilePrefix \<equiv> ''tunnel:''"

section \<open>Keys and helpers\<close>

definition RouteKey :: "route \<Rightarrow> string" where
  "RouteKey r =
     (let k = rt_Family r @ ''|'' @ rt_Table r @ ''|'' @ rt_DstCIDR r @ ''|'' @ rt_Gateway r @ ''|'' @ rt_Iface r
      in if rt_Reject r then k @ ''|reject'' else k)"

definition loopbackFor :: "route \<Rightarrow> string" where
  "loopbackFor r = (if rt_Family r = FamilyV6 then ''::1'' else ''127.0.0.1'')"

definition dstKey :: "route \<Rightarrow> string" where
  "dstKey r = rt_Family r @ ''|'' @ rt_Table r @ ''|'' @ rt_DstCIDR r"

definition RuleKey :: "policy_rule \<Rightarrow> string" where
  "RuleKey r =
     (let k = itoa (pr_Priority r) @ ''|'' @ pr_Selector r @ ''|'' @ pr_Table r @ ''|'' @ pr_Family r
      in if pr_RouteToIface r \<noteq> [] then k @ ''|'' @ pr_RouteToIface r @ ''|'' @ pr_RouteToGW r else k)"

text \<open>A map built by a loop of assignments: the last element with a key is kept.\<close>

definition indexRoutes :: "managed_route list \<Rightarrow> string \<rightharpoonup> managed_route" where
  "indexRoutes rs = map_of (rev (map (\<lambda>r. (RouteKey (mr_Route r), r)) rs))"

definition indexRules :: "managed_rule list \<Rightarrow> string \<rightharpoonup> managed_rule" where
  "indexRules rs = map_of (rev (map (\<lambda>r. (RuleKey (ml_Rule r), r)) rs))"

definition famOf :: "addr \<Rightarrow> family" where
  "famOf a = (if is6 a then FamilyV6 else FamilyV4)"

definition ruleToPrefix :: "profile_rule \<Rightarrow> (netprefix \<times> family) option" where
  "ruleToPrefix r =
     (if ru_Type r = RuleCIDR then map_option (\<lambda>p. (p, famOf (pfx_addr p))) (parse_prefix (ru_Value r))
      else if ru_Type r = RuleIP then map_option (\<lambda>a. (host_prefix a, famOf a)) (parse_addr (ru_Value r))
      else None)"

definition entryToPrefix :: "string \<Rightarrow> (netprefix \<times> family) option" where
  "entryToPrefix s =
     (case parse_prefix s of
        Some p \<Rightarrow> Some (p, famOf (pfx_addr p))
      | None \<Rightarrow> map_option (\<lambda>a. (host_prefix a, famOf a)) (parse_addr s))"

datatype gateway_error = NoPhysicalGateway family | InvalidGateway string | GatewayFamily string family

definition resolveGateway :: "string \<Rightarrow> family \<Rightarrow> desired_input \<Rightarrow> gateway_error + (addr \<times> string)" where
  "resolveGateway profileGW fam inp =
     (let (iface, auto) = (if fam = FamilyV6 then (in_PhysIfaceV6 inp, in_GatewayV6 inp)
                           else (in_PhysIfaceV4 inp, in_GatewayV4 inp))
      in if profileGW = [] \<or> profileGW = ''auto'' then
           if \<not> addr_valid auto then Inl (NoPhysicalGateway fam) else Inr (auto, iface)
         else (case parse_addr profileGW of
             None \<Rightarrow> Inl (InvalidGateway profileGW)
           | Some a \<Rightarrow> if famOf a \<noteq> fam then Inl (GatewayFamily profileGW fam) else Inr (a, iface)))"

definition vpnFor :: "family \<Rightarrow> desired_input \<Rightarrow> addr \<times> string" where
  "vpnFor fam inp =
     (if fam = FamilyV6 then (in_VPNGatewayV6 inp, in_VPNIfaceV6 inp) else (in_VPNGatewayV4 inp, in_VPNIfaceV4 inp))"

definition protoFor :: "string \<Rightarrow> string" where
  "protoFor platform = (if platform = ''linux'' then ''riftroute'' else [])"

definition isHostPrefix :: "route \<Rightarrow> bool" where
  "isHostPrefix r =
     (case parse_prefix (rt_DstCIDR r) of None \<Rightarrow> False | Some p \<Rightarrow> pfx_bits p = int (bit_len (pfx_addr p)))"

section \<open>Keys of kernel routes\<close>

text \<open>
  KAME embeds the scope of a link-local address in its second 16-bit group; \<open>clear_scope\<close> is
  the assignment that clears bytes 2 and 3 (it keeps the top 16 and the low 96 bits).
\<close>

fun clear_scope :: "addr \<Rightarrow> addr" where
  "clear_scope (Addr6 w z) = Addr6 (push_bit 112 (drop_bit 112 w) OR take_bit 96 w) []"
| "clear_scope a = a"

definition gatewayKey :: "string \<Rightarrow> string" where
  "gatewayKey s =
     (case parse_addr s of
        None \<Rightarrow> s
      | Some a \<Rightarrow>
          let a = with_zone (unmap a) []
          in addr_string (if is6 a \<and> is_link_local_unicast a then clear_scope a else a))"

definition SameGateway :: "string \<Rightarrow> string \<Rightarrow> bool" where
  "SameGateway a b \<longleftrightarrow> gatewayKey a = gatewayKey b"

definition maskedDstKey :: "route \<Rightarrow> string" where
  "maskedDstKey r =
     (case parse_prefix (rt_DstCIDR r) of
        Some p \<Rightarrow> dstKey (r\<lparr>rt_DstCIDR := prefix_string (masked p)\<rparr>)
      | None \<Rightarrow> dstKey r)"

definition prefixKey :: "netprefix \<Rightarrow> string" where
  "prefixKey p = famOf (pfx_addr p) @ ''||'' @ prefix_string (masked p)"

definition KernelKey :: "route \<Rightarrow> string" where
  "KernelKey r =
     (let k = maskedDstKey r @ ''|'' @ gatewayKey (rt_Gateway r) @ ''|'' @ rt_Iface r
      in if rt_Reject r then k @ ''|reject'' else k)"

section \<open>Facts about the helpers\<close>

lemma famOf_cases: "famOf a = FamilyV4 \<or> famOf a = FamilyV6"
  by (simp add: famOf_def)

lemma host_prefix_valid:
  assumes "a \<noteq> AddrZero"
  shows "is_valid (host_prefix a)" "masked (host_prefix a) = host_prefix a" "covers (host_prefix a) = {with_zone a []}"
    "famOf (pfx_addr (host_prefix a)) = famOf a" "pfx_addr (host_prefix a) = with_zone a []"
proof -
  have h: "host_prefix a = NetPrefix (with_zone a []) (int (bit_len a))"
    using assms by (simp add: host_prefix_def prefix_from_def)
  have z: "with_zone a [] \<noteq> AddrZero" "addr_zone (with_zone a []) = []" "bit_len (with_zone a []) = bit_len a"
    "is6 (with_zone a []) = is6 a"
    using assms by (cases a; simp)+
  show v: "is_valid (host_prefix a)" using h z by (simp add: is_valid_def)
  have hb: "host_bits (host_prefix a) = 0" using h z by (simp add: host_bits_def)
  show "masked (host_prefix a) = host_prefix a"
    using masked_netI[OF v] hb by (simp add: masked_net_def)
  show "covers (host_prefix a) = {with_zone a []}" using host_bits_0_covers[OF v hb] h by simp
  show "famOf (pfx_addr (host_prefix a)) = famOf a" "pfx_addr (host_prefix a) = with_zone a []"
    using h z by (simp_all add: famOf_def)
qed

lemma entryToPrefix_valid:
  "entryToPrefix s = Some (p, fam) \<Longrightarrow> is_valid p \<and> fam = famOf (pfx_addr p)"
  using parse_prefix_valid[of s] parse_addr_valid[of s] host_prefix_valid
  by (auto simp: entryToPrefix_def split: option.splits)

lemma ruleToPrefix_valid:
  "ruleToPrefix r = Some (p, fam) \<Longrightarrow> is_valid p \<and> fam = famOf (pfx_addr p)"
  using parse_prefix_valid[of "ru_Value r"] parse_addr_valid[of "ru_Value r"] host_prefix_valid
  by (auto simp: ruleToPrefix_def split: if_splits)

lemma famOf_masked [simp]: "is_valid p \<Longrightarrow> famOf (pfx_addr (masked p)) = famOf (pfx_addr p)"
  by (simp add: famOf_def is6_iff bit_len_masked)

lemma prefixKey_inject:
  assumes "is_valid p" and "is_valid q"
  shows "prefixKey p = prefixKey q \<longleftrightarrow> masked p = masked q"
proof
  assume "prefixKey p = prefixKey q"
  then have "prefix_string (masked p) = prefix_string (masked q)"
    using famOf_cases[of "pfx_addr p"] famOf_cases[of "pfx_addr q"] by (auto simp: prefixKey_def)
  then show "masked p = masked q" using assms by (simp add: prefix_string_inject)
next
  assume m: "masked p = masked q"
  then have "famOf (pfx_addr p) = famOf (pfx_addr q)" using assms famOf_masked by metis
  with m show "prefixKey p = prefixKey q" by (simp add: prefixKey_def)
qed

subsection \<open>Keys identify\<close>

definition bar_free :: "string \<Rightarrow> bool" where
  "bar_free s \<longleftrightarrow> CHR ''|'' \<notin> set s"

lemma split_on_join:
  "xs \<noteq> [] \<Longrightarrow> \<forall>x \<in> set xs. c \<notin> set x \<Longrightarrow> split_on c (join [c] xs) = xs"
  by (induction xs rule: induct_list012) (auto simp: split_on_no_sep split_on_append_sep)

definition route_bar_free :: "route \<Rightarrow> bool" where
  "route_bar_free r \<longleftrightarrow> list_all bar_free [rt_Family r, rt_Table r, rt_DstCIDR r, rt_Gateway r, rt_Iface r]"

definition same_route :: "route \<Rightarrow> route \<Rightarrow> bool" where
  "same_route r s \<longleftrightarrow> rt_Family r = rt_Family s \<and> rt_Table r = rt_Table s \<and> rt_DstCIDR r = rt_DstCIDR s
     \<and> rt_Gateway r = rt_Gateway s \<and> rt_Iface r = rt_Iface s \<and> rt_Reject r = rt_Reject s"

lemma RouteKey_split:
  assumes "route_bar_free r"
  shows "split_on CHR ''|'' (RouteKey r) =
    [rt_Family r, rt_Table r, rt_DstCIDR r, rt_Gateway r, rt_Iface r] @ (if rt_Reject r then [''reject''] else [])"
proof -
  have "RouteKey r = join [CHR ''|'']
      ([rt_Family r, rt_Table r, rt_DstCIDR r, rt_Gateway r, rt_Iface r] @ (if rt_Reject r then [''reject''] else []))"
    by (simp add: RouteKey_def Let_def)
  then show ?thesis
    using assms by (simp only:) (subst split_on_join, auto simp: route_bar_free_def bar_free_def)
qed

lemma RouteKey_same: "same_route r s \<Longrightarrow> RouteKey r = RouteKey s"
  by (simp add: same_route_def RouteKey_def)

lemma RouteKey_iff:
  assumes "route_bar_free r" and "route_bar_free s"
  shows "RouteKey r = RouteKey s \<longleftrightarrow> same_route r s"
proof
  assume "RouteKey r = RouteKey s"
  then have "split_on CHR ''|'' (RouteKey r) = split_on CHR ''|'' (RouteKey s)" by simp
  then show "same_route r s"
    unfolding RouteKey_split[OF assms(1)] RouteKey_split[OF assms(2)]
    by (auto simp: same_route_def split: if_splits)
qed (rule RouteKey_same)

text \<open>
  C9.  The key of a route identifies it: two routes (none of whose fields holds the separator) have
  the same key exactly when they agree in family, table, destination, gateway, interface and in
  being a refusal.
\<close>

theorem RouteKey_identifies:
  assumes "route_bar_free r" and "route_bar_free s"
  shows "RouteKey r = RouteKey s \<longleftrightarrow> same_route r s"
  using assms by (rule RouteKey_iff)

theorem RouteKey_identifies_witness:
  "let r = route0\<lparr>rt_DstCIDR := ''10.0.0.0/8'', rt_Family := FamilyV4\<rparr>
   in route_bar_free r \<and> route_bar_free (r\<lparr>rt_Reject := True\<rparr>) \<and> RouteKey r \<noteq> RouteKey (r\<lparr>rt_Reject := True\<rparr>)"
proof -
  let ?r = "route0\<lparr>rt_DstCIDR := ''10.0.0.0/8'', rt_Family := FamilyV4\<rparr>"
  have b: "route_bar_free ?r" "route_bar_free (?r\<lparr>rt_Reject := True\<rparr>)" by code_simp+
  have "\<not> same_route ?r (?r\<lparr>rt_Reject := True\<rparr>)" by code_simp
  with RouteKey_identifies[OF b] b show ?thesis unfolding Let_def by blast
qed

subsection \<open>One spelling per gateway\<close>

lemma clear_scope_bits:
  fixes w :: "128 word"
  shows "drop_bit 118 (push_bit 112 (drop_bit 112 w) OR take_bit 96 w) = drop_bit 118 w"
  by (rule bit_word_eqI) (auto simp: bit_simps dest: bit_imp_le_length)

lemma link_local_not_4in6:
  fixes w :: "128 word"
  assumes "drop_bit 118 w = 0x3fa"
  shows "drop_bit 32 w \<noteq> 0xffff"
proof
  assume "drop_bit 32 w = 0xffff"
  then have "drop_bit 86 (drop_bit 32 w) = (0 :: 128 word)" by simp
  then show False using assms by (simp add: drop_bit_drop_bit)
qed

definition gateway_normal :: "addr \<Rightarrow> addr" where
  "gateway_normal a =
     (let a = with_zone (unmap a) [] in if is6 a \<and> is_link_local_unicast a then clear_scope a else a)"

lemma gatewayKey_normal: "parse_addr s = Some a \<Longrightarrow> gatewayKey s = addr_string (gateway_normal a)"
  by (simp add: gatewayKey_def gateway_normal_def Let_def)

lemma clear_scope_idem [simp]: "clear_scope (clear_scope a) = clear_scope a"
proof (cases a)
  case (Addr6 w z)
  have "push_bit 112 (drop_bit 112 (push_bit 112 (drop_bit 112 w) OR take_bit 96 w))
      OR take_bit 96 (push_bit 112 (drop_bit 112 w) OR take_bit 96 w) = push_bit 112 (drop_bit 112 w) OR take_bit 96 w"
    by (rule bit_word_eqI) (auto simp: bit_simps)
  with Addr6 show ?thesis by (simp only: clear_scope.simps)
qed simp_all

lemma clear_scope_link_local:
  assumes "is6 a" "is_link_local_unicast a" "\<not> is4in6 a"
  shows "is6 (clear_scope a)" "is_link_local_unicast (clear_scope a)" "unmap (clear_scope a) = clear_scope a"
    "with_zone (clear_scope a) [] = clear_scope a"
proof -
  from assms(1) obtain w z where a: "a = Addr6 w z" by (cases a) auto
  let ?w = "push_bit 112 (drop_bit 112 w) OR take_bit 96 w"
  have d: "drop_bit 118 ?w = 0x3fa" using assms a clear_scope_bits[of w] by (simp only: is_link_local_unicast.simps is4in6.simps) simp
  note n = link_local_not_4in6[OF d]
  show "is6 (clear_scope a)" "with_zone (clear_scope a) [] = clear_scope a" using a by simp_all
  show "is_link_local_unicast (clear_scope a)" "unmap (clear_scope a) = clear_scope a"
    using a d n by (simp_all only: clear_scope.simps is_link_local_unicast.simps unmap.simps if_False)
qed

lemma unmap_props: "\<not> is4in6 (unmap a)" "unmap (unmap a) = unmap a"
  "with_zone (with_zone b z) y = with_zone b y" "unmap (with_zone (unmap a) z) = with_zone (unmap a) z"
  "is4in6 (with_zone b z) = is4in6 b"
  by (cases a; cases b; simp)+

lemma gateway_normal_idem: "gateway_normal (gateway_normal a) = gateway_normal a"
proof -
  let ?b = "with_zone (unmap a) []"
  have n: "\<not> is4in6 ?b" by (simp add: unmap_props)
  show ?thesis
  proof (cases "is6 ?b \<and> is_link_local_unicast ?b")
    case True
    then have "gateway_normal a = clear_scope ?b" by (simp add: gateway_normal_def)
    with True clear_scope_link_local[of ?b] n show ?thesis by (simp add: gateway_normal_def)
  next
    case False
    then have "gateway_normal a = ?b" by (auto simp: gateway_normal_def Let_def)
    with False show ?thesis by (auto simp: gateway_normal_def Let_def unmap_props)
  qed
qed

lemma gateway_normal_nonzero: "gateway_normal a = AddrZero \<longleftrightarrow> a = AddrZero"
  by (cases a) (auto simp: gateway_normal_def Let_def)

lemma gateway_normal_zone: "gateway_normal (with_zone a z) = gateway_normal a"
  by (cases a) (auto simp: gateway_normal_def Let_def)


text \<open>
  C11.  Two spellings of gateways count as the same exactly when the addresses agree once
  IPv4-mapping, zone and, for a link-local address, the scope embedded in the second group are
  taken away.
\<close>

theorem SameGateway_iff:
  assumes "a \<noteq> AddrZero" and "b \<noteq> AddrZero"
  shows "SameGateway (addr_string a) (addr_string b) \<longleftrightarrow> gateway_normal a = gateway_normal b"
  using assms gatewayKey_normal[OF parse_addr_string] gateway_normal_nonzero
  by (simp add: SameGateway_def addr_string_inject)

text \<open>\<^verbatim>\<open>fe80::1%en0\<close> as \<^verbatim>\<open>route get\<close> prints it, and fe80:4::1 as the routing table lists it.\<close>

theorem SameGateway_iff_witness:
  "let a = Addr6 0xfe800000000000000000000000000001 ''en0''; b = Addr6 0xfe800004000000000000000000000001 []
   in a \<noteq> AddrZero \<and> b \<noteq> AddrZero \<and> SameGateway (addr_string a) (addr_string b)"
proof -
  let ?a = "Addr6 0xfe800000000000000000000000000001 ''en0''" and ?b = "Addr6 0xfe800004000000000000000000000001 []"
  have "gateway_normal ?a = gateway_normal ?b" by (simp add: gateway_normal_def)
  then show ?thesis using SameGateway_iff[of ?a ?b] by (simp add: Let_def)
qed

end
