(* ===== verification/Carve.thy ===== *)
theory Carve
  imports Keys
begin

text \<open>
  The part of \<^verbatim>\<open>internal/routing/tunnels.go\<close> that cuts networks: exclude and include destinations
  around the tunnels' networks (\<open>outsideTunnels\<close>, \<open>aroundTunnels\<close>, \<open>subtractNets\<close>), and a tunnel's
  destination around what must not go into it (\<open>keepOut\<close>, \<open>othersInside\<close>, \<open>carve\<close>).

  The recursion of \<open>subtractNets\<close> ends because each half has one free bit less.  Sorting by
  \<^verbatim>\<open>sort.Slice\<close> is modelled by a stable sort; where the source's order of equal elements is
  unspecified only the order of texts depends on it.
\<close>

section \<open>Cutting networks out of networks\<close>

definition outsideTunnels :: "netprefix list \<Rightarrow> netprefix list \<Rightarrow> netprefix list" where
  "outsideTunnels prefixes nets =
     (if nets = [] then prefixes
      else filter (\<lambda>p. \<not> list_ex (\<lambda>n. pfx_bits n \<le> pfx_bits p \<and> contains n (pfx_addr p)) nets) prefixes)"

text \<open>What the loop of \<^verbatim>\<open>subtractNets\<close> finds: the first network that decides, if any.\<close>

datatype verdict = Untouched | Inside | Split

fun subtract_verdict :: "netprefix \<Rightarrow> netprefix list \<Rightarrow> verdict" where
  "subtract_verdict p [] = Untouched"
| "subtract_verdict p (n # ns) =
     (if is4 (pfx_addr n) \<noteq> is4 (pfx_addr p) then subtract_verdict p ns
      else if pfx_bits n \<le> pfx_bits p \<and> contains n (pfx_addr p) then Inside
      else if pfx_bits p < pfx_bits n \<and> contains p (pfx_addr n) then Split
      else subtract_verdict p ns)"

text \<open>
  A network with no free bit is never split (no prefix has more bits than its address); there
  the model stops where the source would index past the address.
\<close>

function subtractNets :: "netprefix \<Rightarrow> netprefix list \<Rightarrow> netprefix list" where
  "subtractNets p nets =
     (case subtract_verdict p nets of
        Untouched \<Rightarrow> [p]
      | Inside \<Rightarrow> []
      | Split \<Rightarrow>
          if host_bits p = 0 then []
          else subtractNets (fst (halves p)) nets @ subtractNets (snd (halves p)) nets)"
  by pat_completeness auto

lemma verdict_split: "subtract_verdict p nets = Split \<Longrightarrow> is_valid p"
  by (induction nets) (auto simp: contains_iff split: if_splits)

lemma halves_host_bits:
  assumes "is_valid p" "host_bits p \<noteq> 0"
  shows "host_bits (fst (halves p)) < host_bits p" "host_bits (snd (halves p)) < host_bits p"
proof -
  obtain k where k: "host_bits p = Suc k" using assms(2) not0_implies_Suc by blast
  note n = halves_nets[OF assms(1) k surjective_pairing]
  show "host_bits (fst (halves p)) < host_bits p" "host_bits (snd (halves p)) < host_bits p" using n(5,6) k by simp_all
qed

termination subtractNets
  by (relation "measure (\<lambda>(p, nets). host_bits p)") (auto dest: verdict_split simp: halves_host_bits)

declare subtractNets.simps [simp del]

definition aroundTunnels :: "netprefix list \<Rightarrow> netprefix list \<Rightarrow> netprefix list" where
  "aroundTunnels prefixes nets =
     (if nets = [] then prefixes else concat (map (\<lambda>p. subtractNets (masked p) nets) prefixes))"

abbreviation valid_all :: "netprefix list \<Rightarrow> bool" where
  "valid_all ps \<equiv> (\<forall>p \<in> set ps. is_valid p)"

lemma verdict_spec:
  assumes "is_valid p" and "valid_all nets"
  shows "subtract_verdict p nets = Untouched \<Longrightarrow> covers p \<inter> covers_all nets = {}"
    and "subtract_verdict p nets = Inside \<Longrightarrow> covers p \<subseteq> covers_all nets"
    and "subtract_verdict p nets = Split \<Longrightarrow> host_bits p > 0"
proof -
  show "subtract_verdict p nets = Untouched \<Longrightarrow> covers p \<inter> covers_all nets = {}"
    using assms(2)
  proof (induction nets)
    case (Cons n ns)
    have "covers p \<inter> covers n = {}"
    proof (rule ccontr)
      assume "covers p \<inter> covers n \<noteq> {}"
      then obtain a where a: "a \<in> covers p" "a \<in> covers n" by blast
      then have "is4 (pfx_addr n) = is4 (pfx_addr p)" by (simp add: covers_def contains_iff is4_iff)
      with a Cons.prems(1) overlap_subnet[OF a] overlap_subnet[OF a(2,1)] show False
        by (auto simp: subnet_def split: if_splits)
    qed
    with Cons show ?case by (auto split: if_splits)
  qed simp
  show "subtract_verdict p nets = Inside \<Longrightarrow> covers p \<subseteq> covers_all nets"
    using assms(2)
  proof (induction nets)
    case (Cons n ns)
    show ?case
    proof (cases "pfx_bits n \<le> pfx_bits p \<and> contains n (pfx_addr p)")
      case True
      then show ?thesis using subnet_covers[of n p] assms(1) by (auto simp: subnet_def)
    next
      case False
      with Cons show ?thesis by (auto split: if_splits)
    qed
  qed simp
  show "subtract_verdict p nets = Split \<Longrightarrow> host_bits p > 0"
    using assms(2)
  proof (induction nets)
    case (Cons n ns)
    show ?case
    proof (cases "pfx_bits p < pfx_bits n \<and> contains p (pfx_addr n)")
      case True
      then have "bit_len (pfx_addr p) = bit_len (pfx_addr n)" by (simp add: contains_iff)
      then show ?thesis using True Cons.prems(2) assms(1) by (auto simp: host_bits_def is_valid_def)
    next
      case False
      with Cons show ?thesis by (auto split: if_splits)
    qed
  qed simp
qed

lemma disjoint_nets_append:
  assumes "disjoint_nets ps" "disjoint_nets qs" "nets_ok ps"
    "\<And>p q. p \<in> set ps \<Longrightarrow> q \<in> set qs \<Longrightarrow> covers p \<inter> covers q = {}"
  shows "disjoint_nets (ps @ qs)"
proof -
  have ne: "p \<noteq> q" if "p \<in> set ps" "q \<in> set qs" for p q
    using assms(4)[OF that] masked_net_covers_nonempty assms(3) that(1) by blast
  have "covers p \<inter> covers q = {}" if "p \<in> set (ps @ qs)" "q \<in> set (ps @ qs)" "p \<noteq> q" for p q
    using that assms(4)[of p q] assms(4)[of q p] assms(1,2)
    unfolding disjoint_nets_def set_append Un_iff by (metis Int_commute)
  moreover have "set ps \<inter> set qs = {}" using ne by blast
  ultimately show ?thesis using assms(1,2) unfolding disjoint_nets_def distinct_append by blast
qed

lemma subtractNets_induct [consumes 2, case_names untouched inside split]:
  assumes "is_valid p" and "valid_all nets"
    and "\<And>p. is_valid p \<Longrightarrow> covers p \<inter> covers_all nets = {} \<Longrightarrow> subtractNets p nets = [p] \<Longrightarrow> P p"
    and "\<And>p. is_valid p \<Longrightarrow> covers p \<subseteq> covers_all nets \<Longrightarrow> subtractNets p nets = [] \<Longrightarrow> P p"
    and "\<And>p lo hi. is_valid p \<Longrightarrow> masked_net lo \<Longrightarrow> masked_net hi \<Longrightarrow> covers p = covers lo \<union> covers hi \<Longrightarrow>
      covers lo \<inter> covers hi = {} \<Longrightarrow> subtractNets p nets = subtractNets lo nets @ subtractNets hi nets \<Longrightarrow>
      P lo \<Longrightarrow> P hi \<Longrightarrow> P p"
  shows "P p"
  using assms(1)
proof (induction "host_bits p" arbitrary: p rule: less_induct)
  case less
  note v = verdict_spec[OF less.prems assms(2)]
  show ?case
  proof (cases "subtract_verdict p nets")
    case Untouched
    then have "subtractNets p nets = [p]" by (subst subtractNets.simps) simp
    then show ?thesis using v(1)[OF Untouched] less.prems assms(3) by blast
  next
    case Inside
    then have "subtractNets p nets = []" by (subst subtractNets.simps) simp
    then show ?thesis using v(2)[OF Inside] less.prems assms(4) by blast
  next
    case Split
    then obtain k where k: "host_bits p = Suc k" using v(3) gr0_implies_Suc by blast
    obtain lo hi where e: "halves p = (lo, hi)" by force
    note n = halves_nets[OF less.prems k e] and c = halves_covers[OF less.prems k e]
    have s: "subtractNets p nets = subtractNets lo nets @ subtractNets hi nets"
      using Split k e by (subst subtractNets.simps) simp
    have "host_bits lo < host_bits p" "host_bits hi < host_bits p" using n(5,6) k by simp_all
    then have "P lo" "P hi" using less.hyps n(1,2) by blast+
    then show ?thesis using assms(5)[OF less.prems n(1,2) c s] by blast
  qed
qed

lemma subtractNets_covers:
  assumes "is_valid p" and "valid_all nets"
  shows "covers_all (subtractNets p nets) = covers p - covers_all nets"
  using assms by (induction p rule: subtractNets_induct) auto

lemma subtractNets_inside:
  assumes "is_valid p" and "valid_all nets"
  shows "q \<in> set (subtractNets p nets) \<Longrightarrow> is_valid q \<and> covers q \<subseteq> covers p"
  using assms by (induction p rule: subtractNets_induct) auto

lemma subtractNets_nets:
  assumes "is_valid p" and "valid_all nets"
  shows "masked_net p \<Longrightarrow> nets_ok (subtractNets p nets)"
  using assms by (induction p rule: subtractNets_induct) auto

lemma subtractNets_disjoint:
  assumes "is_valid p" and "valid_all nets"
  shows "disjoint_nets (subtractNets p nets)"
  using assms
proof (induction p rule: subtractNets_induct)
  case (split p lo hi)
  have "covers a \<inter> covers b = {}" if "a \<in> set (subtractNets lo nets)" "b \<in> set (subtractNets hi nets)" for a b
  proof -
    have "covers a \<subseteq> covers lo" "covers b \<subseteq> covers hi"
      using that subtractNets_inside[OF masked_net_valid[OF split(2)] assms(2)]
        subtractNets_inside[OF masked_net_valid[OF split(3)] assms(2)] by blast+
    then show ?thesis using split(5) by blast
  qed
  then show ?case
    unfolding split(6)
    using disjoint_nets_append[OF split(7,8) subtractNets_nets[OF masked_net_valid[OF split(2)] assms(2) split(2)]] by blast
qed (simp_all add: disjoint_nets_def)

lemma aroundTunnels_spec:
  assumes "valid_all ps" and "valid_all nets"
  shows "covers_all (aroundTunnels ps nets) = covers_all ps - covers_all nets" "valid_all (aroundTunnels ps nets)"
proof -
  have s: "covers_all (subtractNets (masked p) nets) = covers p - covers_all nets"
      "valid_all (subtractNets (masked p) nets)" if "is_valid p" for p
  proof -
    have v: "is_valid (masked p)" using that by simp
    show "covers_all (subtractNets (masked p) nets) = covers p - covers_all nets"
      unfolding subtractNets_covers[OF v assms(2)] covers_masked ..
    show "valid_all (subtractNets (masked p) nets)" using subtractNets_inside[OF v assms(2)] by blast
  qed
  show "covers_all (aroundTunnels ps nets) = covers_all ps - covers_all nets"
  proof (cases "nets = []")
    case False
    have "(\<Union>p \<in> set ps. covers_all (subtractNets (masked p) nets)) = covers_all ps - covers_all nets"
    proof -
      have "(\<Union>p \<in> set ps. covers_all (subtractNets (masked p) nets)) = (\<Union>p \<in> set ps. covers p - covers_all nets)"
        using assms(1) s(1) by (intro SUP_cong) simp_all
      also have "\<dots> = covers_all ps - covers_all nets" unfolding covers_all_def[of ps] by blast
      finally show ?thesis .
    qed
    then show ?thesis using False by (simp add: aroundTunnels_def covers_all_concat)
  qed (simp add: aroundTunnels_def)
  show "valid_all (aroundTunnels ps nets)" using assms s(2) by (auto simp: aroundTunnels_def)
qed

lemma outsideTunnels_spec:
  assumes "valid_all ps"
  shows "set (outsideTunnels ps nets) = {p \<in> set ps. \<not> (\<exists>n \<in> set nets. covers p \<subseteq> covers n)}"
proof -
  have t: "(pfx_bits n \<le> pfx_bits p \<and> contains n (pfx_addr p)) \<longleftrightarrow> covers p \<subseteq> covers n" if "p \<in> set ps" for p n
  proof (cases "is_valid n")
    case True
    then show ?thesis using that assms covers_subset_iff[of p n] by (auto simp: subnet_def)
  next
    case False
    then show ?thesis using that assms covers_invalid[of n] covers_nonempty[of p] by (auto simp: contains_iff)
  qed
  show ?thesis
  proof (cases "nets = []")
    case False
    then have "set (outsideTunnels ps nets) =
        {p \<in> set ps. \<not> (\<exists>n \<in> set nets. pfx_bits n \<le> pfx_bits p \<and> contains n (pfx_addr p))}"
      by (simp add: outsideTunnels_def list_ex_iff)
    also have "\<dots> = {p \<in> set ps. \<not> (\<exists>n \<in> set nets. covers p \<subseteq> covers n)}" using t by blast
    finally show ?thesis .
  qed (simp add: outsideTunnels_def)
qed

section \<open>What a tunnel route must not carry\<close>

definition em_dash :: string where
  "em_dash = [CHR 0xE2, CHR 0x80, CHR 0x94]"

record claim =
  cl_tunnel :: string
  cl_pin :: bool
  cl_refuse :: bool

type_synonym claims = "string \<rightharpoonup> claim"

definition claim_reason :: "claim \<Rightarrow> string \<Rightarrow> string" where
  "claim_reason c tunnel =
     (if cl_pin c \<and> cl_tunnel c = tunnel then ''it's the tunnel's own server, pinned to your physical gateway''
      else if cl_pin c then ''it's tunnel '' @ cl_tunnel c @ CHR 0x27 # ''s server, pinned to your physical gateway''
      else if cl_refuse c then ''already blocked for tunnel '' @ cl_tunnel c @ '' while it's down''
      else ''already routed into tunnel '' @ cl_tunnel c)"

definition servers :: "tunnel_input \<Rightarrow> addr list" where
  "servers t = ti_Bypass t @ ti_Servers t"

record kept_out =
  ko_addr :: addr
  ko_why :: string
  ko_net :: netprefix
  ko_on :: string

abbreviation maxCarved :: nat where "maxCarved \<equiv> 1024"
abbreviation maxKeptResolvers :: nat where "maxKeptResolvers \<equiv> 8"

definition kept :: "addr \<Rightarrow> string \<Rightarrow> kept_out" where
  "kept a why = \<lparr>ko_addr = a, ko_why = why, ko_net = prefix_zero, ko_on = []\<rparr>"

definition keep_router :: "netprefix \<Rightarrow> desired_input \<Rightarrow> kept_out list" where
  "keep_router pfx inp =
     (let (gw, lan, on) = (if is6 (pfx_addr pfx)
            then (with_zone (in_GatewayV6 inp) [], in_PhysNetV6 inp, in_PhysIfaceV6 inp)
            else (in_GatewayV4 inp, in_PhysNetV4 inp, in_PhysIfaceV4 inp))
      in if addr_valid gw \<and> contains pfx gw then
           [if is_valid lan \<and> contains lan gw
            then (kept gw (''your router '' @ addr_string gw))
              \<lparr>ko_net := (if pfx_bits lan \<le> pfx_bits pfx then pfx else masked lan), ko_on := on\<rparr>
            else kept gw (''your router '' @ addr_string gw)]
         else [])"

text \<open>The counters are the resolvers seen of each family; past the bound one is skipped.\<close>

fun keep_resolvers :: "bool \<Rightarrow> netprefix \<Rightarrow> nat \<Rightarrow> nat \<Rightarrow> addr list \<Rightarrow> kept_out list" where
  "keep_resolvers essential pfx n4 n6 [] = []"
| "keep_resolvers essential pfx n4 n6 (a # as) =
     (if essential \<or> (if is4 a then n4 else n6) \<ge> maxKeptResolvers then keep_resolvers essential pfx n4 n6 as
      else (if contains pfx a then [kept a (''your DNS server '' @ addr_string a)] else [])
        @ keep_resolvers essential pfx (if is4 a then Suc n4 else n4) (if is4 a then n6 else Suc n6) as)"

definition keep_anchors :: "bool \<Rightarrow> netprefix \<Rightarrow> addr list \<Rightarrow> kept_out list" where
  "keep_anchors essential pfx as =
     map (\<lambda>a. kept a (addr_string a @ '', which RiftRoute probes to check a change kept you online''))
       (filter (\<lambda>a. \<not> essential \<and> contains pfx a) as)"

definition keep_servers :: "netprefix \<Rightarrow> tunnel_input \<Rightarrow> tunnel_input list \<Rightarrow> addr set \<Rightarrow> kept_out list" where
  "keep_servers pfx t ts held =
     concat (map (\<lambda>s. map (\<lambda>a. kept a (if ti_Name s = ti_Name t then ''the tunnel's own server '' @ addr_string a
                                else ''tunnel '' @ ti_Name s @ CHR 0x27 # ''s server '' @ addr_string a))
                       (filter (\<lambda>a. contains pfx a \<and> a \<notin> held) (servers s))) ts)"

definition keepOut :: "netprefix \<Rightarrow> tunnel_input \<Rightarrow> tunnel_input list \<Rightarrow> addr set \<Rightarrow> desired_input \<Rightarrow> bool \<Rightarrow> kept_out list"
  where
  "keepOut pfx t ts held inp essential =
     dedup_by ko_addr {} (keep_router pfx inp @ keep_resolvers essential pfx 0 0 (in_DNSServers inp)
       @ keep_anchors essential pfx (in_Anchors inp) @ keep_servers pfx t ts held)"

section \<open>Carving a destination\<close>

record route_inside =
  ri_net :: netprefix
  ri_via :: string

definition othersInside :: "netprefix \<Rightarrow> string \<Rightarrow> tunnel_input list \<Rightarrow> (string \<times> string) list \<Rightarrow> route_inside list" where
  "othersInside pfx name ts occupied =
     (let within1 = (\<lambda>q. is4 (pfx_addr q) = is4 (pfx_addr pfx) \<and> pfx_bits q > pfx_bits pfx \<and> contains pfx (pfx_addr q));
          occ = List.map_filter (\<lambda>(k, via). case parse_prefix k of
                  None \<Rightarrow> None
                | Some q \<Rightarrow> if within1 (masked q) then Some \<lparr>ri_net = masked q, ri_via = via\<rparr> else None) occupied;
          listed = concat (map (\<lambda>x. List.map_filter (\<lambda>v. case entryToPrefix v of
                  None \<Rightarrow> None
                | Some (q, _) \<Rightarrow> if within1 (masked q) then Some \<lparr>ri_net = masked q, ri_via = ''tunnel '' @ ti_Name x\<rparr>
                    else None) (ti_Routes x)) (filter (\<lambda>x. ti_Name x \<noteq> name) ts))
      in sort_key (\<lambda>r. prefix_string (ri_net r)) (occ @ listed))"

definition hole_step :: "kept_out \<Rightarrow> netprefix \<times> string \<times> bool \<Rightarrow> route_inside \<Rightarrow> netprefix \<times> string \<times> bool" where
  "hole_step k = (\<lambda>(hole, why, found) x.
     if \<not> contains (ri_net x) (ko_addr k) \<or> (found \<and> pfx_bits (ri_net x) \<le> pfx_bits hole) then (hole, why, found)
     else (ri_net x,
           if is_single_ip (ri_net x) then ko_why k @ '', routed via '' @ ri_via x
           else ''the network of '' @ ko_why k @ '', via '' @ ri_via x, True))"

definition hole_of :: "route_inside list \<Rightarrow> kept_out \<Rightarrow> netprefix \<times> string" where
  "hole_of others k =
     (if is_valid (ko_net k) then (ko_net k, ''the network of '' @ ko_why k @ '', on '' @ ko_on k)
      else let (hole, why, _) = foldl (hole_step k) (host_prefix (ko_addr k), ko_why k, False) others
        in (hole, why))"

text \<open>The holes in the order found, and the reasons by hole (a hole is listed once it has one).\<close>

definition add_hole :: "route_inside list \<Rightarrow> netprefix list \<times> (netprefix \<Rightarrow> string list) \<Rightarrow> kept_out
    \<Rightarrow> netprefix list \<times> (netprefix \<Rightarrow> string list)" where
  "add_hole others = (\<lambda>(holes, reasons) k.
     let (hole, why) = hole_of others k
     in (if hole \<in> set holes then holes else holes @ [hole], reasons(hole := reasons hole @ [why])))"

definition outermost :: "netprefix list \<Rightarrow> netprefix \<Rightarrow> netprefix" where
  "outermost holes h =
     foldl (\<lambda>top x. if pfx_bits x < pfx_bits top \<and> contains x (pfx_addr h) then x else top) h holes"

definition outer_step :: "netprefix list \<Rightarrow> netprefix list \<times> (netprefix \<Rightarrow> string list) \<Rightarrow> netprefix
    \<Rightarrow> netprefix list \<times> (netprefix \<Rightarrow> string list)" where
  "outer_step holes = (\<lambda>(outer, reasons) h.
     let top = outermost holes h
     in if top \<noteq> h then (outer, reasons(top := reasons top @ reasons h)) else (outer @ [h], reasons))"

definition carve_except :: "netprefix list \<Rightarrow> (netprefix \<Rightarrow> string list) \<Rightarrow> tunnel_except list" where
  "carve_except holes reasons =
     (let holes = sort_key pfx_addr holes; (outer, reasons) = foldl (outer_step holes) ([], reasons) holes
      in map (\<lambda>h. \<lparr>te_Net = (if is_single_ip h then addr_string (pfx_addr h) else prefix_string h),
                  te_Reason = join ''; '' (reasons h)\<rparr>) outer)"

definition carve_holes :: "route_inside list \<Rightarrow> kept_out list \<Rightarrow> netprefix list \<times> (netprefix \<Rightarrow> string list)" where
  "carve_holes others keep = foldl (add_hole others) ([], \<lambda>_. []) keep"

definition carve :: "netprefix \<Rightarrow> kept_out list \<Rightarrow> route_inside list \<Rightarrow> claims \<Rightarrow> netprefix list \<times> tunnel_except list" where
  "carve pfx keep others taken =
     (let (holes, reasons) = carve_holes others keep;
          parts = filter (\<lambda>p. \<not> list_ex (\<lambda>x. pfx_bits (ri_net x) \<le> pfx_bits p \<and> contains (ri_net x) (pfx_addr p)) others
                    \<and> taken (prefixKey p) = None) (subtractNets pfx holes)
      in (parts, carve_except holes reasons))"

definition exceptText :: "tunnel_except list \<Rightarrow> string" where
  "exceptText except = join '', '' (map (\<lambda>e. te_Net e @ '' ('' @ te_Reason e @ '')'') except)"

section \<open>Facts about carving\<close>

definition guarded :: "desired_input \<Rightarrow> tunnel_input list \<Rightarrow> addr set \<Rightarrow> addr \<Rightarrow> bool" where
  "guarded inp ts held a \<longleftrightarrow>
     (if is6 a then with_zone (in_GatewayV6 inp) [] else in_GatewayV4 inp) = a
     \<or> (\<exists>t \<in> set ts. a \<in> set (servers t) \<and> a \<notin> held)"

lemma kept_simps [simp]: "ko_addr (kept a w) = a" "ko_net (kept a w) = prefix_zero"
  by (simp_all add: kept_def)

lemma prefix_zero_invalid [simp]: "\<not> is_valid prefix_zero"
  by (simp add: prefix_zero_def is_valid_def)

lemma keep_router_props:
  assumes "k \<in> set (keep_router pfx inp)"
  shows "contains pfx (ko_addr k)" "is_valid (ko_net k) \<Longrightarrow> contains (ko_net k) (ko_addr k)"
  using assms by (auto simp: keep_router_def Let_def split: if_splits prod.splits)

lemma keep_resolvers_props:
  "k \<in> set (keep_resolvers e pfx n4 n6 as) \<Longrightarrow> contains pfx (ko_addr k) \<and> \<not> is_valid (ko_net k)"
  by (induction e pfx n4 n6 as rule: keep_resolvers.induct) (auto split: if_splits)

lemma dedup_by_mem: "x \<in> set (dedup_by f s xs) \<Longrightarrow> x \<in> set xs"
  using set_dedup_by_subset[of f s xs] by blast

lemma keepOut_props:
  assumes "k \<in> set (keepOut pfx t ts held inp e)"
  shows "contains pfx (ko_addr k)" "is_valid (ko_net k) \<Longrightarrow> contains (ko_net k) (ko_addr k)"
proof -
  from assms have "k \<in> set (keep_router pfx inp) \<or> k \<in> set (keep_resolvers e pfx 0 0 (in_DNSServers inp))
      \<or> k \<in> set (keep_anchors e pfx (in_Anchors inp)) \<or> k \<in> set (keep_servers pfx t ts held)"
    unfolding keepOut_def by (auto dest: dedup_by_mem)
  then show "contains pfx (ko_addr k)" "is_valid (ko_net k) \<Longrightarrow> contains (ko_net k) (ko_addr k)"
    using keep_router_props keep_resolvers_props
    by (auto simp: keep_anchors_def keep_servers_def)
qed

text \<open>The router and every server nothing else holds are kept out, whether or not only the essential is.\<close>

lemma guarded_kept:
  assumes "contains pfx a" and "guarded inp ts held a"
  shows "a \<in> ko_addr ` set (keepOut pfx t ts held inp e)"
proof -
  have fam: "is6 (pfx_addr pfx) = is6 a" and z: "a \<noteq> AddrZero"
    using assms(1) by (auto simp: contains_iff is6_iff is_valid_def)
  have "a \<in> ko_addr ` (set (keep_router pfx inp) \<union> set (keep_servers pfx t ts held))"
    using assms(2) unfolding guarded_def
  proof
    assume "(if is6 a then with_zone (in_GatewayV6 inp) [] else in_GatewayV4 inp) = a"
    then obtain lan on where g: "(if is6 (pfx_addr pfx)
            then (with_zone (in_GatewayV6 inp) [], in_PhysNetV6 inp, in_PhysIfaceV6 inp)
            else (in_GatewayV4 inp, in_PhysNetV4 inp, in_PhysIfaceV4 inp)) = (a, lan, on)"
      using fam by (cases "is6 a") auto
    have "a \<in> ko_addr ` set (keep_router pfx inp)"
      unfolding keep_router_def g using z assms(1) by (simp add: addr_valid_def)
    then show ?thesis by blast
  next
    assume "\<exists>t \<in> set ts. a \<in> set (servers t) \<and> a \<notin> held"
    then obtain s where s: "s \<in> set ts" "a \<in> set (servers s)" "a \<notin> held" by blast
    then have "a \<in> ko_addr ` set (keep_servers pfx t ts held)"
      using assms(1) unfolding keep_servers_def set_concat set_map image_Union image_image
      by (intro UN_I[OF s(1)]) (simp add: image_iff)
    then show ?thesis by blast
  qed
  then show ?thesis
    unfolding keepOut_def dedup_by_keys by auto
qed

lemma hole_step_props:
  assumes "contains (fst st) (ko_addr k)"
  shows "contains (fst (hole_step k st x)) (ko_addr k)"
  using assms by (auto simp: hole_step_def split: prod.splits)

lemma hole_of_props:
  assumes "addr_zone (ko_addr k) = []" "ko_addr k \<noteq> AddrZero"
    and "is_valid (ko_net k) \<Longrightarrow> contains (ko_net k) (ko_addr k)"
  shows "contains (fst (hole_of others k)) (ko_addr k)"
proof (cases "is_valid (ko_net k)")
  case True
  then show ?thesis using assms(3) by (simp add: hole_of_def)
next
  case False
  have "contains (fst (foldl (hole_step k) st others)) (ko_addr k)" if "contains (fst st) (ko_addr k)" for st
    using that by (induction others arbitrary: st) (auto simp: hole_step_props)
  moreover have "contains (host_prefix (ko_addr k)) (ko_addr k)"
  proof -
    have "with_zone (ko_addr k) [] = ko_addr k" using assms(1) by (cases "ko_addr k") simp_all
    then have "ko_addr k \<in> covers (host_prefix (ko_addr k))" using host_prefix_valid(3)[OF assms(2)] by simp
    then show ?thesis by (simp add: covers_def)
  qed
  ultimately show ?thesis using False by (simp add: hole_of_def split: prod.splits) (metis fst_conv)
qed

lemma add_hole_holes:
  "set (fst (foldl (add_hole others) st keep)) = set (fst st) \<union> (fst \<circ> hole_of others) ` set keep"
proof (induction keep arbitrary: st)
  case (Cons k keep)
  have "set (fst (add_hole others st k)) = insert (fst (hole_of others k)) (set (fst st))"
    by (auto simp: add_hole_def Let_def split: prod.splits)
  with Cons show ?case by simp
qed simp

lemma carve_parts:
  assumes "masked_net pfx" and keep: "\<And>k. k \<in> set keep \<Longrightarrow> contains pfx (ko_addr k)
      \<and> (is_valid (ko_net k) \<longrightarrow> contains (ko_net k) (ko_addr k))"
    and p: "p \<in> set (fst (carve pfx keep others taken))"
  shows "masked_net p" "covers p \<subseteq> covers pfx" "taken (prefixKey p) = None"
    "k \<in> set keep \<Longrightarrow> ko_addr k \<notin> covers p"
proof -
  let ?holes = "fst (carve_holes others keep)"
  have v: "is_valid pfx" using assms(1) by blast
  have hole: "contains (fst (hole_of others k)) (ko_addr k)" if "k \<in> set keep" for k
    using keep[OF that] by (intro hole_of_props) (auto simp: contains_iff is_valid_def)
  have sh: "set ?holes = (fst \<circ> hole_of others) ` set keep"
    using add_hole_holes[of others "([], \<lambda>_. [])" keep] by (simp add: carve_holes_def)
  have vh: "valid_all ?holes" using hole sh by (auto simp: contains_iff)
  have p': "p \<in> set (subtractNets pfx ?holes)" and t: "taken (prefixKey p) = None"
    using p by (auto simp: carve_def Let_def split: prod.splits)
  show "masked_net p" using subtractNets_nets[OF v vh assms(1)] p' by blast
  show "covers p \<subseteq> covers pfx" using subtractNets_inside[OF v vh p'] by blast
  show "taken (prefixKey p) = None" by (rule t)
  show "ko_addr k \<notin> covers p" if "k \<in> set keep"
  proof -
    have "fst (hole_of others k) \<in> set ?holes" using sh that by auto
    then have "ko_addr k \<in> covers_all ?holes" using hole[OF that] by (auto simp: covers_all_def covers_def)
    moreover have "covers p \<subseteq> covers pfx - covers_all ?holes"
      using subtractNets_covers[OF v vh] p' by (auto simp: covers_all_def)
    ultimately show ?thesis by blast
  qed
qed

section \<open>Properties\<close>

text \<open>
  C12.  Cutting networks out of a network is exact: the pieces are pairwise disjoint masked
  networks and cover the addresses of the network that none of the others covers.
\<close>

theorem subtractNets_exact:
  assumes "masked_net p" and "list_all is_valid nets"
  shows "covers_all (subtractNets p nets) = covers p - covers_all nets
    \<and> disjoint_nets (subtractNets p nets) \<and> list_all masked_net (subtractNets p nets)"
  using assms subtractNets_covers[of p nets] subtractNets_disjoint[of p nets] subtractNets_nets[of p nets]
  by (simp add: masked_net_valid list_all_iff)

text \<open>10.0.0.0/8 without 10.128.0.0/9 is its lower half.\<close>

theorem subtractNets_exact_witness:
  "let p = NetPrefix (Addr4 0x0A000000) 8; n = NetPrefix (Addr4 0x0A800000) 9
   in masked_net p \<and> is_valid n \<and> subtractNets p [n] = [NetPrefix (Addr4 0x0A000000) 9]
     \<and> covers_all (subtractNets p [n]) = covers p - covers n"
proof -
  let ?p = "NetPrefix (Addr4 0x0A000000) 8" and ?n = "NetPrefix (Addr4 0x0A800000) 9"
  have p: "masked_net ?p" and n: "list_all is_valid [?n]" by code_simp+
  have e: "subtractNets ?p [?n] = [NetPrefix (Addr4 0x0A000000) 9]" by code_simp
  from subtractNets_exact[OF p n] p n e show ?thesis by (simp add: Let_def)
qed

text \<open>
  C13.  A carved destination is safe: every part lies inside the destination, is claimed by no
  tunnel, and holds none of the addresses that have to stay out of the tunnel.
\<close>

theorem carve_keeps_out:
  assumes "masked_net pfx" and "p \<in> set (fst (carve pfx (keepOut pfx t ts held inp essential) others taken))"
    and "k \<in> set (keepOut pfx t ts held inp essential)"
  shows "covers p \<subseteq> covers pfx \<and> ko_addr k \<notin> covers p \<and> taken (prefixKey p) = None"
  using assms carve_parts[of pfx "keepOut pfx t ts held inp essential" p others taken] keepOut_props by metis

text \<open>10.0.0.0/30 with the router at 10.0.0.1 and no interface network: 10.0.0.2/31 is one of the parts.\<close>

theorem carve_keeps_out_witness:
  "let pfx = NetPrefix (Addr4 0x0A000000) 30; inp = input0\<lparr>in_GatewayV4 := Addr4 0x0A000001\<rparr>;
       t = \<lparr>ti_Name = ''t'', ti_Iface = ''utun9'', ti_V6 = False, ti_Block = False, ti_Routes = [], ti_Bypass = [], ti_Servers = []\<rparr>
   in Addr4 0x0A000001 \<notin> covers (NetPrefix (Addr4 0x0A000002) 31)
     \<and> NetPrefix (Addr4 0x0A000002) 31 \<in> set (fst (carve pfx (keepOut pfx t [t] {} inp False) [] Map.empty))"
proof -
  let ?pfx = "NetPrefix (Addr4 0x0A000000) 30" and ?inp = "input0\<lparr>in_GatewayV4 := Addr4 0x0A000001\<rparr>"
    and ?t = "\<lparr>ti_Name = ''t'', ti_Iface = ''utun9'', ti_V6 = False, ti_Block = False, ti_Routes = [], ti_Bypass = [],
      ti_Servers = []\<rparr>" and ?p = "NetPrefix (Addr4 0x0A000002) 31"
  have m: "masked_net ?pfx" by code_simp
  have k: "kept (Addr4 0x0A000001) ''your router 10.0.0.1'' \<in> set (keepOut ?pfx ?t [?t] {} ?inp False)" by code_simp
  have p: "?p \<in> set (fst (carve ?pfx (keepOut ?pfx ?t [?t] {} ?inp False) [] Map.empty))" by code_simp
  from carve_keeps_out[OF m p k] p show ?thesis by (simp add: Let_def)
qed

end
