(* ===== verification/Tunnels.thy ===== *)
theory Tunnels
  imports Carve
begin

text \<open>
  \<^verbatim>\<open>PlanTunnels\<close> of \<^verbatim>\<open>internal/routing/tunnels.go\<close>: which routes the managed tunnels contribute.
  The two loops of the source are folds: the first pins the servers (\<open>pin_tunnel\<close>), the second
  takes each tunnel's listed destinations (\<open>plan_entry\<close>) and installs what is unclaimed
  (\<open>install_family\<close>).  \<open>taken\<close> maps a destination's key to its claim, \<open>held\<close> is the set of
  servers a host route keeps out of the tunnels.
\<close>

section \<open>The plan\<close>

record tunnel_plan =
  tp_Routes :: "managed_route list"
  tp_Blocked :: "string \<Rightarrow> tunnel_blocked list"
  tp_Narrowed :: "string \<Rightarrow> tunnel_narrowed list"
  tp_nets :: "netprefix list"

definition TunnelRouteBlock :: "netprefix \<Rightarrow> desired_input \<Rightarrow> string" where
  "TunnelRouteBlock pfx inp =
     (case map_of (in_Occupied inp) (prefix_string (masked pfx)) of
        Some iface \<Rightarrow> ''already routed via '' @ iface @ '' by something else (another VPN or the system)''
      | None \<Rightarrow> [])"

definition tunnel_route :: "route \<Rightarrow> string \<Rightarrow> desired_input \<Rightarrow> managed_route" where
  "tunnel_route rt tag inp =
     \<lparr>mr_Route = rt\<lparr>rt_Owner := OwnerRiftRoute, rt_Proto := protoFor (in_Platform inp), rt_Profile := tag\<rparr>,
      mr_ProfileID = tag, mr_CreatedAt = in_Now inp\<rparr>"

definition unclaimedAggregate :: "netprefix list \<Rightarrow> claims \<Rightarrow> netprefix list" where
  "unclaimedAggregate prefixes taken =
     dedup_by id {} (concat (map (\<lambda>agg.
       if taken (prefixKey agg) \<noteq> None
       then filter (\<lambda>p. pfx_bits p \<ge> pfx_bits agg \<and> contains agg (pfx_addr p)) prefixes
       else [agg]) (Aggregate prefixes)))"

text \<open>The first loop: server pins, and the servers something else already holds.\<close>

type_synonym pin_state = "claims \<times> addr set \<times> managed_route list"

definition occupied :: "desired_input \<Rightarrow> netprefix \<Rightarrow> bool" where
  "occupied inp p \<longleftrightarrow> map_of (in_Occupied inp) (prefix_string p) \<noteq> None"

definition pin_step :: "desired_input \<Rightarrow> tunnel_input \<Rightarrow> pin_state \<Rightarrow> addr \<Rightarrow> pin_state" where
  "pin_step inp t = (\<lambda>(taken, held, routes) a.
     case resolveGateway ''auto'' (famOf a) inp of
       Inl _ \<Rightarrow> (taken, held, routes)
     | Inr (gw, iface) \<Rightarrow>
         let host = host_prefix a
         in if occupied inp host then (taken, held, routes)
            else if taken (prefixKey host) \<noteq> None then (taken, insert a held, routes)
            else (taken(prefixKey host \<mapsto> \<lparr>cl_tunnel = ti_Name t, cl_pin = True, cl_refuse = False\<rparr>), insert a held,
                  routes @ [tunnel_route (route0\<lparr>rt_DstCIDR := prefix_string host, rt_Gateway := addr_string gw,
                              rt_Iface := iface, rt_Family := famOf a\<rparr>) (TunnelProfilePrefix @ ti_Name t) inp]))"

definition held_step :: "desired_input \<Rightarrow> addr set \<Rightarrow> addr \<Rightarrow> addr set" where
  "held_step inp held a = (if occupied inp (host_prefix a) then insert a held else held)"

definition pin_tunnel :: "desired_input \<Rightarrow> pin_state \<Rightarrow> tunnel_input \<Rightarrow> pin_state" where
  "pin_tunnel inp st t =
     (let (taken, held, routes) = foldl (pin_step inp t) st (ti_Bypass t)
      in (taken, foldl (held_step inp) held (servers t), routes))"

text \<open>
  The second loop, one listed destination: what goes to the tunnel's destinations, the reason it
  is reported blocked (empty for none), and what was kept out of it.
\<close>

record entry_plan =
  ep_fam :: family
  ep_parts :: "netprefix list"
  ep_why :: string
  ep_narrowed :: "tunnel_except list option"

definition tailscale_reason :: "netprefix \<Rightarrow> string \<Rightarrow> netprefix \<Rightarrow> string" where
  "tailscale_reason pfx why n =
     (if why = [] \<and> is4 (pfx_addr n) = is4 (pfx_addr pfx) \<and> pfx_bits n \<le> pfx_bits pfx \<and> contains n (pfx_addr pfx)
      then ''it's inside '' @ prefix_string n @ '', which Tailscale routes '' @ em_dash @ '' left to it''
      else why)"

definition carve_entry :: "desired_input \<Rightarrow> tunnel_input \<Rightarrow> tunnel_input list \<Rightarrow> addr set \<Rightarrow> claims \<Rightarrow> netprefix
    \<Rightarrow> netprefix list \<times> tunnel_except list" where
  "carve_entry inp t ts held taken pfx =
     (let others = othersInside pfx (ti_Name t) ts (in_Occupied inp);
          (parts, except) = carve pfx (keepOut pfx t ts held inp False) others taken
      in if ti_Block t \<and> (length parts = 0 \<or> length parts > maxCarved)
         then carve pfx (keepOut pfx t ts held inp True) others taken
         else (parts, except))"

definition entry_reason :: "desired_input \<Rightarrow> tunnel_input \<Rightarrow> claims \<Rightarrow> netprefix \<Rightarrow> bool \<Rightarrow> string" where
  "entry_reason inp t taken pfx noV6 =
     (let why = (if noV6 \<and> \<not> ti_Block t then ''the tunnel has no IPv6 address'' else []);
          why = (if why = [] then TunnelRouteBlock pfx inp else why);
          why = (case taken (prefixKey pfx) of
                   Some c \<Rightarrow> if why = [] then claim_reason c (ti_Name t) else why | None \<Rightarrow> why)
      in foldl (tailscale_reason pfx) why (in_Tailscale inp))"

definition plan_entry :: "desired_input \<Rightarrow> tunnel_input \<Rightarrow> tunnel_input list \<Rightarrow> addr set \<Rightarrow> claims \<Rightarrow> string \<Rightarrow> entry_plan option"
  where
  "plan_entry inp t ts held taken v =
     (case entryToPrefix v of
        None \<Rightarrow> None
      | Some (p0, fam) \<Rightarrow>
          let pfx = masked p0;
              noV6 = (ti_Iface t \<noteq> [] \<and> fam = FamilyV6 \<and> \<not> ti_V6 t);
              why = entry_reason inp t taken pfx noV6;
              (parts, why, narrowed) =
                (if why = [] \<and> keepOut pfx t ts held inp False \<noteq> [] then
                   let (parts, except) = carve_entry inp t ts held taken pfx
                   in if length parts = 0 then
                        (parts, ''nothing would be left once these are kept out: '' @ exceptText except, None)
                      else if length parts > maxCarved then
                        (parts, ''it would take '' @ decimal (length parts) @ '' routes to go around '' @ exceptText except
                           @ ''; list narrower networks'', None)
                      else (parts, [], Some except)
                 else ([pfx], why, None))
          in if why = [] \<and> noV6 then
               Some \<lparr>ep_fam = fam, ep_parts = parts,
                     ep_why = ''the tunnel has no IPv6 address, so it's refused (block when down)'', ep_narrowed = narrowed\<rparr>
             else if why \<noteq> [] then Some \<lparr>ep_fam = fam, ep_parts = [], ep_why = why, ep_narrowed = narrowed\<rparr>
             else Some \<lparr>ep_fam = fam, ep_parts = parts, ep_why = [], ep_narrowed = narrowed\<rparr>)"

definition entry_step :: "desired_input \<Rightarrow> tunnel_input \<Rightarrow> tunnel_input list \<Rightarrow> addr set \<Rightarrow> claims
    \<Rightarrow> (family \<Rightarrow> netprefix list) \<times> tunnel_plan \<Rightarrow> string \<Rightarrow> (family \<Rightarrow> netprefix list) \<times> tunnel_plan" where
  "entry_step inp t ts held taken = (\<lambda>(byFamily, tp) v.
     case plan_entry inp t ts held taken v of
       None \<Rightarrow> (byFamily, tp)
     | Some e \<Rightarrow>
         let n = ti_Name t;
             tp = (case ep_narrowed e of None \<Rightarrow> tp
                   | Some ex \<Rightarrow> tp\<lparr>tp_Narrowed := (tp_Narrowed tp)(n := tp_Narrowed tp n @ [\<lparr>tn_Route = v, tn_Except = ex\<rparr>])\<rparr>);
             tp = (if ep_why e = [] then tp
                   else tp\<lparr>tp_Blocked := (tp_Blocked tp)(n := tp_Blocked tp n @ [\<lparr>tb_Route = v, tb_Reason = ep_why e\<rparr>])\<rparr>)
         in (byFamily(ep_fam e := byFamily (ep_fam e) @ ep_parts e), tp))"

definition install_one :: "desired_input \<Rightarrow> tunnel_input \<Rightarrow> family \<Rightarrow> bool \<Rightarrow> claims \<times> tunnel_plan \<Rightarrow> netprefix
    \<Rightarrow> claims \<times> tunnel_plan" where
  "install_one inp t fam refuse = (\<lambda>(taken, tp) pfx.
     let rt = route0\<lparr>rt_DstCIDR := prefix_string pfx, rt_Family := fam\<rparr>;
         rt = (if refuse then rt\<lparr>rt_Reject := True\<rparr> else rt\<lparr>rt_Iface := ti_Iface t\<rparr>)
     in (taken(prefixKey pfx \<mapsto> \<lparr>cl_tunnel = ti_Name t, cl_pin = False, cl_refuse = refuse\<rparr>),
         tp\<lparr>tp_nets := tp_nets tp @ [pfx],
            tp_Routes := tp_Routes tp @ [tunnel_route rt (TunnelProfilePrefix @ ti_Name t) inp]\<rparr>))"

definition install_family :: "desired_input \<Rightarrow> tunnel_input \<Rightarrow> (family \<Rightarrow> netprefix list) \<Rightarrow> claims \<times> tunnel_plan \<Rightarrow> family
    \<Rightarrow> claims \<times> tunnel_plan" where
  "install_family inp t byFamily st fam =
     foldl (install_one inp t fam (ti_Iface t = [] \<or> (fam = FamilyV6 \<and> \<not> ti_V6 t))) st
       (unclaimedAggregate (byFamily fam) (fst st))"

definition plan_tunnel :: "desired_input \<Rightarrow> tunnel_input list \<Rightarrow> addr set \<Rightarrow> claims \<times> tunnel_plan \<Rightarrow> tunnel_input
    \<Rightarrow> claims \<times> tunnel_plan" where
  "plan_tunnel inp ts held = (\<lambda>(taken, tp) t.
     let (byFamily, tp) = foldl (entry_step inp t ts held taken) (\<lambda>_. [], tp) (ti_Routes t)
     in if ti_Iface t = [] \<and> \<not> ti_Block t then (taken, tp)
        else foldl (install_family inp t byFamily) (taken, tp) [FamilyV4, FamilyV6])"

definition tunnel_order :: "desired_input \<Rightarrow> tunnel_input list" where
  "tunnel_order inp = sort_key (\<lambda>t. (ti_Iface t = [], ti_Name t)) (in_Tunnels inp)"

definition plan_pins :: "desired_input \<Rightarrow> pin_state" where
  "plan_pins inp = foldl (pin_tunnel inp) (Map.empty, {}, []) (tunnel_order inp)"

definition PlanTunnels :: "desired_input \<Rightarrow> tunnel_plan" where
  "PlanTunnels inp =
     (let ts = tunnel_order inp; (taken, held, routes) = plan_pins inp;
          tp = \<lparr>tp_Routes = routes, tp_Blocked = (\<lambda>_. []), tp_Narrowed = (\<lambda>_. []), tp_nets = []\<rparr>
      in snd (foldl (plan_tunnel inp ts held) (taken, tp) ts))"

section \<open>Facts about the plan\<close>

text \<open>The invariant of one destination a tunnel may install.\<close>

definition good_part :: "desired_input \<Rightarrow> tunnel_input list \<Rightarrow> addr set \<Rightarrow> claims \<Rightarrow> family \<Rightarrow> netprefix \<Rightarrow> bool" where
  "good_part inp ts held taken fam p \<longleftrightarrow> masked_net p \<and> famOf (pfx_addr p) = fam \<and> taken (prefixKey p) = None
     \<and> (\<forall>a \<in> covers p. \<not> guarded inp ts held a)"

lemma covers_famOf: "a \<in> covers p \<Longrightarrow> famOf (pfx_addr p) = famOf a"
  by (simp add: covers_def contains_iff famOf_def is6_iff)

lemma subset_famOf:
  assumes "covers p \<subseteq> covers q" "is_valid p"
  shows "famOf (pfx_addr p) = famOf (pfx_addr q)"
proof -
  obtain a where "a \<in> covers p" using covers_nonempty[OF assms(2)] by blast
  then show ?thesis using covers_famOf[of a p] covers_famOf[of a q] assms(1) by auto
qed

lemma carve_entry_good:
  assumes "masked_net pfx" and "p \<in> set (fst (carve_entry inp t ts held taken pfx))"
  shows "good_part inp ts held taken (famOf (pfx_addr pfx)) p"
proof -
  let ?others = "othersInside pfx (ti_Name t) ts (in_Occupied inp)"
  obtain e where p: "p \<in> set (fst (carve pfx (keepOut pfx t ts held inp e) ?others taken))"
  proof -
    have "carve_entry inp t ts held taken pfx = carve pfx (keepOut pfx t ts held inp True) ?others taken
        \<or> carve_entry inp t ts held taken pfx = carve pfx (keepOut pfx t ts held inp False) ?others taken"
      by (simp add: carve_entry_def Let_def split: prod.split)
    then show thesis using assms(2) that by metis
  qed
  have k: "contains pfx (ko_addr k) \<and> (is_valid (ko_net k) \<longrightarrow> contains (ko_net k) (ko_addr k))"
    if "k \<in> set (keepOut pfx t ts held inp e)" for k
    using keepOut_props[OF that] by blast
  note c = carve_parts[OF assms(1) k p]
  have "\<not> guarded inp ts held a" if a: "a \<in> covers p" for a
  proof
    assume g: "guarded inp ts held a"
    have "contains pfx a" using a c(2) by (auto simp: covers_def)
    then obtain k where "k \<in> set (keepOut pfx t ts held inp e)" "ko_addr k = a"
      using guarded_kept[OF _ g] by blast
    then show False using c(4) a by blast
  qed
  then show ?thesis
    using c(1-3) subset_famOf[OF c(2)] by (auto simp: good_part_def)
qed

lemma entry_reason_claimed:
  assumes "entry_reason inp t taken pfx b = []"
  shows "taken (prefixKey pfx) = None"
proof (rule ccontr)
  assume "taken (prefixKey pfx) \<noteq> None"
  then obtain c where c: "taken (prefixKey pfx) = Some c" by blast
  have ts: "foldl (tailscale_reason pfx) w ns = w" if "w \<noteq> []" for w ns
    using that by (induction ns) (auto simp: tailscale_reason_def)
  have "claim_reason c (ti_Name t) \<noteq> []" by (simp add: claim_reason_def)
  then show False using assms c ts by (auto simp: entry_reason_def Let_def split: if_splits)
qed

lemma plan_entry_good:
  assumes "plan_entry inp t ts held taken v = Some e" and "p \<in> set (ep_parts e)"
  shows "good_part inp ts held taken (ep_fam e) p"
proof -
  obtain p0 fam where v: "entryToPrefix v = Some (p0, fam)"
    using assms(1) by (auto simp: plan_entry_def split: option.splits)
  then have p0: "is_valid p0" "fam = famOf (pfx_addr p0)" using entryToPrefix_valid by blast+
  let ?pfx = "masked p0" and ?noV6 = "ti_Iface t \<noteq> [] \<and> fam = FamilyV6 \<and> \<not> ti_V6 t"
  have m: "masked_net ?pfx" "famOf (pfx_addr ?pfx) = fam" using p0 by simp_all
  have fam: "ep_fam e = fam"
    using assms(1) v by (auto simp: plan_entry_def Let_def split: prod.splits if_splits)
  show ?thesis
  proof (cases "entry_reason inp t taken ?pfx ?noV6 = [] \<and> keepOut ?pfx t ts held inp False \<noteq> []")
    case True
    then have "p \<in> set (fst (carve_entry inp t ts held taken ?pfx))"
      using assms v by (auto simp: plan_entry_def Let_def split: prod.splits if_splits)
    then show ?thesis using carve_entry_good[OF m(1)] m(2) fam by simp
  next
    case False
    then have r: "entry_reason inp t taken ?pfx ?noV6 = []" "p = ?pfx"
      using assms v by (auto simp: plan_entry_def Let_def split: if_splits)
    with False have "keepOut ?pfx t ts held inp False = []" by blast
    then have "\<not> guarded inp ts held a" if "a \<in> covers ?pfx" for a
      using guarded_kept[of ?pfx a inp ts held t False] that by (auto simp: covers_def)
    then show ?thesis using m r fam entry_reason_claimed[OF r(1)] by (simp add: good_part_def)
  qed
qed

lemma entries_good:
  assumes "foldl (entry_step inp t ts held taken) (\<lambda>_. [], tp) vs = (byFamily, tp')"
  shows "(\<forall>fam. \<forall>p \<in> set (byFamily fam). good_part inp ts held taken fam p)
    \<and> tp_Routes tp' = tp_Routes tp \<and> tp_nets tp' = tp_nets tp"
proof -
  have step: "(\<forall>fam. \<forall>p \<in> set (fst (entry_step inp t ts held taken st v) fam). good_part inp ts held taken fam p)
      \<and> tp_Routes (snd (entry_step inp t ts held taken st v)) = tp_Routes (snd st)
      \<and> tp_nets (snd (entry_step inp t ts held taken st v)) = tp_nets (snd st)"
    if "\<forall>fam. \<forall>p \<in> set (fst st fam). good_part inp ts held taken fam p" for st v
    using that plan_entry_good[of inp t ts held taken v]
    by (auto simp: entry_step_def Let_def split: prod.splits option.splits)
  have "(\<forall>fam. \<forall>p \<in> set (fst (foldl (entry_step inp t ts held taken) st vs) fam). good_part inp ts held taken fam p)
      \<and> tp_Routes (snd (foldl (entry_step inp t ts held taken) st vs)) = tp_Routes (snd st)
      \<and> tp_nets (snd (foldl (entry_step inp t ts held taken) st vs)) = tp_nets (snd st)"
    if "\<forall>fam. \<forall>p \<in> set (fst st fam). good_part inp ts held taken fam p" for st
    using that
  proof (induction vs arbitrary: st)
    case (Cons v vs)
    from step[OF Cons.prems, of v] Cons.IH[of "entry_step inp t ts held taken st v"] show ?case by simp
  qed simp
  from this[of "(\<lambda>_. [], tp)"] assms show ?thesis by simp
qed

subsection \<open>Aggregating the unclaimed\<close>

lemma set_dedup_id: "set (dedup_by id {} xs) = set xs"
  using dedup_by_keys[of id "{}" xs] by simp

lemma unclaimed_mem:
  assumes "q \<in> set (unclaimedAggregate ps taken)"
  shows "q \<in> set ps \<or> q \<in> set (Aggregate ps) \<and> taken (prefixKey q) = None"
  using assms by (auto simp: unclaimedAggregate_def set_dedup_id split: if_splits)

lemma unclaimed_good:
  assumes "\<forall>p \<in> set ps. good_part inp ts held taken fam p" and "q \<in> set (unclaimedAggregate ps taken)"
  shows "good_part inp ts held taken fam q"
  using unclaimed_mem[OF assms(2)]
proof
  assume q: "q \<in> set (Aggregate ps) \<and> taken (prefixKey q) = None"
  then have m: "masked_net q" and sub: "covers q \<subseteq> covers_all ps"
    using agg.agg_nets[of ps] agg.agg_covers[of ps] by (auto simp: covers_all_def)
  obtain a where a: "a \<in> covers q" using masked_net_covers_nonempty[OF m] by blast
  then obtain p where p: "p \<in> set ps" "a \<in> covers p" using sub by (auto simp: covers_all_def)
  have "famOf (pfx_addr q) = fam"
    using covers_famOf[OF a] covers_famOf[OF p(2)] assms(1) p(1) by (auto simp: good_part_def)
  moreover have "\<not> guarded inp ts held b" if "b \<in> covers q" for b
    using that sub assms(1) by (auto simp: covers_all_def good_part_def)
  ultimately show ?thesis using q m by (simp add: good_part_def)
qed (use assms(1) in blast)



subsection \<open>Installing\<close>

lemma install_foldl:
  "foldl (install_one inp t fam refuse) (taken, tp) qs =
     (\<lambda>k. if k \<in> prefixKey ` set qs then Some \<lparr>cl_tunnel = ti_Name t, cl_pin = False, cl_refuse = refuse\<rparr> else taken k,
      tp\<lparr>tp_nets := tp_nets tp @ qs,
         tp_Routes := tp_Routes tp @ map (\<lambda>q. tunnel_route
           (if refuse then route0\<lparr>rt_DstCIDR := prefix_string q, rt_Family := fam, rt_Reject := True\<rparr>
            else route0\<lparr>rt_DstCIDR := prefix_string q, rt_Family := fam, rt_Iface := ti_Iface t\<rparr>)
           (TunnelProfilePrefix @ ti_Name t) inp) qs\<rparr>)"
proof (induction qs arbitrary: taken tp)
  case (Cons q qs)
  then show ?case by (auto simp: install_one_def Let_def fun_eq_iff)
qed simp

abbreviation dst_of :: "managed_route \<Rightarrow> string" where
  "dst_of r \<equiv> dstKey (mr_Route r)"

text \<open>Every planned route has a key that is claimed, no two the same; no routed network holds a guarded address.\<close>

definition plan_inv :: "desired_input \<Rightarrow> tunnel_input list \<Rightarrow> addr set \<Rightarrow> claims \<times> tunnel_plan \<Rightarrow> bool" where
  "plan_inv inp ts held st \<longleftrightarrow> distinct (map dst_of (tp_Routes (snd st)))
     \<and> dst_of ` set (tp_Routes (snd st)) \<subseteq> dom (fst st)
     \<and> (\<forall>n \<in> set (tp_nets (snd st)). masked_net n \<and> (\<forall>a \<in> covers n. \<not> guarded inp ts held a))
     \<and> (\<forall>r \<in> set (tp_Routes (snd st)). rt_Gateway (mr_Route r) = [] \<longrightarrow>
          (\<exists>n \<in> set (tp_nets (snd st)). rt_DstCIDR (mr_Route r) = prefix_string n))"

lemma dst_tunnel_route:
  assumes "masked_net q" "famOf (pfx_addr q) = fam"
  shows "dst_of (tunnel_route (route0\<lparr>rt_DstCIDR := prefix_string q, rt_Family := fam, rt_Reject := True\<rparr>) tag inp) = prefixKey q"
    "dst_of (tunnel_route (route0\<lparr>rt_DstCIDR := prefix_string q, rt_Family := fam, rt_Iface := i\<rparr>) tag inp) = prefixKey q"
  using assms by (simp_all add: tunnel_route_def dstKey_def prefixKey_def route0_def masked_net_def)

lemma install_family_inv:
  assumes "plan_inv inp ts held st" and "\<forall>p \<in> set (byFamily fam). good_part inp ts held (fst st) fam p"
  shows "plan_inv inp ts held (install_family inp t byFamily st fam)"
    "\<And>k. fst (install_family inp t byFamily st fam) k \<noteq> fst st k \<Longrightarrow> take 2 k = fam"
proof -
  let ?qs = "unclaimedAggregate (byFamily fam) (fst st)" and ?ref = "ti_Iface t = [] \<or> (fam = FamilyV6 \<and> \<not> ti_V6 t)"
  have good: "good_part inp ts held (fst st) fam q" if "q \<in> set ?qs" for q
    using unclaimed_good[OF assms(2) that] .
  have dk: "dst_of (tunnel_route
      (if ?ref then route0\<lparr>rt_DstCIDR := prefix_string q, rt_Family := fam, rt_Reject := True\<rparr>
       else route0\<lparr>rt_DstCIDR := prefix_string q, rt_Family := fam, rt_Iface := ti_Iface t\<rparr>) tag inp) = prefixKey q"
    if "q \<in> set ?qs" for q tag
    using good[OF that] dst_tunnel_route[of q fam] by (simp add: good_part_def)
  have inj: "inj_on prefixKey (set ?qs)"
    using good prefixKey_inject by (intro inj_onI) (auto simp: good_part_def masked_net_def)
  have dist: "distinct (map prefixKey ?qs)"
    using inj dedup_by_distinct[of id "{}"] by (simp add: distinct_map unclaimedAggregate_def)
  have e: "install_family inp t byFamily st fam = foldl (install_one inp t fam ?ref) (fst st, snd st) ?qs"
    by (simp add: install_family_def)
  have routes: "map dst_of (tp_Routes (snd (install_family inp t byFamily st fam)))
      = map dst_of (tp_Routes (snd st)) @ map prefixKey ?qs"
    unfolding e install_foldl using dk by simp
  have fresh: "set (map dst_of (tp_Routes (snd st))) \<inter> set (map prefixKey ?qs) = {}"
    using assms(1) good by (fastforce simp: plan_inv_def good_part_def)
  have taken: "fst (install_family inp t byFamily st fam) =
      (\<lambda>k. if k \<in> prefixKey ` set ?qs then Some \<lparr>cl_tunnel = ti_Name t, cl_pin = False, cl_refuse = ?ref\<rparr> else fst st k)"
    unfolding e install_foldl by simp
  have nets: "tp_nets (snd (install_family inp t byFamily st fam)) = tp_nets (snd st) @ ?qs"
    unfolding e install_foldl by simp
  have "dst_of ` set (tp_Routes (snd (install_family inp t byFamily st fam))) = set (map dst_of (tp_Routes (snd st)) @ map prefixKey ?qs)"
    using arg_cong[OF routes, of set] by simp
  then have "dst_of ` set (tp_Routes (snd (install_family inp t byFamily st fam))) \<subseteq> dom (fst (install_family inp t byFamily st fam))"
    using assms(1) unfolding taken by (auto simp: plan_inv_def dom_def)
  moreover have "distinct (map dst_of (tp_Routes (snd (install_family inp t byFamily st fam))))"
    unfolding routes using assms(1) dist fresh by (simp add: plan_inv_def)
  moreover have "\<forall>n \<in> set (tp_nets (snd (install_family inp t byFamily st fam))). masked_net n \<and> (\<forall>a \<in> covers n. \<not> guarded inp ts held a)"
    unfolding nets using assms(1) good by (auto simp: plan_inv_def good_part_def)
  moreover have "\<forall>r \<in> set (tp_Routes (snd (install_family inp t byFamily st fam))). rt_Gateway (mr_Route r) = [] \<longrightarrow>
      (\<exists>n \<in> set (tp_nets (snd (install_family inp t byFamily st fam))). rt_DstCIDR (mr_Route r) = prefix_string n)"
    unfolding nets using assms(1) unfolding e install_foldl by (auto simp: plan_inv_def tunnel_route_def)
  ultimately show "plan_inv inp ts held (install_family inp t byFamily st fam)" unfolding plan_inv_def by blast
  show "take 2 k = fam" if "fst (install_family inp t byFamily st fam) k \<noteq> fst st k" for k
  proof -
    from that obtain q where q: "q \<in> set ?qs" "k = prefixKey q" unfolding taken by (auto split: if_splits)
    then show ?thesis using good[OF q(1)] famOf_cases[of "pfx_addr q"] by (auto simp: good_part_def prefixKey_def)
  qed
qed

lemma prefixKey_family: "take 2 (prefixKey p) = famOf (pfx_addr p)"
  using famOf_cases[of "pfx_addr p"] by (auto simp: prefixKey_def)

lemma plan_tunnel_inv:
  assumes "plan_inv inp ts held st"
  shows "plan_inv inp ts held (plan_tunnel inp ts held st t)"
proof -
  obtain taken tp where st: "st = (taken, tp)" by force
  obtain byFamily tp' where f: "foldl (entry_step inp t ts held taken) (\<lambda>_. [], tp) (ti_Routes t) = (byFamily, tp')"
    by force
  note g = entries_good[OF f]
  have i: "plan_inv inp ts held (taken, tp')" using assms g st by (simp add: plan_inv_def)
  let ?s4 = "install_family inp t byFamily (taken, tp') FamilyV4"
  have g4: "\<forall>p \<in> set (byFamily FamilyV4). good_part inp ts held (fst (taken, tp')) FamilyV4 p" using g by simp
  note i4 = install_family_inv[where fam = FamilyV4 and byFamily = byFamily and st = "(taken, tp')", OF i g4, of t]
  have g6: "\<forall>p \<in> set (byFamily FamilyV6). good_part inp ts held (fst ?s4) FamilyV6 p"
  proof
    fix p assume "p \<in> set (byFamily FamilyV6)"
    then have p: "good_part inp ts held taken FamilyV6 p" using g by blast
    then have "take 2 (prefixKey p) = FamilyV6" by (simp add: prefixKey_family good_part_def)
    then have "fst ?s4 (prefixKey p) = taken (prefixKey p)" using i4(2)[of "prefixKey p"] by auto
    with p show "good_part inp ts held (fst ?s4) FamilyV6 p" by (simp add: good_part_def)
  qed
  show ?thesis
    using install_family_inv(1)[where fam = FamilyV6 and byFamily = byFamily and st = ?s4, OF i4(1) g6, of t] i f st by (simp add: plan_tunnel_def)
qed

subsection \<open>Pins\<close>

definition pinned :: "desired_input \<Rightarrow> managed_route list \<Rightarrow> addr \<Rightarrow> bool" where
  "pinned inp routes a \<longleftrightarrow> (\<exists>r \<in> set routes. rt_DstCIDR (mr_Route r) = prefix_string (host_prefix a)
     \<and> rt_Family (mr_Route r) = famOf a
     \<and> rt_Gateway (mr_Route r) = addr_string (if famOf a = FamilyV6 then in_GatewayV6 inp else in_GatewayV4 inp)
     \<and> rt_Iface (mr_Route r) = (if famOf a = FamilyV6 then in_PhysIfaceV6 inp else in_PhysIfaceV4 inp))"

definition pin_inv :: "desired_input \<Rightarrow> pin_state \<Rightarrow> bool" where
  "pin_inv inp = (\<lambda>(taken, held, routes). distinct (map dst_of routes) \<and> dst_of ` set routes \<subseteq> dom taken
     \<and> (\<forall>a. taken (prefixKey (host_prefix a)) \<noteq> None \<longrightarrow> pinned inp routes a)
     \<and> (\<forall>a \<in> held. occupied inp (host_prefix a) \<or> pinned inp routes a)
     \<and> (\<forall>r \<in> set routes. rt_Gateway (mr_Route r) \<noteq> []))"

lemma addr_string_nonempty: "addr_string a \<noteq> []"
proof (cases "a = AddrZero")
  case False
  then have "parse_addr (addr_string a) \<noteq> parse_addr []" using parse_addr_string[OF False] by (simp add: parse_addr_def)
  then show ?thesis by metis
qed simp

lemma prefixKey_host: "prefixKey (host_prefix a) = famOf a @ ''||'' @ prefix_string (host_prefix a)"
proof (cases "a = AddrZero")
  case True
  then show ?thesis
    by (simp add: prefixKey_def host_prefix_def prefix_from_def famOf_def masked_def is_valid_def prefix_string_def prefix_zero_def)
next
  case False
  then show ?thesis using host_prefix_valid(2,4)[OF False] by (simp only: prefixKey_def)
qed

lemma prefixKey_host_eq:
  "prefixKey (host_prefix a) = prefixKey (host_prefix b) \<longleftrightarrow> famOf a = famOf b \<and> prefix_string (host_prefix a) = prefix_string (host_prefix b)"
  unfolding prefixKey_host using famOf_cases[of a] famOf_cases[of b] by auto

lemma pinned_mono: "pinned inp routes a \<Longrightarrow> pinned inp (routes @ rs) a"
  by (auto simp: pinned_def)

lemma resolve_auto:
  "resolveGateway ''auto'' (famOf a) inp = Inr (gw, iface) \<Longrightarrow>
     gw = (if famOf a = FamilyV6 then in_GatewayV6 inp else in_GatewayV4 inp)
     \<and> iface = (if famOf a = FamilyV6 then in_PhysIfaceV6 inp else in_PhysIfaceV4 inp)"
  by (auto simp: resolveGateway_def Let_def split: if_splits)

lemma pin_step_inv:
  assumes "pin_inv inp st"
  shows "pin_inv inp (pin_step inp t st a)"
proof -
  obtain taken held routes where st: "st = (taken, held, routes)" using prod_cases3 by blast
  show ?thesis
  proof (cases "resolveGateway ''auto'' (famOf a) inp")
    case (Inl e)
    then show ?thesis using assms st by (simp add: pin_step_def)
  next
    case (Inr x)
    obtain gw iface where x: "x = (gw, iface)" by force
    let ?h = "host_prefix a"
    let ?r = "tunnel_route (route0\<lparr>rt_DstCIDR := prefix_string ?h, rt_Gateway := addr_string gw,
      rt_Iface := iface, rt_Family := famOf a\<rparr>) (TunnelProfilePrefix @ ti_Name t) inp"
    note gw = resolve_auto[OF Inr[unfolded x]]
    consider "occupied inp ?h" | "\<not> occupied inp ?h" "taken (prefixKey ?h) \<noteq> None"
      | "\<not> occupied inp ?h" "taken (prefixKey ?h) = None" by blast
    then show ?thesis
    proof cases
      case 1
      then show ?thesis using Inr x assms st by (simp add: pin_step_def Let_def)
    next
      case 2
      then have "pin_step inp t st a = (taken, insert a held, routes)" using Inr x st by (auto simp: pin_step_def Let_def)
      then show ?thesis using assms st 2 by (auto simp: pin_inv_def)
    next
      case 3
      then have e: "pin_step inp t st a =
          (taken(prefixKey ?h \<mapsto> \<lparr>cl_tunnel = ti_Name t, cl_pin = True, cl_refuse = False\<rparr>), insert a held, routes @ [?r])"
        using Inr x st by (simp add: pin_step_def Let_def)
      have dk: "dst_of ?r = prefixKey ?h" unfolding prefixKey_host by (simp add: tunnel_route_def dstKey_def route0_def)
      have pr: "pinned inp (routes @ [?r]) b" if "prefixKey (host_prefix b) = prefixKey ?h" for b
        using that gw unfolding prefixKey_host_eq pinned_def by (auto simp: tunnel_route_def)
      have "prefixKey ?h \<notin> dst_of ` set routes" using assms st 3 by (auto simp: pin_inv_def)
      moreover have "rt_Gateway (mr_Route ?r) \<noteq> []" by (simp add: tunnel_route_def addr_string_nonempty)
      ultimately show ?thesis
        unfolding e using assms st dk pr pinned_mono by (auto simp: pin_inv_def)
    qed
  qed
qed

lemma pin_tunnel_inv:
  assumes "pin_inv inp st"
  shows "pin_inv inp (pin_tunnel inp st t)"
proof -
  have f: "pin_inv inp (foldl (pin_step inp t) st as)" if "pin_inv inp st" for st as
    using that by (induction as arbitrary: st) (simp_all add: pin_step_inv)
  obtain taken held routes where e: "foldl (pin_step inp t) st (ti_Bypass t) = (taken, held, routes)"
    using prod_cases3 by blast
  have i: "pin_inv inp (taken, held, routes)" using f[OF assms, of "ti_Bypass t"] e by simp
  have h: "pin_inv inp (taken, held_step inp held a, routes)" if "pin_inv inp (taken, held, routes)" for held a
    using that by (simp add: held_step_def pin_inv_def)
  have "pin_inv inp (taken, foldl (held_step inp) held as, routes)" if "pin_inv inp (taken, held, routes)" for held as
    using that by (induction as arbitrary: held) (simp_all add: h)
  then show ?thesis using i e by (simp add: pin_tunnel_def)
qed

lemma plan_pins_inv: "pin_inv inp (plan_pins inp)"
proof -
  have "pin_inv inp (foldl (pin_tunnel inp) st ts)" if "pin_inv inp st" for st ts
    using that by (induction ts arbitrary: st) (simp_all add: pin_tunnel_inv)
  then show ?thesis by (simp add: plan_pins_def) (simp add: pin_inv_def)
qed

lemma PlanTunnels_inv:
  assumes "plan_pins inp = (taken, held, routes)"
  shows "\<exists>taken'. plan_inv inp (tunnel_order inp) held (taken', PlanTunnels inp)"
    "\<exists>rs. tp_Routes (PlanTunnels inp) = routes @ rs"
proof -
  let ?tp = "\<lparr>tp_Routes = routes, tp_Blocked = (\<lambda>_. []), tp_Narrowed = (\<lambda>_. []), tp_nets = []\<rparr>"
    and ?ts = "tunnel_order inp"
  have P: "PlanTunnels inp = snd (foldl (plan_tunnel inp ?ts held) (taken, ?tp) ?ts)"
    by (simp add: PlanTunnels_def assms Let_def)
  have f: "plan_inv inp ?ts held (foldl (plan_tunnel inp ?ts held) st us)" if "plan_inv inp ?ts held st" for st us
    using that by (induction us arbitrary: st) (simp_all add: plan_tunnel_inv)
  have "plan_inv inp ?ts held (taken, ?tp)"
    using plan_pins_inv[of inp] assms by (auto simp: pin_inv_def plan_inv_def)
  from f[OF this, of ?ts] show "\<exists>taken'. plan_inv inp ?ts held (taken', PlanTunnels inp)"
    unfolding P by (metis prod.collapse)
  have fam: "\<exists>rs. tp_Routes (snd (install_family inp t b st fam)) = tp_Routes (snd st) @ rs" for t b st fam
    by (cases st) (simp add: install_family_def install_foldl)
  have one: "\<exists>rs. tp_Routes (snd (plan_tunnel inp ?ts held st t)) = tp_Routes (snd st) @ rs" for st t
  proof -
    obtain taken tp where st: "st = (taken, tp)" by force
    obtain byFamily tp' where e: "foldl (entry_step inp t ?ts held taken) (\<lambda>_. [], tp) (ti_Routes t) = (byFamily, tp')"
      by force
    from entries_good[OF e] have r: "tp_Routes tp' = tp_Routes tp" by blast
    obtain r4 where r4: "tp_Routes (snd (install_family inp t byFamily (taken, tp') FamilyV4)) = tp_Routes tp' @ r4"
      using fam[of t byFamily "(taken, tp')" FamilyV4] by auto
    obtain r6 where "tp_Routes (snd (install_family inp t byFamily (install_family inp t byFamily (taken, tp') FamilyV4) FamilyV6))
        = tp_Routes tp' @ r4 @ r6"
      using fam[of t byFamily "install_family inp t byFamily (taken, tp') FamilyV4" FamilyV6] r4 by auto
    then show ?thesis using st e r by (auto simp: plan_tunnel_def)
  qed
  have "\<exists>rs. tp_Routes (snd (foldl (plan_tunnel inp ?ts held) st us)) = tp_Routes (snd st) @ rs" for st us
  proof (induction us arbitrary: st)
    case (Cons u us)
    obtain r1 where "tp_Routes (snd (plan_tunnel inp ?ts held st u)) = tp_Routes (snd st) @ r1" using one by blast
    with Cons[of "plan_tunnel inp ?ts held st u"] show ?case by auto
  qed simp
  from this[of "(taken, ?tp)" ?ts] show "\<exists>rs. tp_Routes (PlanTunnels inp) = routes @ rs" unfolding P by simp
qed

lemma tunnel_order_set [simp]: "set (tunnel_order inp) = set (in_Tunnels inp)"
  by (simp add: tunnel_order_def)

lemma planned_unguarded:
  assumes "plan_pins inp = (taken, held, routes)"
    and "r \<in> set (tp_Routes (PlanTunnels inp))" and "rt_Gateway (mr_Route r) = []"
    and "parse_prefix (rt_DstCIDR (mr_Route r)) = Some p" and "a \<in> covers p"
  shows "\<not> guarded inp (tunnel_order inp) held a"
proof -
  from PlanTunnels_inv(1)[OF assms(1)] assms(2,3) obtain n where n: "rt_DstCIDR (mr_Route r) = prefix_string n" "masked_net n"
      "\<forall>a \<in> covers n. \<not> guarded inp (tunnel_order inp) held a"
    by (auto simp: plan_inv_def)
  have "p = n" using n assms(4) parse_prefix_string[of n] by (simp add: masked_net_valid)
  then show ?thesis using n(3) assms(5) by blast
qed

text \<open>
  A running tunnel for 10.0.0.0/8 whose server is 10.0.0.2, on a network whose router is
  192.168.1.1: the server gets a pin, the network goes into the tunnel.
\<close>

definition demo_tunnel :: tunnel_input where
  "demo_tunnel = \<lparr>ti_Name = ''t'', ti_Iface = ''utun9'', ti_V6 = False, ti_Block = False,
     ti_Routes = [''10.0.0.0/8''], ti_Bypass = [Addr4 0x0A000002], ti_Servers = []\<rparr>"

definition demo_input :: desired_input where
  "demo_input = input0\<lparr>in_GatewayV4 := Addr4 0xC0A80101, in_PhysIfaceV4 := ''en0'', in_Tunnels := [demo_tunnel]\<rparr>"

definition demo_route :: managed_route where
  "demo_route = tunnel_route (route0\<lparr>rt_DstCIDR := ''10.0.0.0/8'', rt_Family := FamilyV4, rt_Iface := ''utun9''\<rparr>)
     ''tunnel:t'' demo_input"

lemma demo_planned: "demo_route \<in> set (tp_Routes (PlanTunnels demo_input))"
  by code_simp

lemma demo_parse: "parse_prefix (rt_DstCIDR (mr_Route demo_route)) = Some (NetPrefix (Addr4 0x0A000000) 8)"
  by code_simp

lemma demo_covers: "Addr4 0x0A000002 \<in> covers (NetPrefix (Addr4 0x0A000000) 8)"
proof -
  have "contains (NetPrefix (Addr4 0x0A000000) 8) (Addr4 0x0A000002)" by code_simp
  then show ?thesis by (simp add: covers_def)
qed

section \<open>Properties\<close>

text \<open>
  C15.  No two planned routes have the same destination, whatever the tunnels list: the kernel keeps
  one route per destination, so one tunnel can never displace another's route.
\<close>

theorem PlanTunnels_one_route_per_destination:
  "distinct (map (\<lambda>r. dstKey (mr_Route r)) (tp_Routes (PlanTunnels inp)))"
proof -
  obtain taken held routes where p: "plan_pins inp = (taken, held, routes)" using prod_cases3 by blast
  from PlanTunnels_inv(1)[OF p] show ?thesis by (auto simp: plan_inv_def)
qed

text \<open>
  C16.  No route into a tunnel and no refusal covers the router: the addresses of a planned route
  without a gateway never include the physical gateway of their family.
\<close>

theorem PlanTunnels_spares_router:
  assumes "r \<in> set (tp_Routes (PlanTunnels inp))" and "rt_Gateway (mr_Route r) = []"
    and "parse_prefix (rt_DstCIDR (mr_Route r)) = Some p" and "a \<in> covers p"
  shows "a \<noteq> (if is6 a then with_zone (in_GatewayV6 inp) [] else in_GatewayV4 inp)"
proof -
  obtain taken held routes where pp: "plan_pins inp = (taken, held, routes)" using prod_cases3 by blast
  have "\<not> guarded inp (tunnel_order inp) held a" using planned_unguarded[OF pp assms(1-4)] .
  then show ?thesis unfolding guarded_def by metis
qed

theorem PlanTunnels_spares_router_witness:
  "demo_route \<in> set (tp_Routes (PlanTunnels demo_input))
    \<and> Addr4 0x0A000002 \<noteq> (if is6 (Addr4 0x0A000002) then with_zone (in_GatewayV6 demo_input) [] else in_GatewayV4 demo_input)"
  using demo_planned PlanTunnels_spares_router[OF demo_planned _ demo_parse demo_covers]
  by (simp add: demo_route_def tunnel_route_def route0_def)




end
