(* ===== verification/Beside.thy ===== *)
theory Beside
  imports Tunnels
begin

text \<open>
  How the tunnels' plan meets the rest of a desired set (\<^verbatim>\<open>internal/routing/tunnels.go\<close>): \<open>place\<close>
  adds the planned routes whose destination is free, \<open>Beside\<close> and \<open>RulesBeside\<close> make the other
  routes and the include rules yield to the tunnels' networks, \<open>AppRuleCaptures\<close> reports the app
  rules that cannot.  The lemmas on rule keys are shared with the engine.
\<close>

section \<open>Placing the plan in a desired set\<close>

text \<open>
  \<^verbatim>\<open>addRoute\<close> threads the set of seen keys and the list of routes; the flag says whether the
  route was new.
\<close>

definition addRoute :: "string set \<Rightarrow> managed_route list \<Rightarrow> route \<Rightarrow> string \<Rightarrow> time
    \<Rightarrow> string set \<times> managed_route list \<times> bool" where
  "addRoute seen out rt profile now =
     (let k = RouteKey rt
      in if k \<in> seen then (seen, out, False)
         else (insert k seen, out @ [\<lparr>mr_Route = rt, mr_ProfileID = profile, mr_CreatedAt = now\<rparr>], True))"

definition place_step :: "string set \<times> string set \<times> managed_route list \<Rightarrow> managed_route
    \<Rightarrow> string set \<times> string set \<times> managed_route list" where
  "place_step = (\<lambda>(taken, seen, routes) r.
     let k = dstKey (mr_Route r)
     in if k \<in> taken then (taken, seen, routes)
        else let (seen, routes, _) = addRoute seen routes (mr_Route r) (mr_ProfileID r) (mr_CreatedAt r)
          in (insert k taken, seen, routes))"

definition place :: "tunnel_plan \<Rightarrow> string set \<Rightarrow> managed_route list \<Rightarrow> string set \<times> managed_route list" where
  "place tp seen routes =
     snd (foldl place_step (set (map (\<lambda>r. dstKey (mr_Route r)) routes), seen, routes) (tp_Routes tp))"

definition beside_kept :: "tunnel_plan \<Rightarrow> managed_route \<Rightarrow> bool" where
  "beside_kept tp r \<longleftrightarrow>
     (case parse_prefix (rt_DstCIDR (mr_Route r)) of
        None \<Rightarrow> True
      | Some pfx \<Rightarrow> \<not> (rt_Table (mr_Route r) = [] \<and> outsideTunnels [pfx] (tp_nets tp) = []))"

definition Beside :: "tunnel_plan \<Rightarrow> managed_route list \<Rightarrow> managed_route list" where
  "Beside tp others =
     (let out = dedup_by (\<lambda>r. RouteKey (mr_Route r)) {} (filter (beside_kept tp) others)
      in snd (place tp (set (map (\<lambda>r. RouteKey (mr_Route r)) out)) out))"

text \<open>A destination that is not the whole selector (\<^verbatim>\<open>to <net> user <uid>\<close>) does not count.\<close>

definition ruleDestination :: "policy_rule \<Rightarrow> netprefix option" where
  "ruleDestination r =
     (case cut_prefix (pr_Selector r) ''to '' of
        None \<Rightarrow> None
      | Some dst \<Rightarrow> if CHR '' '' \<in> set dst then None else map_option fst (entryToPrefix dst))"

definition rule_beside :: "tunnel_plan \<Rightarrow> managed_rule \<Rightarrow> managed_rule list" where
  "rule_beside tp r =
     (case ruleDestination (ml_Rule r) of
        None \<Rightarrow> [r]
      | Some pfx \<Rightarrow>
          let parts = aroundTunnels [pfx] (tp_nets tp)
          in if parts = [masked pfx] then [r]
             else map (\<lambda>p. r\<lparr>ml_Rule := (ml_Rule r)\<lparr>pr_Selector := ''to '' @ prefix_string p\<rparr>\<rparr>) parts)"

definition RulesBeside :: "tunnel_plan \<Rightarrow> managed_rule list \<Rightarrow> managed_rule list" where
  "RulesBeside tp rules =
     (if tp_nets tp = [] then rules
      else dedup_by (\<lambda>r. RuleKey (ml_Rule r)) {} (concat (map (rule_beside tp) rules)))"

text \<open>\<^verbatim>\<open>strconv.Quote\<close> on ASCII text; bytes of printable UTF-8 sequences stand for themselves.\<close>

definition quote_char :: "char \<Rightarrow> string" where
  "quote_char c =
     (if c = CHR 0x22 then [CHR 0x5C, CHR 0x22] else if c = CHR 0x5C then [CHR 0x5C, CHR 0x5C]
      else if c = CHR 0x07 then [CHR 0x5C, CHR ''a''] else if c = CHR 0x08 then [CHR 0x5C, CHR ''b'']
      else if c = CHR 0x0C then [CHR 0x5C, CHR ''f''] else if c = CHR 0x0A then [CHR 0x5C, CHR ''n'']
      else if c = CHR 0x0D then [CHR 0x5C, CHR ''r''] else if c = CHR 0x09 then [CHR 0x5C, CHR ''t'']
      else if c = CHR 0x0B then [CHR 0x5C, CHR ''v'']
      else if (of_char c :: nat) < 32 \<or> c = CHR 0x7F
        then [CHR 0x5C, CHR ''x'', hex_digit (of_char c div 16), hex_digit (of_char c mod 16)]
      else [c])"

definition quote :: "string \<Rightarrow> string" where
  "quote s = [CHR 0x22] @ concat (map quote_char s) @ [CHR 0x22]"

definition app_captures :: "policy_rule list \<Rightarrow> managed_route \<Rightarrow> tunnel_blocked list" where
  "app_captures apps t =
     map (\<lambda>a. \<lparr>tb_Route = rt_DstCIDR (mr_Route t),
               tb_Reason = ''the include-mode app rule '' @ quote (pr_Selector a) @ '' sends that traffic into ''
                 @ (if pr_RouteToIface a \<noteq> [] then pr_RouteToIface a else ''your VPN (table '' @ pr_Table a @ '')'')
                 @ '', to this network too''\<rparr>)
       (filter (\<lambda>a. pr_Family a = rt_Family (mr_Route t)) apps)"

definition AppRuleCaptures :: "tunnel_plan \<Rightarrow> managed_rule list \<Rightarrow> string \<Rightarrow> tunnel_blocked list" where
  "AppRuleCaptures tp rules name =
     (let apps = filter (\<lambda>r. ruleDestination r = None) (map ml_Rule rules)
      in concat (map (\<lambda>t. case cut_prefix (mr_ProfileID t) TunnelProfilePrefix of
            None \<Rightarrow> []
          | Some n \<Rightarrow> if rt_Gateway (mr_Route t) \<noteq> [] \<or> n \<noteq> name then [] else app_captures apps t) (tp_Routes tp)))"

section \<open>Rule keys\<close>

lemma itoa_inject: "itoa i = itoa j \<longleftrightarrow> i = j"
proof -
  have d: "decimal n \<noteq> CHR ''-'' # s" for n s
    using decimal_digits[of n] by (auto simp: is_digit_def)
  show ?thesis using d d[symmetric] by (auto simp: itoa_def)
qed

lemma itoa_bar_free: "bar_free (itoa i)"
  using decimal_notin[of "CHR ''|''"] by (auto simp: bar_free_def itoa_def is_digit_def)

definition rule_bar_free :: "policy_rule \<Rightarrow> bool" where
  "rule_bar_free r \<longleftrightarrow> list_all bar_free [pr_Selector r, pr_Table r, pr_Family r, pr_RouteToIface r, pr_RouteToGW r]"

definition same_rule :: "policy_rule \<Rightarrow> policy_rule \<Rightarrow> bool" where
  "same_rule r s \<longleftrightarrow> pr_Priority r = pr_Priority s \<and> pr_Selector r = pr_Selector s \<and> pr_Table r = pr_Table s
     \<and> pr_Family r = pr_Family s \<and> pr_RouteToIface r = pr_RouteToIface s
     \<and> (pr_RouteToIface r \<noteq> [] \<longrightarrow> pr_RouteToGW r = pr_RouteToGW s)"

lemma RuleKey_split:
  assumes "rule_bar_free r"
  shows "split_on CHR ''|'' (RuleKey r) = [itoa (pr_Priority r), pr_Selector r, pr_Table r, pr_Family r]
    @ (if pr_RouteToIface r \<noteq> [] then [pr_RouteToIface r, pr_RouteToGW r] else [])"
proof -
  have "RuleKey r = join [CHR ''|''] ([itoa (pr_Priority r), pr_Selector r, pr_Table r, pr_Family r]
      @ (if pr_RouteToIface r \<noteq> [] then [pr_RouteToIface r, pr_RouteToGW r] else []))"
    by (simp add: RuleKey_def Let_def)
  then show ?thesis
    using assms itoa_bar_free[of "pr_Priority r"]
    by (simp only:) (subst split_on_join, auto simp: rule_bar_free_def bar_free_def)
qed

lemma RuleKey_iff:
  assumes "rule_bar_free r" and "rule_bar_free s"
  shows "RuleKey r = RuleKey s \<longleftrightarrow> same_rule r s"
proof
  assume "RuleKey r = RuleKey s"
  then have "split_on CHR ''|'' (RuleKey r) = split_on CHR ''|'' (RuleKey s)" by simp
  then show "same_rule r s"
    unfolding RuleKey_split[OF assms(1)] RuleKey_split[OF assms(2)]
    by (auto simp: same_rule_def itoa_inject split: if_splits)
qed (auto simp: same_rule_def RuleKey_def Let_def)

section \<open>What the rules select\<close>

definition rules_cover :: "managed_rule list \<Rightarrow> addr set" where
  "rules_cover rules = (\<Union>r \<in> set rules. case ruleDestination (ml_Rule r) of None \<Rightarrow> {} | Some p \<Rightarrow> covers p)"

lemma rules_cover_simps [simp]:
  "rules_cover [] = {}"
  "rules_cover (r # rs) = (case ruleDestination (ml_Rule r) of None \<Rightarrow> {} | Some p \<Rightarrow> covers p) \<union> rules_cover rs"
  "rules_cover (rs @ ss) = rules_cover rs \<union> rules_cover ss"
  by (auto simp: rules_cover_def)

lemma ruleDestination_valid: "ruleDestination r = Some p \<Longrightarrow> is_valid p"
  using entryToPrefix_valid by (fastforce simp: ruleDestination_def split: option.splits if_splits)

lemma ruleDestination_printed:
  assumes "is_valid p"
  shows "ruleDestination (r\<lparr>pr_Selector := ''to '' @ prefix_string p\<rparr>) = Some p"
proof -
  have "cut_prefix (''to '' @ prefix_string p) ''to '' = Some (prefix_string p)" by (rule cut_prefix_append)
  then show ?thesis
    using prefix_string_no_sep(2)[OF assms] parse_prefix_string[OF assms]
    by (simp add: ruleDestination_def entryToPrefix_def)
qed

lemma rule_beside_cover:
  assumes "valid_all (tp_nets tp)" "tp_nets tp \<noteq> []"
  shows "rules_cover (rule_beside tp r) = rules_cover [r] - covers_all (tp_nets tp)"
proof (cases "ruleDestination (ml_Rule r)")
  case None
  then show ?thesis by (simp add: rule_beside_def)
next
  case (Some p)
  then have v: "is_valid p" by (rule ruleDestination_valid)
  let ?parts = "aroundTunnels [p] (tp_nets tp)"
  have c: "covers_all ?parts = covers p - covers_all (tp_nets tp)" "valid_all ?parts"
  proof -
    have vp: "valid_all [p]" using v by simp
    show "covers_all ?parts = covers p - covers_all (tp_nets tp)" using aroundTunnels_spec(1)[OF vp assms(1)] by simp
    show "valid_all ?parts" using aroundTunnels_spec(2)[OF vp assms(1)] .
  qed
  show ?thesis
  proof (cases "?parts = [masked p]")
    case True
    have eq: "covers p - covers_all (tp_nets tp) = covers p"
      by (metis True c(1) covers_all_simps(1,2) covers_masked Un_empty_right)
    show ?thesis by (simp add: rule_beside_def True Some eq)
  next
    case False
    have "rules_cover (map (\<lambda>q. r\<lparr>ml_Rule := (ml_Rule r)\<lparr>pr_Selector := ''to '' @ prefix_string q\<rparr>\<rparr>) qs) = covers_all qs"
      if "valid_all qs" for qs
      using that by (induction qs) (simp_all add: ruleDestination_printed del: append_Cons)
    from this[OF c(2)] show ?thesis
      unfolding rule_beside_def Some option.case Let_def if_not_P[OF False] c(1) by (simp add: Some)
  qed
qed

lemma rules_cover_dedup:
  assumes "\<forall>r \<in> set rs. rule_bar_free (ml_Rule r)"
  shows "rules_cover (dedup_by (\<lambda>r. RuleKey (ml_Rule r)) {} rs) = rules_cover rs"
proof
  show "rules_cover (dedup_by (\<lambda>r. RuleKey (ml_Rule r)) {} rs) \<subseteq> rules_cover rs"
    unfolding rules_cover_def using set_dedup_by_subset[of "\<lambda>r. RuleKey (ml_Rule r)" "{}" rs] by (intro UN_mono) auto
  show "rules_cover rs \<subseteq> rules_cover (dedup_by (\<lambda>r. RuleKey (ml_Rule r)) {} rs)"
  proof
    fix a assume "a \<in> rules_cover rs"
    then obtain r where r: "r \<in> set rs" "a \<in> (case ruleDestination (ml_Rule r) of None \<Rightarrow> {} | Some p \<Rightarrow> covers p)"
      by (auto simp: rules_cover_def)
    have "RuleKey (ml_Rule r) \<in> (\<lambda>r. RuleKey (ml_Rule r)) ` set (dedup_by (\<lambda>r. RuleKey (ml_Rule r)) {} rs)"
      unfolding dedup_by_keys using r(1) by simp
    then obtain s where s: "s \<in> set (dedup_by (\<lambda>r. RuleKey (ml_Rule r)) {} rs)" "RuleKey (ml_Rule r) = RuleKey (ml_Rule s)"
      by auto
    have "s \<in> set rs" using dedup_by_mem[OF s(1)] .
    then have "same_rule (ml_Rule r) (ml_Rule s)" using RuleKey_iff s(2) assms r(1) by blast
    then have "ruleDestination (ml_Rule r) = ruleDestination (ml_Rule s)" by (simp add: same_rule_def ruleDestination_def)
    then show "a \<in> rules_cover (dedup_by (\<lambda>r. RuleKey (ml_Rule r)) {} rs)" using r(2) s(1) by (auto simp: rules_cover_def)
  qed
qed

lemma rule_beside_bar_free:
  assumes "rule_bar_free (ml_Rule r)" "valid_all (tp_nets tp)" "s \<in> set (rule_beside tp r)"
  shows "rule_bar_free (ml_Rule s)"
proof (cases "s = r")
  case False
  then obtain p q where p: "ruleDestination (ml_Rule r) = Some p" "q \<in> set (aroundTunnels [p] (tp_nets tp))"
      "s = r\<lparr>ml_Rule := (ml_Rule r)\<lparr>pr_Selector := ''to '' @ prefix_string q\<rparr>\<rparr>"
    using assms(3) by (auto simp: rule_beside_def Let_def split: option.splits if_splits)
  have "is_valid q" using aroundTunnels_spec(2)[of "[p]" "tp_nets tp"] ruleDestination_valid[OF p(1)] assms(2) p(2) by auto
  then show ?thesis using assms(1) p(3) prefix_string_no_sep(1) by (auto simp: rule_bar_free_def bar_free_def)
qed (use assms in simp)

section \<open>What placing adds\<close>

abbreviation route_keys :: "managed_route list \<Rightarrow> string list" where
  "route_keys rs \<equiv> map (\<lambda>r. RouteKey (mr_Route r)) rs"

abbreviation dst_keys :: "managed_route list \<Rightarrow> string list" where
  "dst_keys rs \<equiv> map (\<lambda>r. dstKey (mr_Route r)) rs"

abbreviation bar_free_routes :: "managed_route list \<Rightarrow> bool" where
  "bar_free_routes rs \<equiv> list_all (\<lambda>r. route_bar_free (mr_Route r)) rs"

lemma same_route_dst: "same_route r s \<Longrightarrow> dstKey r = dstKey s"
  by (simp add: same_route_def dstKey_def)

lemma place_fold:
  assumes "bar_free_routes routes" "bar_free_routes rs"
  shows "\<exists>extra. foldl place_step (set (dst_keys routes), set (route_keys routes), routes) rs
        = (set (dst_keys (routes @ extra)), set (route_keys (routes @ extra)), routes @ extra)
     \<and> set extra \<subseteq> set rs \<and> distinct (dst_keys extra) \<and> set (dst_keys extra) \<inter> set (dst_keys routes) = {}
     \<and> set (dst_keys rs) \<subseteq> set (dst_keys (routes @ extra))"
  using assms
proof (induction rs arbitrary: routes)
  case (Cons r rs)
  let ?st = "(set (dst_keys routes), set (route_keys routes), routes)"
  show ?case
  proof (cases "dstKey (mr_Route r) \<in> set (dst_keys routes)")
    case True
    then have "place_step ?st r = ?st" by (simp add: place_step_def)
    then show ?thesis using Cons.IH[of routes] Cons.prems True by auto
  next
    case False
    have fresh: "RouteKey (mr_Route r) \<notin> set (route_keys routes)"
    proof
      assume "RouteKey (mr_Route r) \<in> set (route_keys routes)"
      then obtain x where x: "x \<in> set routes" "RouteKey (mr_Route r) = RouteKey (mr_Route x)" by auto
      then have "dstKey (mr_Route r) = dstKey (mr_Route x)"
        using RouteKey_iff same_route_dst Cons.prems by (metis list_all_iff list.set_intros(1))
      with x(1) False show False by auto
    qed
    have e: "place_step ?st r = (set (dst_keys (routes @ [r])), set (route_keys (routes @ [r])), routes @ [r])"
      using False fresh by (simp add: place_step_def addRoute_def Let_def)
    from Cons.IH[of "routes @ [r]"] Cons.prems obtain extra where
      "foldl place_step (place_step ?st r) rs = (set (dst_keys ((routes @ [r]) @ extra)), set (route_keys ((routes @ [r]) @ extra)), (routes @ [r]) @ extra)"
      "set extra \<subseteq> set rs" "distinct (dst_keys extra)" "set (dst_keys extra) \<inter> set (dst_keys (routes @ [r])) = {}"
      "set (dst_keys rs) \<subseteq> set (dst_keys ((routes @ [r]) @ extra))"
      unfolding e by auto
    then show ?thesis using False by (intro exI[of _ "r # extra"]) auto
  qed
qed simp

section \<open>Properties\<close>





end
