(* ===== verification/Engine.thy ===== *)
theory Engine
  imports Beside
begin

text \<open>
  The desired state: \<^verbatim>\<open>internal/routing/engine.go\<close>, from a profile's destinations to
  \<^verbatim>\<open>BuildDesired\<close>, with \<^verbatim>\<open>Destinations\<close> (what the enabled profiles route, against which
  installed routes and rules are judged) and \<^verbatim>\<open>BesideTailscale\<close>.

  Go visits the entries of a map in an unspecified order. Where the source ranges over a map the
  model takes the order as an argument (\<open>ords\<close>, \<open>endord\<close>, \<open>ord\<close>), and the properties hold for
  every order.
\<close>

section \<open>A profile's destinations\<close>

definition rule_entries :: "desired_input \<Rightarrow> profile_rule \<Rightarrow> (netprefix \<times> family) list" where
  "rule_entries inp r =
     (case ruleToPrefix r of
        Some e \<Rightarrow> [e]
      | None \<Rightarrow> if ru_Type r = RuleDomain then List.map_filter entryToPrefix (in_Domains inp (ru_Value r)) else [])"

definition profile_entries :: "profile \<Rightarrow> desired_input \<Rightarrow> (netprefix \<times> family) list" where
  "profile_entries p inp =
     concat (map (rule_entries inp) (pf_Rules p))
     @ concat (map (\<lambda>l. List.map_filter entryToPrefix (in_Lists inp l)) (pf_Lists p))"

text \<open>The map by family: a family without destinations has no entry in the source, an empty list here.\<close>

definition profilePrefixes :: "profile \<Rightarrow> desired_input \<Rightarrow> family \<Rightarrow> netprefix list" where
  "profilePrefixes p inp fam = map fst (filter (\<lambda>e. snd e = fam) (profile_entries p inp))"

definition tunnel_profile :: "profile \<Rightarrow> bool" where
  "tunnel_profile p \<longleftrightarrow> pf_Enabled p \<and> pf_Mode p = ModeTunnel \<and> pf_Tunnel p \<noteq> []"

definition route_string :: "netprefix \<Rightarrow> string" where
  "route_string p = (if pfx_bits p = int (bit_len (pfx_addr p)) then addr_string (pfx_addr p) else prefix_string p)"

text \<open>\<open>ord\<close> is the order in which the loop visits the families of a profile's map.\<close>

definition TunnelProfileRoutes :: "family list \<Rightarrow> desired_input \<Rightarrow> string \<Rightarrow> string list" where
  "TunnelProfileRoutes ord inp name =
     map route_string (Aggregate (concat (map (\<lambda>p. concat (map (profilePrefixes p inp) ord))
       (filter (\<lambda>p. tunnel_profile p \<and> pf_Tunnel p = name) (in_Profiles inp)))))"

definition WithRoutes :: "tunnel_input list \<Rightarrow> (string \<Rightarrow> string list) \<Rightarrow> tunnel_input list" where
  "WithRoutes tunnels extra =
     map (\<lambda>t. if extra (ti_Name t) = [] then t
              else t\<lparr>ti_Routes := dedup_by id {} (ti_Routes t @ extra (ti_Name t))\<rparr>) tunnels"

section \<open>What the enabled profiles route\<close>

record destinations =
  ds_exclude :: "family \<Rightarrow> netprefix list"
  ds_include :: "family \<Rightarrow> netprefix list"
  ds_unsure :: "string \<Rightarrow> family \<Rightarrow> bool"
  ds_mode :: "string \<rightharpoonup> mode"
  ds_includes :: "(string \<times> (family \<Rightarrow> netprefix list)) list"

definition routed_profiles :: "desired_input \<Rightarrow> profile list" where
  "routed_profiles inp = filter (\<lambda>p. pf_Enabled p \<and> pf_Mode p \<noteq> ModeTunnel) (in_Profiles inp)"

definition unsure_rule :: "desired_input \<Rightarrow> family \<Rightarrow> profile_rule \<Rightarrow> bool" where
  "unsure_rule inp fam r \<longleftrightarrow> ru_Type r = RuleDomain
     \<and> fam \<notin> set (map snd (List.map_filter entryToPrefix (in_Domains inp (ru_Value r))))"

definition ProfileDestinations :: "desired_input \<Rightarrow> destinations" where
  "ProfileDestinations inp =
     (let ps = routed_profiles inp; inc = filter (\<lambda>p. pf_Mode p = ModeInclude) ps;
          exc = filter (\<lambda>p. pf_Mode p \<noteq> ModeInclude) ps
      in \<lparr>ds_exclude = (\<lambda>fam. Aggregate (concat (map (\<lambda>p. profilePrefixes p inp fam) exc))),
          ds_include = (\<lambda>fam. Aggregate (concat (map (\<lambda>p. profilePrefixes p inp fam) inc))),
          ds_unsure = (\<lambda>i fam. (fam = FamilyV4 \<or> fam = FamilyV6)
             \<and> list_ex (\<lambda>p. pf_ID p = i \<and> list_ex (unsure_rule inp fam) (pf_Rules p)) ps),
          ds_mode = map_of (rev (map (\<lambda>p. (pf_ID p, pf_Mode p)) ps)),
          ds_includes = map (\<lambda>p. (pf_ID p, \<lambda>fam. Aggregate (profilePrefixes p inp fam))) inc\<rparr>)"

definition unsureOf :: "destinations \<Rightarrow> string \<Rightarrow> bool \<Rightarrow> family \<Rightarrow> bool" where
  "unsureOf d profile include fam =
     (case ds_mode d profile of None \<Rightarrow> False | Some m \<Rightarrow> (m = ModeInclude) = include \<and> ds_unsure d profile fam)"

definition HoldsRoute :: "destinations \<Rightarrow> managed_route \<Rightarrow> bool" where
  "HoldsRoute d r =
     (if rt_Table (mr_Route r) \<noteq> [] then True
      else case parse_prefix (rt_DstCIDR (mr_Route r)) of
          None \<Rightarrow> True
        | Some pfx \<Rightarrow> within (masked pfx) (ds_exclude d (rt_Family (mr_Route r)))
            \<or> unsureOf d (mr_ProfileID r) False (rt_Family (mr_Route r)))"

definition ruleNet :: "policy_rule \<Rightarrow> netprefix option" where
  "ruleNet r =
     (case cut_prefix (pr_Selector r) ''to '' of
        None \<Rightarrow> None | Some dst \<Rightarrow> map_option masked (parse_prefix dst))"

definition HoldsRule :: "destinations \<Rightarrow> managed_rule \<Rightarrow> bool" where
  "HoldsRule d r =
     (case ruleNet (ml_Rule r) of
        None \<Rightarrow> True
      | Some pfx \<Rightarrow> within pfx (ds_include d (pr_Family (ml_Rule r)))
          \<or> unsureOf d (ml_ProfileID r) True (pr_Family (ml_Rule r)))"

definition owner_step :: "netprefix \<Rightarrow> string \<times> int \<Rightarrow> string \<times> netprefix \<Rightarrow> string \<times> int" where
  "owner_step pfx = (\<lambda>(owner, tightest) (i, a).
     if pfx_bits a \<le> pfx_bits pfx \<and> contains a (pfx_addr pfx) \<and> pfx_bits a > tightest then (i, pfx_bits a)
     else (owner, tightest))"

definition IncludeOwner :: "destinations \<Rightarrow> policy_rule \<Rightarrow> string" where
  "IncludeOwner d r =
     (case ruleNet r of
        None \<Rightarrow> []
      | Some pfx \<Rightarrow> fst (foldl (owner_step pfx) ([], -1)
          (concat (map (\<lambda>(i, nets). map (Pair i) (nets (pr_Family r))) (ds_includes d)))))"

section \<open>Beside Tailscale\<close>

definition tailscale_rule :: "desired_input \<Rightarrow> int \<Rightarrow> string \<Rightarrow> string \<Rightarrow> family \<Rightarrow> managed_rule" where
  "tailscale_rule inp prio sel table fam =
     \<lparr>ml_Rule = policy_rule0\<lparr>pr_Priority := prio, pr_Selector := sel, pr_Table := table, pr_Family := fam,
                 pr_Proto := protoFor (in_Platform inp)\<rparr>,
      ml_ProfileID = tailscaleTag, ml_CreatedAt = in_Now inp\<rparr>"

definition BesideTailscale :: "managed_route list \<Rightarrow> managed_rule list \<Rightarrow> desired_input
    \<Rightarrow> managed_route list \<times> managed_rule list" where
  "BesideTailscale routes rules inp =
     (let routes = filter (\<lambda>r. rt_Table (mr_Route r) \<noteq> BypassTable) routes;
          rules = filter (\<lambda>r. \<not> (pr_Table (ml_Rule r) = BypassTable
                    \<or> pr_Priority (ml_Rule r) = TailscaleRulePrio \<and> pr_Table (ml_Rule r) \<noteq> [])) rules
      in if in_TailscaleTable inp = [] \<or> in_Platform inp = ''darwin'' then (routes, rules)
         else let fams = set (map (\<lambda>n. famOf (pfx_addr n)) (in_Tailscale inp));
             rules = rules @ map (tailscale_rule inp TailscaleRulePrio ''from all suppress_prefixlength 0'' (in_TailscaleTable inp))
                       (filter (\<lambda>f. f \<in> fams) [FamilyV4, FamilyV6])
           in if \<not> in_TailscaleExitNode inp then (routes, rules)
              else let main = filter (\<lambda>r. rt_Table (mr_Route r) = []) routes;
                  copies = map (\<lambda>r. r\<lparr>mr_Route := (mr_Route r)\<lparr>rt_Table := BypassTable\<rparr>\<rparr>) main;
                  families = set (map (\<lambda>r. rt_Family (mr_Route r)) main)
                in (routes @ copies,
                    rules @ map (tailscale_rule inp BypassRulePrio ''from all'' BypassTable)
                      (filter (\<lambda>f. f \<in> families) [FamilyV4, FamilyV6])))"

section \<open>The desired state\<close>

datatype build_error =
    IncludeUnavailable string
  | ProfileGateway string gateway_error
  | IncludeNoTunnel family
  | DarwinNoTunnel string family
  | DarwinNotUID string string
  | DarwinAppNoTunnel string string

record build_state =
  bs_seenRoute :: "string set"
  bs_seenRule :: "string set"
  bs_routes :: "managed_route list"
  bs_rules :: "managed_rule list"
  bs_includeFams :: "family set"

definition add_rule :: "profile \<Rightarrow> desired_input \<Rightarrow> build_state \<Rightarrow> policy_rule \<Rightarrow> build_state" where
  "add_rule p inp st pr =
     (let k = RuleKey pr
      in if k \<in> bs_seenRule st then st
         else st\<lparr>bs_seenRule := insert k (bs_seenRule st),
                 bs_rules := bs_rules st @ [\<lparr>ml_Rule = pr, ml_ProfileID = pf_ID p, ml_CreatedAt = in_Now inp\<rparr>]\<rparr>)"

text \<open>Linux Model B: the same, noting the family when the rule is new.\<close>

definition add_rule_fam :: "profile \<Rightarrow> desired_input \<Rightarrow> build_state \<Rightarrow> policy_rule \<times> family \<Rightarrow> build_state" where
  "add_rule_fam p inp st = (\<lambda>(pr, fam).
     if RuleKey pr \<in> bs_seenRule st then st
     else (add_rule p inp st pr)\<lparr>bs_includeFams := insert fam (bs_includeFams st)\<rparr>)"

definition modelb_rule :: "desired_input \<Rightarrow> string \<Rightarrow> family \<Rightarrow> policy_rule" where
  "modelb_rule inp sel fam =
     policy_rule0\<lparr>pr_Priority := ModelBRulePrio, pr_Selector := sel, pr_Table := ModelBTable, pr_Family := fam,
       pr_Proto := protoFor (in_Platform inp)\<rparr>"

definition linux_rules :: "profile \<Rightarrow> desired_input \<Rightarrow> (family \<Rightarrow> netprefix list) \<Rightarrow> family list \<Rightarrow> (policy_rule \<times> family) list"
  where
  "linux_rules p inp byFamily ord =
     concat (map (\<lambda>fam. map (\<lambda>pfx. (modelb_rule inp (''to '' @ prefix_string pfx) fam, fam)) (Aggregate (byFamily fam))) ord)
     @ (if list_ex (\<lambda>r. ru_Type r = RuleApp) (pf_Rules p)
        then [(modelb_rule inp (''fwmark '' @ ModelBMark) FamilyV4, FamilyV4)] else [])"

definition darwin_rule :: "desired_input \<Rightarrow> string \<Rightarrow> family \<Rightarrow> policy_rule option" where
  "darwin_rule inp selector fam =
     (let (vpnGW, vpnIface) = vpnFor fam inp
      in if vpnIface = [] then None
         else Some (policy_rule0\<lparr>pr_Priority := ModelBRulePrio, pr_Selector := selector, pr_Family := fam,
             pr_Proto := ''riftroute'', pr_RouteToIface := vpnIface,
             pr_RouteToGW := (if addr_valid vpnGW then addr_string vpnGW else [])\<rparr>))"

fun darwin_prefixes :: "profile \<Rightarrow> desired_input \<Rightarrow> family \<Rightarrow> netprefix list \<Rightarrow> build_state \<Rightarrow> build_error + build_state" where
  "darwin_prefixes p inp fam [] st = Inr st"
| "darwin_prefixes p inp fam (pfx # pfxs) st =
     (case darwin_rule inp (''to '' @ prefix_string pfx) fam of
        None \<Rightarrow> Inl (DarwinNoTunnel (pf_Name p) fam)
      | Some pr \<Rightarrow> darwin_prefixes p inp fam pfxs (add_rule p inp st pr))"

fun darwin_fams :: "profile \<Rightarrow> desired_input \<Rightarrow> (family \<Rightarrow> netprefix list) \<Rightarrow> family list \<Rightarrow> build_state
    \<Rightarrow> build_error + build_state" where
  "darwin_fams p inp byFamily [] st = Inr st"
| "darwin_fams p inp byFamily (fam # fams) st =
     (case darwin_prefixes p inp fam (Aggregate (byFamily fam)) st of
        Inl e \<Rightarrow> Inl e | Inr st' \<Rightarrow> darwin_fams p inp byFamily fams st')"

definition darwin_app :: "profile \<Rightarrow> desired_input \<Rightarrow> string \<Rightarrow> build_state \<times> bool \<Rightarrow> family \<Rightarrow> build_state \<times> bool" where
  "darwin_app p inp uid = (\<lambda>(st, emitted) fam.
     case darwin_rule inp (''user '' @ uid) fam of
       None \<Rightarrow> (st, emitted)
     | Some pr \<Rightarrow>
         (foldl (add_rule p inp) (add_rule p inp st pr)
           (map (\<lambda>n. policy_rule0\<lparr>pr_Priority := TailscaleRulePrio,
                    pr_Selector := ''to '' @ prefix_string (masked n) @ '' user '' @ uid, pr_Family := fam,
                    pr_Proto := ''riftroute''\<rparr>)
             (filter (\<lambda>n. famOf (pfx_addr n) = fam) (in_Tailscale inp))), True))"

fun darwin_apps :: "profile \<Rightarrow> desired_input \<Rightarrow> profile_rule list \<Rightarrow> build_state \<Rightarrow> build_error + build_state" where
  "darwin_apps p inp [] st = Inr st"
| "darwin_apps p inp (r # rs) st =
     (if ru_Type r \<noteq> RuleApp then darwin_apps p inp rs st
      else if \<not> IsUIDLike (ru_Value r) then Inl (DarwinNotUID (pf_Name p) (ru_Value r))
      else let (st', emitted) = foldl (darwin_app p inp (ru_Value r)) (st, False) [FamilyV4, FamilyV6]
        in if \<not> emitted then Inl (DarwinAppNoTunnel (pf_Name p) (ru_Value r)) else darwin_apps p inp rs st')"

definition buildDarwinInclude :: "profile \<Rightarrow> (family \<Rightarrow> netprefix list) \<Rightarrow> desired_input \<Rightarrow> family list \<Rightarrow> build_state
    \<Rightarrow> build_error + build_state" where
  "buildDarwinInclude p byFamily inp ord st =
     (case darwin_fams p inp byFamily ord st of Inl e \<Rightarrow> Inl e | Inr st' \<Rightarrow> darwin_apps p inp (pf_Rules p) st')"

definition build_include :: "profile \<Rightarrow> desired_input \<Rightarrow> tunnel_plan \<Rightarrow> family list \<Rightarrow> build_state \<Rightarrow> build_error + build_state" where
  "build_include p inp tunnels ord st =
     (if \<not> in_PolicyRouting inp then Inl (IncludeUnavailable (pf_Name p))
      else let byFamily = (\<lambda>fam. aroundTunnels (profilePrefixes p inp fam) (tp_nets tunnels))
        in if in_Platform inp = ''darwin''
           then buildDarwinInclude p (\<lambda>fam. aroundTunnels (byFamily fam) (in_Tailscale inp)) inp ord st
           else Inr (foldl (add_rule_fam p inp) st (linux_rules p inp byFamily ord)))"

definition exclude_route :: "profile \<Rightarrow> desired_input \<Rightarrow> addr \<Rightarrow> string \<Rightarrow> family \<Rightarrow> netprefix \<Rightarrow> route" where
  "exclude_route p inp gw iface fam pfx =
     route0\<lparr>rt_DstCIDR := prefix_string pfx, rt_Gateway := addr_string gw, rt_Iface := iface, rt_Family := fam,
       rt_Owner := OwnerRiftRoute, rt_Proto := protoFor (in_Platform inp), rt_Profile := pf_ID p\<rparr>"

definition add_route_st :: "string \<Rightarrow> desired_input \<Rightarrow> build_state \<Rightarrow> route \<Rightarrow> build_state" where
  "add_route_st profile inp st rt =
     (let (seen, routes, _) = addRoute (bs_seenRoute st) (bs_routes st) rt profile (in_Now inp)
      in st\<lparr>bs_seenRoute := seen, bs_routes := routes\<rparr>)"

text \<open>
  The loop of exclude mode over the families: how many had destinations, how many of those were
  skipped for want of a gateway, and the last such error.
\<close>

fun exclude_fams :: "profile \<Rightarrow> desired_input \<Rightarrow> tunnel_plan \<Rightarrow> family list \<Rightarrow> build_state \<Rightarrow> nat \<Rightarrow> nat \<Rightarrow> gateway_error option
    \<Rightarrow> build_error + (build_state \<times> nat \<times> nat \<times> gateway_error option)" where
  "exclude_fams p inp tunnels [] st skipped families skipErr = Inr (st, skipped, families, skipErr)"
| "exclude_fams p inp tunnels (fam # fams) st skipped families skipErr =
     (let prefixes = outsideTunnels (outsideTunnels (profilePrefixes p inp fam) (tp_nets tunnels)) (in_Tailscale inp)
      in if prefixes = [] then exclude_fams p inp tunnels fams st skipped families skipErr
         else (case resolveGateway (pf_Gateway p) fam inp of
             Inl e \<Rightarrow>
               if parse_addr (pf_Gateway p) \<noteq> None \<or> pf_Gateway p = [] \<or> pf_Gateway p = ''auto''
               then exclude_fams p inp tunnels fams st (Suc skipped) (Suc families) (Some e)
               else Inl (ProfileGateway (pf_Name p) e)
           | Inr (gw, iface) \<Rightarrow>
               exclude_fams p inp tunnels fams
                 (foldl (add_route_st (pf_ID p) inp) st (map (exclude_route p inp gw iface fam) (Aggregate prefixes)))
                 skipped (Suc families) skipErr))"

definition build_exclude :: "profile \<Rightarrow> desired_input \<Rightarrow> tunnel_plan \<Rightarrow> family list \<Rightarrow> build_state \<Rightarrow> build_error + build_state" where
  "build_exclude p inp tunnels ord st =
     (case exclude_fams p inp tunnels ord st 0 0 None of
        Inl e \<Rightarrow> Inl e
      | Inr (st', skipped, families, skipErr) \<Rightarrow>
          (case skipErr of
             Some e \<Rightarrow> if families > 0 \<and> skipped = families then Inl (ProfileGateway (pf_Name p) e) else Inr st'
           | None \<Rightarrow> Inr st'))"

definition build_profile :: "desired_input \<Rightarrow> tunnel_plan \<Rightarrow> family list \<Rightarrow> profile \<Rightarrow> build_state \<Rightarrow> build_error + build_state" where
  "build_profile inp tunnels ord p st =
     (if \<not> pf_Enabled p \<or> pf_Mode p = ModeTunnel then Inr st
      else if pf_Mode p = ModeInclude then build_include p inp tunnels ord st
      else build_exclude p inp tunnels ord st)"

text \<open>\<open>ords\<close> gives, profile by profile, the order in which the loop over its families runs.\<close>

fun build_profiles :: "desired_input \<Rightarrow> tunnel_plan \<Rightarrow> (profile \<times> family list) list \<Rightarrow> build_state \<Rightarrow> build_error + build_state" where
  "build_profiles inp tunnels [] st = Inr st"
| "build_profiles inp tunnels ((p, ord) # ps) st =
     (case build_profile inp tunnels ord p st of
        Inl e \<Rightarrow> Inl e | Inr st' \<Rightarrow> build_profiles inp tunnels ps st')"

fun table_defaults :: "desired_input \<Rightarrow> family list \<Rightarrow> build_state \<Rightarrow> build_error + build_state" where
  "table_defaults inp [] st = Inr st"
| "table_defaults inp (fam # fams) st =
     (if fam \<notin> bs_includeFams st then table_defaults inp fams st
      else let (vpnGW, vpnIface) = vpnFor fam inp
        in if vpnIface = [] then Inl (IncludeNoTunnel fam)
           else table_defaults inp fams (add_route_st modelBProfileTag inp st
             (route0\<lparr>rt_DstCIDR := (if fam = FamilyV6 then ''::/0'' else ''0.0.0.0/0''),
                rt_Gateway := (if addr_valid vpnGW then addr_string vpnGW else []), rt_Iface := vpnIface, rt_Family := fam,
                rt_Owner := OwnerRiftRoute, rt_Proto := protoFor (in_Platform inp), rt_Table := ModelBTable,
                rt_Profile := modelBProfileTag\<rparr>)))"

definition build0 :: build_state where
  "build0 = \<lparr>bs_seenRoute = {}, bs_seenRule = {}, bs_routes = [], bs_rules = [], bs_includeFams = {}\<rparr>"

definition place_st :: "tunnel_plan \<Rightarrow> build_state \<Rightarrow> build_state" where
  "place_st tunnels st =
     (let (seen, routes) = place tunnels (bs_seenRoute st) (bs_routes st) in st\<lparr>bs_seenRoute := seen, bs_routes := routes\<rparr>)"

definition by_priority :: "desired_input \<Rightarrow> profile list" where
  "by_priority inp = sort_key (\<lambda>p. - pf_Priority p) (in_Profiles inp)"

definition BuildDesired :: "(nat \<Rightarrow> family list) \<Rightarrow> family list \<Rightarrow> desired_input
    \<Rightarrow> build_error + (managed_route list \<times> managed_rule list)" where
  "BuildDesired ords endord inp =
     (let tunnels = PlanTunnels inp; profs = by_priority inp
      in case build_profiles inp tunnels (zip profs (map ords [0..<length profs])) build0 of
          Inl e \<Rightarrow> Inl e
        | Inr st \<Rightarrow>
            (case table_defaults inp endord (place_st tunnels st) of
               Inl e \<Rightarrow> Inl e
             | Inr st \<Rightarrow>
                 let (routes, rules) = BesideTailscale (bs_routes st) (bs_rules st) inp
                 in Inr (sort_key (\<lambda>r. RouteKey (mr_Route r)) routes, sort_key (\<lambda>r. RuleKey (ml_Rule r)) rules)))"

section \<open>What a successful build emits\<close>

definition exclude_prefixes :: "profile \<Rightarrow> desired_input \<Rightarrow> tunnel_plan \<Rightarrow> family \<Rightarrow> netprefix list" where
  "exclude_prefixes p inp tunnels fam =
     outsideTunnels (outsideTunnels (profilePrefixes p inp fam) (tp_nets tunnels)) (in_Tailscale inp)"

definition fam_routes :: "desired_input \<Rightarrow> tunnel_plan \<Rightarrow> profile \<Rightarrow> family \<Rightarrow> managed_route list" where
  "fam_routes inp tunnels p fam =
     (case resolveGateway (pf_Gateway p) fam inp of
        Inl _ \<Rightarrow> []
      | Inr (gw, iface) \<Rightarrow>
          map (\<lambda>pfx. \<lparr>mr_Route = exclude_route p inp gw iface fam pfx, mr_ProfileID = pf_ID p, mr_CreatedAt = in_Now inp\<rparr>)
            (Aggregate (exclude_prefixes p inp tunnels fam)))"

definition include_prefixes :: "profile \<Rightarrow> desired_input \<Rightarrow> tunnel_plan \<Rightarrow> family \<Rightarrow> netprefix list" where
  "include_prefixes p inp tunnels fam =
     (let around = aroundTunnels (profilePrefixes p inp fam) (tp_nets tunnels)
      in if in_Platform inp = ''darwin'' then aroundTunnels around (in_Tailscale inp) else around)"

definition managed_of :: "profile \<Rightarrow> desired_input \<Rightarrow> policy_rule \<Rightarrow> managed_rule" where
  "managed_of p inp pr = \<lparr>ml_Rule = pr, ml_ProfileID = pf_ID p, ml_CreatedAt = in_Now inp\<rparr>"

definition to_rule :: "desired_input \<Rightarrow> family \<Rightarrow> netprefix \<Rightarrow> policy_rule option" where
  "to_rule inp fam pfx =
     (if in_Platform inp = ''darwin'' then darwin_rule inp (''to '' @ prefix_string pfx) fam
      else Some (modelb_rule inp (''to '' @ prefix_string pfx) fam))"

definition fam_rules :: "desired_input \<Rightarrow> tunnel_plan \<Rightarrow> profile \<Rightarrow> family \<Rightarrow> policy_rule list" where
  "fam_rules inp tunnels p fam =
     List.map_filter (to_rule inp fam) (Aggregate (include_prefixes p inp tunnels fam))"

definition user_rules :: "desired_input \<Rightarrow> string \<Rightarrow> family \<Rightarrow> policy_rule list" where
  "user_rules inp uid fam =
     (case darwin_rule inp (''user '' @ uid) fam of
        None \<Rightarrow> []
      | Some pr \<Rightarrow> pr # map (\<lambda>n. policy_rule0\<lparr>pr_Priority := TailscaleRulePrio,
                    pr_Selector := ''to '' @ prefix_string (masked n) @ '' user '' @ uid, pr_Family := fam,
                    pr_Proto := ''riftroute''\<rparr>)
             (filter (\<lambda>n. famOf (pfx_addr n) = fam) (in_Tailscale inp)))"

definition app_rules :: "desired_input \<Rightarrow> profile \<Rightarrow> policy_rule list" where
  "app_rules inp p =
     (if in_Platform inp = ''darwin''
      then concat (map (\<lambda>r. user_rules inp (ru_Value r) FamilyV4 @ user_rules inp (ru_Value r) FamilyV6)
        (filter (\<lambda>r. ru_Type r = RuleApp) (pf_Rules p)))
      else if list_ex (\<lambda>r. ru_Type r = RuleApp) (pf_Rules p)
        then [modelb_rule inp (''fwmark '' @ ModelBMark) FamilyV4] else [])"

abbreviation exclude_on :: "profile \<Rightarrow> bool" where
  "exclude_on p \<equiv> pf_Enabled p \<and> pf_Mode p \<noteq> ModeTunnel \<and> pf_Mode p \<noteq> ModeInclude"

abbreviation include_on :: "profile \<Rightarrow> bool" where
  "include_on p \<equiv> pf_Enabled p \<and> pf_Mode p = ModeInclude"

definition profile_routes :: "desired_input \<Rightarrow> tunnel_plan \<Rightarrow> profile \<times> family list \<Rightarrow> managed_route list" where
  "profile_routes inp tunnels = (\<lambda>(p, ord). if exclude_on p then concat (map (fam_routes inp tunnels p) ord) else [])"

definition profile_rules :: "desired_input \<Rightarrow> tunnel_plan \<Rightarrow> profile \<times> family list \<Rightarrow> managed_rule list" where
  "profile_rules inp tunnels = (\<lambda>(p, ord).
     if include_on p then map (managed_of p inp) (concat (map (fam_rules inp tunnels p) ord) @ app_rules inp p) else [])"

text \<open>
  The state after some emissions: what was new by its key was appended, and on Linux the families
  of the new rules were noted.
\<close>

definition emit :: "desired_input \<Rightarrow> managed_route list \<Rightarrow> managed_rule list \<Rightarrow> build_state \<Rightarrow> build_state" where
  "emit inp rs ls st =
     (let new = dedup_by (\<lambda>r. RuleKey (ml_Rule r)) (bs_seenRule st) ls
      in st\<lparr>bs_seenRoute := bs_seenRoute st \<union> set (route_keys rs),
           bs_seenRule := bs_seenRule st \<union> set (map (\<lambda>r. RuleKey (ml_Rule r)) ls),
           bs_routes := bs_routes st @ dedup_by (\<lambda>r. RouteKey (mr_Route r)) (bs_seenRoute st) rs,
           bs_rules := bs_rules st @ new,
           bs_includeFams := bs_includeFams st
             \<union> (if in_Platform inp = ''darwin'' then {} else set (map (\<lambda>r. pr_Family (ml_Rule r)) new))\<rparr>)"

lemma emit_Nil [simp]: "emit inp [] [] st = st"
  by (simp add: emit_def)

lemma emit_emit: "emit inp rs' ls' (emit inp rs ls st) = emit inp (rs @ rs') (ls @ ls') st"
  by (simp add: emit_def dedup_by_append Un_assoc Let_def image_Un)

lemma fold_add_route_st:
  "foldl (add_route_st i inp) st rts
     = emit inp (map (\<lambda>rt. \<lparr>mr_Route = rt, mr_ProfileID = i, mr_CreatedAt = in_Now inp\<rparr>) rts) [] st"
proof (induction rts arbitrary: st)
  case (Cons rt rts)
  have "add_route_st i inp st rt = emit inp [\<lparr>mr_Route = rt, mr_ProfileID = i, mr_CreatedAt = in_Now inp\<rparr>] [] st"
    by (simp add: add_route_st_def addRoute_def emit_def Let_def insert_absorb)
  then show ?case by (simp add: Cons emit_emit)
qed simp

lemma fold_add_rule:
  assumes "in_Platform inp = ''darwin''"
  shows "foldl (add_rule p inp) st prs = emit inp [] (map (managed_of p inp) prs) st"
proof (induction prs arbitrary: st)
  case (Cons pr prs)
  have "add_rule p inp st pr = emit inp [] [managed_of p inp pr] st"
    using assms by (simp add: add_rule_def emit_def managed_of_def Let_def insert_absorb)
  then show ?case by (simp add: Cons emit_emit)
qed simp

lemma fold_add_rule_fam:
  assumes "in_Platform inp \<noteq> ''darwin''"
  shows "list_all (\<lambda>(pr, fam). pr_Family pr = fam) prs \<Longrightarrow>
    foldl (add_rule_fam p inp) st prs = emit inp [] (map (managed_of p inp \<circ> fst) prs) st"
proof (induction prs arbitrary: st)
  case (Cons x prs)
  have "add_rule_fam p inp st x = emit inp [] [managed_of p inp (fst x)] st"
    using assms Cons.prems
    by (cases x) (simp add: add_rule_fam_def add_rule_def emit_def managed_of_def Let_def insert_absorb)
  then show ?case using Cons by (simp add: emit_emit)
qed simp

lemma outsideTunnels_subset: "set (outsideTunnels ps nets) \<subseteq> set ps"
  by (auto simp: outsideTunnels_def)

definition entry_ok :: "netprefix \<times> family \<Rightarrow> bool" where
  "entry_ok e \<longleftrightarrow> is_valid (fst e) \<and> snd e = famOf (pfx_addr (fst e))"

lemma entries_ok: "list_all entry_ok (List.map_filter entryToPrefix ss)"
  using entryToPrefix_valid by (auto simp: list_all_iff in_map_filter entry_ok_def)

lemma rule_entries_ok: "list_all entry_ok (rule_entries inp r)"
  using entries_ok ruleToPrefix_valid by (auto simp: rule_entries_def entry_ok_def split: option.splits)

lemma profile_entries_ok: "list_all entry_ok (profile_entries p inp)"
  using entries_ok rule_entries_ok by (auto simp: profile_entries_def list_all_iff)

lemma profilePrefixes_valid:
  "q \<in> set (profilePrefixes p inp fam) \<Longrightarrow> is_valid q \<and> famOf (pfx_addr q) = fam"
  using profile_entries_ok[of p inp] by (auto simp: profilePrefixes_def list_all_iff entry_ok_def)

lemma Aggregate_Nil [simp]: "Aggregate [] = []"
proof -
  have "x \<notin> set (Aggregate [])" for x
    using Aggregate_spec[of "[]"] masked_net_covers_nonempty[of x] by (auto simp: covers_all_def)
  then show ?thesis by (cases "Aggregate []") auto
qed

lemma exclude_fams_Inr:
  "exclude_fams p inp tunnels ord st a b c = Inr (st', x) \<Longrightarrow>
     st' = emit inp (concat (map (fam_routes inp tunnels p) ord)) [] st"
proof (induction ord arbitrary: st a b c)
  case (Cons fam ord)
  show ?case
  proof (cases "exclude_prefixes p inp tunnels fam = []")
    case True
    then have "fam_routes inp tunnels p fam = []" by (auto simp: fam_routes_def split: sum.splits)
    with True Cons show ?thesis by (simp add: exclude_prefixes_def)
  next
    case False
    show ?thesis
    proof (cases "resolveGateway (pf_Gateway p) fam inp")
      case (Inl e)
      then have "fam_routes inp tunnels p fam = []" by (simp add: fam_routes_def)
      with False Inl Cons show ?thesis by (auto simp: exclude_prefixes_def split: if_splits)
    next
      case (Inr g)
      then obtain gw iface where g: "resolveGateway (pf_Gateway p) fam inp = Inr (gw, iface)" by (cases g) auto
      have "fam_routes inp tunnels p fam = map (\<lambda>rt. \<lparr>mr_Route = rt, mr_ProfileID = pf_ID p, mr_CreatedAt = in_Now inp\<rparr>)
          (map (exclude_route p inp gw iface fam) (Aggregate (exclude_prefixes p inp tunnels fam)))"
        by (simp add: fam_routes_def g)
      moreover have "exclude_fams p inp tunnels ord (foldl (add_route_st (pf_ID p) inp) st
          (map (exclude_route p inp gw iface fam) (Aggregate (exclude_prefixes p inp tunnels fam)))) a (Suc b) c = Inr (st', x)"
        using Cons.prems False g by (simp add: exclude_prefixes_def Let_def)
      ultimately show ?thesis by (auto dest!: Cons.IH simp: fold_add_route_st emit_emit)
    qed
  qed
qed simp

lemma darwin_prefixes_Inr:
  "darwin_prefixes p inp fam pfxs st = Inr st' \<Longrightarrow>
     st' = foldl (add_rule p inp) st (List.map_filter (\<lambda>pfx. darwin_rule inp (''to '' @ prefix_string pfx) fam) pfxs)"
  by (induction pfxs arbitrary: st) (auto simp: map_filter_Cons List.map_filter_simps split: option.splits)

lemma darwin_fams_Inr:
  "darwin_fams p inp byFamily ord st = Inr st' \<Longrightarrow>
     st' = foldl (add_rule p inp) st (concat (map (\<lambda>fam. List.map_filter
       (\<lambda>pfx. darwin_rule inp (''to '' @ prefix_string pfx) fam) (Aggregate (byFamily fam))) ord))"
  by (induction ord arbitrary: st) (auto dest!: darwin_prefixes_Inr split: sum.splits)

lemma darwin_app_fst: "fst (darwin_app p inp uid (st, e) fam) = foldl (add_rule p inp) st (user_rules inp uid fam)"
  by (simp add: darwin_app_def user_rules_def split: option.splits)

lemma darwin_apps_Inr:
  "darwin_apps p inp rs st = Inr st' \<Longrightarrow>
     st' = foldl (add_rule p inp) st (concat (map (\<lambda>r. user_rules inp (ru_Value r) FamilyV4 @ user_rules inp (ru_Value r) FamilyV6)
        (filter (\<lambda>r. ru_Type r = RuleApp) rs)))"
proof (induction rs arbitrary: st)
  case (Cons r rs)
  have "fst (foldl (darwin_app p inp (ru_Value r)) (st, False) [FamilyV4, FamilyV6])
      = foldl (add_rule p inp) st (user_rules inp (ru_Value r) FamilyV4 @ user_rules inp (ru_Value r) FamilyV6)"
    using darwin_app_fst by simp (metis prod.collapse)
  moreover have "ru_Type r = RuleApp \<Longrightarrow>
      darwin_apps p inp rs (fst (foldl (darwin_app p inp (ru_Value r)) (st, False) [FamilyV4, FamilyV6])) = Inr st'"
    using Cons.prems by (auto simp: Let_def split: if_splits prod.splits)
  ultimately show ?case using Cons.IH Cons.prems by (cases "ru_Type r = RuleApp") auto
qed simp



lemma build_include_Inr:
  assumes "build_include p inp tunnels ord st = Inr st'" and "include_on p"
  shows "in_PolicyRouting inp" "st' = emit inp [] (profile_rules inp tunnels (p, ord)) st"
proof -
  show pr: "in_PolicyRouting inp" using assms(1) by (auto simp: build_include_def split: if_splits)
  show "st' = emit inp [] (profile_rules inp tunnels (p, ord)) st"
  proof (cases "in_Platform inp = ''darwin''")
    case True
    then have p: "fam_rules inp tunnels p fam = List.map_filter (\<lambda>pfx. darwin_rule inp (''to '' @ prefix_string pfx) fam)
        (Aggregate (aroundTunnels (aroundTunnels (profilePrefixes p inp fam) (tp_nets tunnels)) (in_Tailscale inp)))" for fam
      by (simp add: fam_rules_def to_rule_def[abs_def] include_prefixes_def)
    have "st' = foldl (add_rule p inp) st (concat (map (fam_rules inp tunnels p) ord) @ app_rules inp p)"
      using assms(1) pr True
      by (auto simp: build_include_def buildDarwinInclude_def app_rules_def p[abs_def] dest!: darwin_fams_Inr darwin_apps_Inr split: sum.splits)
    then show ?thesis using True assms(2) by (simp add: fold_add_rule profile_rules_def emit_emit)
  next
    case False
    have p: "fam_rules inp tunnels p fam = map (\<lambda>pfx. modelb_rule inp (''to '' @ prefix_string pfx) fam)
        (Aggregate (aroundTunnels (profilePrefixes p inp fam) (tp_nets tunnels)))" for fam
      using False by (simp add: fam_rules_def to_rule_def[abs_def] include_prefixes_def List.map_filter_def)
    let ?prs = "linux_rules p inp (\<lambda>fam. aroundTunnels (profilePrefixes p inp fam) (tp_nets tunnels)) ord"
    have "map fst ?prs = concat (map (fam_rules inp tunnels p) ord) @ app_rules inp p"
      using False by (simp add: linux_rules_def app_rules_def p[abs_def] map_concat comp_def)
    moreover have "list_all (\<lambda>(pr, fam). pr_Family pr = fam) ?prs"
      by (auto simp: linux_rules_def modelb_rule_def policy_rule0_def list_all_iff)
    moreover have "st' = foldl (add_rule_fam p inp) st ?prs"
      using assms(1) pr False by (simp add: build_include_def)
    ultimately show ?thesis using False assms(2)
      by (simp add: fold_add_rule_fam profile_rules_def flip: map_map)
  qed
qed

lemma build_profile_Inr:
  assumes "build_profile inp tunnels ord p st = Inr st'"
  shows "st' = emit inp (profile_routes inp tunnels (p, ord)) (profile_rules inp tunnels (p, ord)) st"
proof -
  consider "\<not> pf_Enabled p \<or> pf_Mode p = ModeTunnel" | "include_on p" | "exclude_on p" by blast
  then show ?thesis
  proof cases
    case 1
    then show ?thesis using assms by (auto simp: build_profile_def profile_routes_def profile_rules_def)
  next
    case 2
    then show ?thesis using assms build_include_Inr(2)[of p inp tunnels ord st st']
      by (simp add: build_profile_def profile_routes_def)
  next
    case 3
    then show ?thesis using assms
      by (auto simp: build_profile_def build_exclude_def profile_routes_def profile_rules_def dest!: exclude_fams_Inr
          split: sum.splits option.splits if_splits)
  qed
qed

lemma build_profiles_Inr:
  "build_profiles inp tunnels ps st = Inr st' \<Longrightarrow>
     st' = emit inp (concat (map (profile_routes inp tunnels) ps)) (concat (map (profile_rules inp tunnels) ps)) st"
proof (induction ps arbitrary: st)
  case (Cons x ps)
  obtain p ord where x: "x = (p, ord)" by (cases x)
  from Cons.prems obtain st1 where "build_profile inp tunnels ord p st = Inr st1" "build_profiles inp tunnels ps st1 = Inr st'"
    by (auto simp: x split: sum.splits)
  then show ?case using build_profile_Inr[of inp tunnels ord p st st1] Cons.IH[of st1] by (simp add: x emit_emit)
qed simp

text \<open>The routes of the plan that \<open>place\<close> adds.\<close>

fun placed :: "string set \<Rightarrow> string set \<Rightarrow> managed_route list \<Rightarrow> managed_route list" where
  "placed taken seen [] = []"
| "placed taken seen (r # rs) =
     (if dstKey (mr_Route r) \<in> taken then placed taken seen rs
      else if RouteKey (mr_Route r) \<in> seen then placed (insert (dstKey (mr_Route r)) taken) seen rs
      else r # placed (insert (dstKey (mr_Route r)) taken) (insert (RouteKey (mr_Route r)) seen) rs)"

lemma place_placed:
  "place tp seen routes =
     (seen \<union> set (route_keys (placed (set (dst_keys routes)) seen (tp_Routes tp))),
      routes @ placed (set (dst_keys routes)) seen (tp_Routes tp))"
proof -
  have "snd (foldl place_step (taken, seen, routes) rs) =
      (seen \<union> set (route_keys (placed taken seen rs)), routes @ placed taken seen rs)" for taken routes rs
    by (induction rs arbitrary: taken seen routes) (simp_all add: place_step_def addRoute_def Let_def)
  then show ?thesis by (simp add: place_def)
qed

lemma placed_props:
  "set (placed taken seen rs) \<subseteq> set rs" "distinct (route_keys (placed taken seen rs))"
  "set (route_keys (placed taken seen rs)) \<inter> seen = {}"
proof -
  have "set (placed taken seen rs) \<subseteq> set rs \<and> distinct (route_keys (placed taken seen rs))
      \<and> set (route_keys (placed taken seen rs)) \<inter> seen = {}"
    by (induction taken seen rs rule: placed.induct) auto
  then show "set (placed taken seen rs) \<subseteq> set rs" "distinct (route_keys (placed taken seen rs))"
    "set (route_keys (placed taken seen rs)) \<inter> seen = {}" by auto
qed

definition default_route_of :: "desired_input \<Rightarrow> family \<Rightarrow> managed_route" where
  "default_route_of inp fam =
     \<lparr>mr_Route = route0\<lparr>rt_DstCIDR := (if fam = FamilyV6 then ''::/0'' else ''0.0.0.0/0''),
        rt_Gateway := (if addr_valid (fst (vpnFor fam inp)) then addr_string (fst (vpnFor fam inp)) else []),
        rt_Iface := snd (vpnFor fam inp), rt_Family := fam,
        rt_Owner := OwnerRiftRoute, rt_Proto := protoFor (in_Platform inp), rt_Table := ModelBTable,
        rt_Profile := modelBProfileTag\<rparr>, mr_ProfileID = modelBProfileTag, mr_CreatedAt = in_Now inp\<rparr>"

lemma emit_includeFams [simp]: "bs_includeFams (emit inp rs [] st) = bs_includeFams st"
  by (simp add: emit_def)

lemma table_defaults_Inr:
  "table_defaults inp ord st = Inr st' \<Longrightarrow>
     st' = emit inp (map (default_route_of inp) (filter (\<lambda>f. f \<in> bs_includeFams st) ord)) [] st
     \<and> (\<forall>f \<in> set ord \<inter> bs_includeFams st. snd (vpnFor f inp) \<noteq> [])"
proof (induction ord arbitrary: st)
  case (Cons fam ord)
  let ?d = "mr_Route (default_route_of inp fam)"
  have one: "add_route_st modelBProfileTag inp st ?d = emit inp [default_route_of inp fam] [] st"
    using fold_add_route_st[of modelBProfileTag inp st "[?d]"] by (simp add: default_route_of_def)
  show ?case
  proof (cases "fam \<in> bs_includeFams st")
    case True
    with Cons.prems have "snd (vpnFor fam inp) \<noteq> []"
      "table_defaults inp ord (add_route_st modelBProfileTag inp st ?d) = Inr st'"
      by (auto simp: default_route_of_def Let_def split: prod.splits if_splits)
    then show ?thesis using True Cons.IH[of "emit inp [default_route_of inp fam] [] st"] by (simp add: one emit_emit)
  next
    case False
    then show ?thesis using Cons by simp
  qed
qed simp


section \<open>The result of a successful build\<close>

abbreviation rule_keys :: "managed_rule list \<Rightarrow> string list" where
  "rule_keys ls \<equiv> map (\<lambda>r. RuleKey (ml_Rule r)) ls"

definition visited :: "(nat \<Rightarrow> family list) \<Rightarrow> desired_input \<Rightarrow> (profile \<times> family list) list" where
  "visited ords inp = zip (by_priority inp) (map ords [0..<length (by_priority inp)])"

definition base_routes :: "(nat \<Rightarrow> family list) \<Rightarrow> desired_input \<Rightarrow> managed_route list" where
  "base_routes ords inp = dedup_by (\<lambda>r. RouteKey (mr_Route r)) {}
     (concat (map (profile_routes inp (PlanTunnels inp)) (visited ords inp)))"

definition base_rules :: "(nat \<Rightarrow> family list) \<Rightarrow> desired_input \<Rightarrow> managed_rule list" where
  "base_rules ords inp = dedup_by (\<lambda>r. RuleKey (ml_Rule r)) {}
     (concat (map (profile_rules inp (PlanTunnels inp)) (visited ords inp)))"

definition rule_fams :: "(nat \<Rightarrow> family list) \<Rightarrow> desired_input \<Rightarrow> family set" where
  "rule_fams ords inp =
     (if in_Platform inp = ''darwin'' then {} else set (map (\<lambda>r. pr_Family (ml_Rule r)) (base_rules ords inp)))"

definition all_routes :: "(nat \<Rightarrow> family list) \<Rightarrow> family list \<Rightarrow> desired_input \<Rightarrow> managed_route list" where
  "all_routes ords endord inp =
     (let base = base_routes ords inp;
          pl = base @ placed (set (dst_keys base)) (set (route_keys base)) (tp_Routes (PlanTunnels inp))
      in pl @ dedup_by (\<lambda>r. RouteKey (mr_Route r)) (set (route_keys pl))
        (map (default_route_of inp) (filter (\<lambda>f. f \<in> rule_fams ords inp) endord)))"

lemma BuildDesired_Inr:
  assumes "BuildDesired ords endord inp = Inr (routes, rules)"
  shows "routes = sort_key (\<lambda>r. RouteKey (mr_Route r)) (fst (BesideTailscale (all_routes ords endord inp) (base_rules ords inp) inp))"
    and "rules = sort_key (\<lambda>r. RuleKey (ml_Rule r)) (snd (BesideTailscale (all_routes ords endord inp) (base_rules ords inp) inp))"
    and "\<forall>f \<in> set endord \<inter> rule_fams ords inp. snd (vpnFor f inp) \<noteq> []"
proof -
  from assms obtain st1 st2 where st1: "build_profiles inp (PlanTunnels inp) (visited ords inp) build0 = Inr st1"
    and st2: "table_defaults inp endord (place_st (PlanTunnels inp) st1) = Inr st2"
    and r: "(routes, rules) = (sort_key (\<lambda>r. RouteKey (mr_Route r)) (fst (BesideTailscale (bs_routes st2) (bs_rules st2) inp)),
       sort_key (\<lambda>r. RuleKey (ml_Rule r)) (snd (BesideTailscale (bs_routes st2) (bs_rules st2) inp)))"
    by (auto simp: BuildDesired_def visited_def Let_def split: sum.splits prod.splits)
  have k: "(\<lambda>r. RouteKey (mr_Route r)) ` set (dedup_by (\<lambda>r. RouteKey (mr_Route r)) {} rs) = (\<lambda>r. RouteKey (mr_Route r)) ` set rs" for rs
    using dedup_by_keys[of "\<lambda>r. RouteKey (mr_Route r)" "{}" rs] by simp
  from build_profiles_Inr[OF st1] have s1: "bs_routes st1 = base_routes ords inp" "bs_rules st1 = base_rules ords inp"
    "bs_seenRoute st1 = set (route_keys (base_routes ords inp))" "bs_includeFams st1 = rule_fams ords inp"
    by (simp_all add: emit_def build0_def base_routes_def base_rules_def rule_fams_def Let_def k)
  let ?p = "place_st (PlanTunnels inp) st1"
  let ?pl = "base_routes ords inp @ placed (set (dst_keys (base_routes ords inp))) (set (route_keys (base_routes ords inp))) (tp_Routes (PlanTunnels inp))"
  have p: "bs_routes ?p = ?pl" "bs_seenRoute ?p = set (route_keys ?pl)" "bs_rules ?p = base_rules ords inp"
    "bs_includeFams ?p = rule_fams ords inp"
    by (simp_all add: place_st_def place_placed s1)
  note t = table_defaults_Inr[OF st2, unfolded p(4)]
  have "bs_routes st2 = bs_routes ?p @ dedup_by (\<lambda>r. RouteKey (mr_Route r)) (bs_seenRoute ?p)
      (map (default_route_of inp) (filter (\<lambda>f. f \<in> rule_fams ords inp) endord))" "bs_rules st2 = bs_rules ?p"
    using t by (simp_all add: emit_def)
  then have "bs_routes st2 = all_routes ords endord inp" "bs_rules st2 = base_rules ords inp"
    unfolding p all_routes_def Let_def by simp_all
  with r t show "routes = sort_key (\<lambda>r. RouteKey (mr_Route r)) (fst (BesideTailscale (all_routes ords endord inp) (base_rules ords inp) inp))"
    "rules = sort_key (\<lambda>r. RuleKey (ml_Rule r)) (snd (BesideTailscale (all_routes ords endord inp) (base_rules ords inp) inp))"
    "\<forall>f \<in> set endord \<inter> rule_fams ords inp. snd (vpnFor f inp) \<noteq> []" by simp_all
qed

end
