(* ===== verification/Desired.thy ===== *)
theory Desired
  imports Engine
begin

text \<open>
  Properties of \<^verbatim>\<open>BuildDesired\<close>: the result in terms of what the profiles emit, its
  independence of Go's map order, the tables of include rules, and what rules and routes cover.
\<close>

section \<open>Independence of the order of the families\<close>

lemma dedup_by_unseen: "key ` set ys \<inter> T = {} \<Longrightarrow> dedup_by key (S \<union> T) ys = dedup_by key S ys"
proof (induction ys arbitrary: S)
  case (Cons y ys)
  then show ?case using Cons.IH[of S] Cons.IH[of "insert (key y) S"] by auto
qed simp

lemma set_dedup_swap:
  assumes "key ` set xs \<inter> key ` set ys = {}"
  shows "set (dedup_by key S (xs @ ys)) = set (dedup_by key S (ys @ xs))"
proof -
  have "key ` set ys \<inter> key ` set xs = {}" using assms by blast
  from dedup_by_unseen[OF this, of S] dedup_by_unseen[OF assms, of S] show ?thesis
    by (simp add: dedup_by_append Un_commute)
qed

lemma set_dedup_append_cong:
  assumes "set (dedup_by key S xs) = set (dedup_by key S xs')" "key ` set xs = key ` set xs'"
    "set (dedup_by key (S \<union> key ` set xs) ys) = set (dedup_by key (S \<union> key ` set xs) ys')"
  shows "set (dedup_by key S (xs @ ys)) = set (dedup_by key S (xs' @ ys'))"
  using assms by (simp add: dedup_by_append)

lemma set_dedup_concat_cong:
  assumes "list_all2 (\<lambda>xs ys. (\<forall>S. set (dedup_by key S xs) = set (dedup_by key S ys)) \<and> key ` set xs = key ` set ys) xss yss"
  shows "set (dedup_by key S (concat xss)) = set (dedup_by key S (concat yss))"
  using assms
proof (induction arbitrary: S rule: list_all2_induct)
  case (Cons xs xss ys yss)
  then show ?case using set_dedup_append_cong[of key S xs ys] by simp
qed simp

definition both :: "family list \<Rightarrow> bool" where
  "both ord \<longleftrightarrow> ord = [FamilyV4, FamilyV6] \<or> ord = [FamilyV6, FamilyV4]"

lemma RouteKey_family: "rt_Family r = FamilyV4 \<or> rt_Family r = FamilyV6 \<Longrightarrow> take 2 (RouteKey r) = rt_Family r"
  by (auto simp: RouteKey_def Let_def)

lemma fam_routes_family: "r \<in> set (fam_routes inp tunnels p fam) \<Longrightarrow> rt_Family (mr_Route r) = fam \<and> rt_Table (mr_Route r) = []"
  by (auto simp: fam_routes_def exclude_route_def route0_def split: sum.splits)

lemma fam_routes_disjoint:
  "(\<lambda>r. RouteKey (mr_Route r)) ` set (fam_routes inp tunnels p FamilyV4)
     \<inter> (\<lambda>r. RouteKey (mr_Route r)) ` set (fam_routes inp tunnels p FamilyV6) = {}"
proof -
  have "take 2 (RouteKey (mr_Route r)) = FamilyV4" if "r \<in> set (fam_routes inp tunnels p FamilyV4)" for r
    using RouteKey_family[of "mr_Route r"] fam_routes_family[OF that] by simp
  moreover have "take 2 (RouteKey (mr_Route r)) = FamilyV6" if "r \<in> set (fam_routes inp tunnels p FamilyV6)" for r
    using RouteKey_family[of "mr_Route r"] fam_routes_family[OF that] by simp
  ultimately show ?thesis by (fastforce)
qed

lemma bar_cut: "a @ CHR ''|'' # b = a' @ CHR ''|'' # b' \<Longrightarrow> CHR ''|'' \<notin> set a \<Longrightarrow> CHR ''|'' \<notin> set a' \<Longrightarrow> a = a' \<and> b = b'"
proof (induction a arbitrary: a')
  case Nil
  then show ?case by (cases a') auto
next
  case (Cons c a)
  then show ?case by (cases a') auto
qed

lemma include_prefixes_spec:
  assumes "valid_all (tp_nets tunnels)" "valid_all (in_Tailscale inp)"
  shows "covers_all (include_prefixes p inp tunnels fam) \<subseteq> covers_all (profilePrefixes p inp fam) - covers_all (tp_nets tunnels)"
    "in_Platform inp = ''darwin'' \<Longrightarrow> covers_all (include_prefixes p inp tunnels fam) \<inter> covers_all (in_Tailscale inp) = {}"
    "valid_all (include_prefixes p inp tunnels fam)"
proof -
  have v: "valid_all (profilePrefixes p inp fam)" using profilePrefixes_valid by blast
  note s = aroundTunnels_spec[OF v assms(1)]
  note t = aroundTunnels_spec[OF s(2) assms(2)]
  show "covers_all (include_prefixes p inp tunnels fam) \<subseteq> covers_all (profilePrefixes p inp fam) - covers_all (tp_nets tunnels)"
    "in_Platform inp = ''darwin'' \<Longrightarrow> covers_all (include_prefixes p inp tunnels fam) \<inter> covers_all (in_Tailscale inp) = {}"
    "valid_all (include_prefixes p inp tunnels fam)"
    unfolding include_prefixes_def Let_def using s t by (cases "in_Platform inp = ''darwin''"; simp; blast?)+
qed


lemma PlanTunnels_nets_valid: "valid_all (tp_nets (PlanTunnels inp))"
proof -
  obtain taken held routes where p: "plan_pins inp = (taken, held, routes)" by (metis prod_cases3)
  from PlanTunnels_inv(1)[OF p] show ?thesis by (auto simp: plan_inv_def)
qed

lemma to_rule_key:
  assumes "to_rule inp fam p = Some pr"
  shows "\<exists>rest. RuleKey pr = ''5252|to '' @ prefix_string p @ CHR ''|'' # rest" "pr_Family pr = fam"
    "pr_Selector pr = ''to '' @ prefix_string p" "pr_Priority pr = ModelBRulePrio"
proof -
  have i: "itoa 5252 = ''5252''" by code_simp
  have s: "pr_Family pr = fam" "pr_Selector pr = ''to '' @ prefix_string p" "pr_Priority pr = ModelBRulePrio"
    using assms by (auto simp: to_rule_def darwin_rule_def modelb_rule_def policy_rule0_def Let_def split: if_splits prod.splits)
  then show "pr_Family pr = fam" "pr_Selector pr = ''to '' @ prefix_string p" "pr_Priority pr = ModelBRulePrio" .
  show "\<exists>rest. RuleKey pr = ''5252|to '' @ prefix_string p @ CHR ''|'' # rest"
    using s by (simp add: RuleKey_def Let_def i)
qed

lemma fam_rules_mem:
  assumes "pr \<in> set (fam_rules inp tunnels p fam)"
  obtains q where "q \<in> set (Aggregate (include_prefixes p inp tunnels fam))" "to_rule inp fam q = Some pr"
  using assms by (auto simp: fam_rules_def in_map_filter)

lemma include_prefixes_family:
  assumes "valid_all (tp_nets tunnels)" "valid_all (in_Tailscale inp)" "q \<in> set (Aggregate (include_prefixes p inp tunnels fam))"
  shows "famOf (pfx_addr q) = fam"
proof -
  have q: "masked_net q" "covers q \<subseteq> covers_all (include_prefixes p inp tunnels fam)"
    using Aggregate_spec[of "include_prefixes p inp tunnels fam"] assms(3) by (auto simp: covers_all_def)
  then obtain a where a: "a \<in> covers q" using masked_net_covers_nonempty by blast
  then have "a \<in> covers_all (profilePrefixes p inp fam)" using q(2) include_prefixes_spec(1)[OF assms(1,2), of p fam] by blast
  then obtain s where "s \<in> set (profilePrefixes p inp fam)" "a \<in> covers s" by (auto simp: covers_all_def)
  then show ?thesis using profilePrefixes_valid[of s p inp fam] a q(1) in_covers_iff[of q a] in_covers_iff[of s a]
    by (auto simp: famOf_def is6_iff masked_net_valid)
qed

lemma fam_rules_disjoint:
  assumes "valid_all (tp_nets tunnels)" "valid_all (in_Tailscale inp)"
    and x: "x \<in> set (fam_rules inp tunnels p FamilyV4)" "y \<in> set (fam_rules inp tunnels p FamilyV6)"
  shows "RuleKey x \<noteq> RuleKey y"
proof
  assume e: "RuleKey x = RuleKey y"
  from x obtain q r where q: "q \<in> set (Aggregate (include_prefixes p inp tunnels FamilyV4))" "to_rule inp FamilyV4 q = Some x"
    and r: "r \<in> set (Aggregate (include_prefixes p inp tunnels FamilyV6))" "to_rule inp FamilyV6 r = Some y"
    by (metis fam_rules_mem)
  have v: "is_valid q" "is_valid r" using Aggregate_spec q(1) r(1) by blast+
  from to_rule_key(1)[OF q(2)] to_rule_key(1)[OF r(2)] e obtain b b' where
    "prefix_string q @ CHR ''|'' # b = prefix_string r @ CHR ''|'' # b'" by (metis same_append_eq)
  then have "prefix_string q = prefix_string r" using bar_cut prefix_string_no_sep(1) v by blast
  then have "q = r" using prefix_string_inject v by blast
  then show False using include_prefixes_family[OF assms(1,2) q(1)] include_prefixes_family[OF assms(1,2) r(1)] by simp
qed

text \<open>Every planned route is a main-table route of a family, tagged with its tunnel.\<close>

definition tunnel_shaped :: "managed_route \<Rightarrow> bool" where
  "tunnel_shaped r \<longleftrightarrow> rt_Table (mr_Route r) = [] \<and> (rt_Family (mr_Route r) = FamilyV4 \<or> rt_Family (mr_Route r) = FamilyV6)
     \<and> has_prefix (mr_ProfileID r) TunnelProfilePrefix"

lemma fold_all: "(\<And>s x. P s \<Longrightarrow> P (f s x)) \<Longrightarrow> P s \<Longrightarrow> P (foldl f s xs)"
  by (induction xs arbitrary: s) auto

lemma tunnel_route_shaped:
  "rt_Table rt = [] \<Longrightarrow> rt_Family rt = FamilyV4 \<or> rt_Family rt = FamilyV6 \<Longrightarrow>
     tunnel_shaped (tunnel_route rt (TunnelProfilePrefix @ n) inp)"
  by (auto simp: tunnel_shaped_def tunnel_route_def simp del: append_Cons)

lemma pins_shaped: "list_all tunnel_shaped (snd (snd (plan_pins inp)))"
proof -
  have s: "list_all tunnel_shaped (snd (snd (pin_step inp t st a)))" if "list_all tunnel_shaped (snd (snd st))" for t st a
    using that famOf_cases[of a] tunnel_route_shaped
    by (auto simp: pin_step_def route0_def Let_def split: prod.splits sum.splits)
  have "list_all tunnel_shaped (snd (snd (pin_tunnel inp st t)))" if "list_all tunnel_shaped (snd (snd st))" for st t
    using fold_all[of "\<lambda>s. list_all tunnel_shaped (snd (snd s))" "pin_step inp t" st "ti_Bypass t"] s that
    by (auto simp: pin_tunnel_def split: prod.splits)
  then show ?thesis
    unfolding plan_pins_def by (intro fold_all[of "\<lambda>s. list_all tunnel_shaped (snd (snd s))"]) auto
qed

lemma PlanTunnels_shaped: "list_all tunnel_shaped (tp_Routes (PlanTunnels inp))"
proof -
  have f: "list_all tunnel_shaped (tp_Routes (snd (install_family inp t b st fam)))"
    if "list_all tunnel_shaped (tp_Routes (snd st))" "fam = FamilyV4 \<or> fam = FamilyV6" for t b st fam
    using that tunnel_route_shaped
    by (cases st) (auto simp: install_family_def install_foldl list_all_iff route0_def)
  have t: "list_all tunnel_shaped (tp_Routes (snd (plan_tunnel inp ts held st t)))"
    if "list_all tunnel_shaped (tp_Routes (snd st))" for ts held st t
  proof -
    obtain taken tp where st: "st = (taken, tp)" by force
    obtain b tp' where e: "foldl (entry_step inp t ts held taken) (\<lambda>_. [], tp) (ti_Routes t) = (b, tp')" by force
    from entries_good[OF e] have "tp_Routes tp' = tp_Routes tp" by blast
    with that st f[of "(taken, tp')" FamilyV4 t b] f[of _ FamilyV6 t b] show ?thesis by (simp add: plan_tunnel_def e)
  qed
  obtain taken held routes where p: "plan_pins inp = (taken, held, routes)" by (metis prod_cases3)
  then show ?thesis
    using pins_shaped[of inp] unfolding PlanTunnels_def Let_def p prod.case
    by (intro fold_all[of "\<lambda>s. list_all tunnel_shaped (tp_Routes (snd s))"] t) simp_all
qed

section \<open>The emitted routes and rules\<close>

lemma visited_mem: "(p, ord) \<in> set (visited ords inp) \<Longrightarrow> p \<in> set (in_Profiles inp) \<and> (\<exists>i. ord = ords i)"
proof -
  assume "(p, ord) \<in> set (visited ords inp)"
  then have "p \<in> set (by_priority inp)" "ord \<in> set (map ords [0..<length (by_priority inp)])"
    unfolding visited_def by (fact set_zip_leftD, fact set_zip_rightD)
  then show ?thesis by (auto simp: by_priority_def)
qed

lemma visited_ex: "p \<in> set (in_Profiles inp) \<Longrightarrow> \<exists>i. (p, ords i) \<in> set (visited ords inp)"
proof -
  assume "p \<in> set (in_Profiles inp)"
  then have "p \<in> set (by_priority inp)" by (simp add: by_priority_def)
  then obtain i where "i < length (by_priority inp)" "by_priority inp ! i = p" by (metis in_set_conv_nth)
  then have "(p, ords i) \<in> set (visited ords inp)" by (auto simp: visited_def set_zip)
  then show ?thesis by blast
qed

abbreviation orders :: "(nat \<Rightarrow> family list) \<Rightarrow> bool" where
  "orders ords \<equiv> (\<forall>i. both (ords i))"

lemma both_set: "both ord \<Longrightarrow> set ord = {FamilyV4, FamilyV6}"
  by (auto simp: both_def)

lemma base_routes_mem:
  assumes "orders ords" "r \<in> set (base_routes ords inp)"
  obtains p fam where "p \<in> set (in_Profiles inp)" "exclude_on p" "fam = FamilyV4 \<or> fam = FamilyV6"
    "r \<in> set (fam_routes inp (PlanTunnels inp) p fam)"
proof -
  from assms(2) obtain p ord where p: "(p, ord) \<in> set (visited ords inp)" "r \<in> set (profile_routes inp (PlanTunnels inp) (p, ord))"
    using dedup_by_mem unfolding base_routes_def by fastforce
  then show ?thesis using that[of p] visited_mem[OF p(1)] both_set assms(1)
    by (auto simp: profile_routes_def split: if_splits)
qed

lemma base_rules_mem:
  assumes "orders ords" "r \<in> set (base_rules ords inp)"
  obtains p pr fam where "p \<in> set (in_Profiles inp)" "include_on p" "r = managed_of p inp pr" "fam = FamilyV4 \<or> fam = FamilyV6"
    "pr \<in> set (fam_rules inp (PlanTunnels inp) p fam) \<or> pr \<in> set (app_rules inp p)"
proof -
  from assms(2) obtain p ord where p: "(p, ord) \<in> set (visited ords inp)" "r \<in> set (profile_rules inp (PlanTunnels inp) (p, ord))"
    using dedup_by_mem unfolding base_rules_def by fastforce
  then obtain pr where "include_on p" "r = managed_of p inp pr"
    "pr \<in> set (concat (map (fam_rules inp (PlanTunnels inp) p) ord)) \<or> pr \<in> set (app_rules inp p)"
    by (auto simp: profile_rules_def split: if_splits)
  then show ?thesis using that[of p pr] visited_mem[OF p(1)] both_set assms(1) by auto
qed

lemma base_routes_set:
  assumes "orders ords" "orders ords'"
  shows "set (base_routes ords inp) = set (base_routes ords' inp)"
proof -
  let ?key = "\<lambda>r. RouteKey (mr_Route r)"
  have one: "(\<forall>S. set (dedup_by ?key S (profile_routes inp tp (p, a))) = set (dedup_by ?key S (profile_routes inp tp (p, b))))
      \<and> ?key ` set (profile_routes inp tp (p, a)) = ?key ` set (profile_routes inp tp (p, b))"
    if "both a" "both b" for tp p a b
    using that set_dedup_swap[OF fam_routes_disjoint] by (auto simp: both_def profile_routes_def)
  have "list_all2 (\<lambda>xs ys. (\<forall>S. set (dedup_by ?key S xs) = set (dedup_by ?key S ys)) \<and> ?key ` set xs = ?key ` set ys)
      (map (profile_routes inp (PlanTunnels inp)) (visited ords inp)) (map (profile_routes inp (PlanTunnels inp)) (visited ords' inp))"
    unfolding list_all2_conv_all_nth using assms one by (simp add: visited_def)
  then show ?thesis unfolding base_routes_def by (rule set_dedup_concat_cong)
qed

lemma base_rules_set:
  assumes "orders ords" "orders ords'" "valid_all (in_Tailscale inp)"
  shows "set (base_rules ords inp) = set (base_rules ords' inp)"
proof -
  let ?key = "\<lambda>r. RuleKey (ml_Rule r)" and ?tp = "PlanTunnels inp"
  have d: "?key ` set (map (managed_of p inp) (fam_rules inp ?tp p FamilyV4))
      \<inter> ?key ` set (map (managed_of p inp) (fam_rules inp ?tp p FamilyV6)) = {}" for p
    using fam_rules_disjoint[OF PlanTunnels_nets_valid assms(3)] by (auto simp: managed_of_def)
  have one: "(\<forall>S. set (dedup_by ?key S (profile_rules inp ?tp (p, a))) = set (dedup_by ?key S (profile_rules inp ?tp (p, b))))
      \<and> ?key ` set (profile_rules inp ?tp (p, a)) = ?key ` set (profile_rules inp ?tp (p, b))"
    if "both a" "both b" for p a b
  proof -
    let ?f = "\<lambda>fam. map (managed_of p inp) (fam_rules inp ?tp p fam)" and ?a = "map (managed_of p inp) (app_rules inp p)"
    have "set (dedup_by ?key S ((?f FamilyV4 @ ?f FamilyV6) @ ?a)) = set (dedup_by ?key S ((?f FamilyV6 @ ?f FamilyV4) @ ?a))" for S
      by (rule set_dedup_append_cong) (use set_dedup_swap[OF d] in auto)
    then show ?thesis using that by (auto simp: both_def profile_rules_def)
  qed
  have "list_all2 (\<lambda>xs ys. (\<forall>S. set (dedup_by ?key S xs) = set (dedup_by ?key S ys)) \<and> ?key ` set xs = ?key ` set ys)
      (map (profile_rules inp ?tp) (visited ords inp)) (map (profile_rules inp ?tp) (visited ords' inp))"
    unfolding list_all2_conv_all_nth using assms one by (simp add: visited_def)
  then show ?thesis unfolding base_rules_def by (rule set_dedup_concat_cong)
qed

subsection \<open>Success does not depend on the order\<close>

definition ok :: "'e + 'a \<Rightarrow> bool" where
  "ok x \<longleftrightarrow> (\<exists>y. x = Inr y)"

lemma ok_simps [simp]: "ok (Inr y)" "\<not> ok (Inl e)"
  by (simp_all add: ok_def)

lemma ok_case_sum: "ok (case x of Inl e \<Rightarrow> Inl e | Inr y \<Rightarrow> f y) \<longleftrightarrow> (\<exists>y. x = Inr y \<and> ok (f y))"
  by (cases x) (auto simp: ok_def)

text \<open>The counters of the loop over the families and when it stops with an error.\<close>

definition wants :: "profile \<Rightarrow> desired_input \<Rightarrow> tunnel_plan \<Rightarrow> family \<Rightarrow> bool" where
  "wants p inp tunnels fam \<longleftrightarrow> exclude_prefixes p inp tunnels fam \<noteq> []"

definition lacks :: "profile \<Rightarrow> desired_input \<Rightarrow> tunnel_plan \<Rightarrow> family \<Rightarrow> bool" where
  "lacks p inp tunnels fam \<longleftrightarrow> wants p inp tunnels fam \<and> \<not> ok (resolveGateway (pf_Gateway p) fam inp)"

definition soft_gateway :: "profile \<Rightarrow> bool" where
  "soft_gateway p \<longleftrightarrow> parse_addr (pf_Gateway p) \<noteq> None \<or> pf_Gateway p = [] \<or> pf_Gateway p = ''auto''"

lemma exclude_fams_Cons:
  "exclude_fams p inp tunnels (fam # fams) st s f e =
     (if \<not> wants p inp tunnels fam then exclude_fams p inp tunnels fams st s f e
      else case resolveGateway (pf_Gateway p) fam inp of
          Inl err \<Rightarrow> if soft_gateway p then exclude_fams p inp tunnels fams st (Suc s) (Suc f) (Some err)
            else Inl (ProfileGateway (pf_Name p) err)
        | Inr (gw, iface) \<Rightarrow> exclude_fams p inp tunnels fams
            (foldl (add_route_st (pf_ID p) inp) st (map (exclude_route p inp gw iface fam) (Aggregate (exclude_prefixes p inp tunnels fam))))
            s (Suc f) e)"
  unfolding wants_def soft_gateway_def exclude_prefixes_def exclude_fams.simps Let_def by simp

lemma lacks_cases:
  "resolveGateway (pf_Gateway p) fam inp = Inl err \<Longrightarrow> lacks p inp tunnels fam = wants p inp tunnels fam"
  "resolveGateway (pf_Gateway p) fam inp = Inr g \<Longrightarrow> \<not> lacks p inp tunnels fam"
  "\<not> wants p inp tunnels fam \<Longrightarrow> \<not> lacks p inp tunnels fam"
  by (simp_all add: lacks_def)

lemma exclude_fams_ok:
  "ok (exclude_fams p inp tunnels ord st s f e) \<longleftrightarrow> (list_ex (lacks p inp tunnels) ord \<longrightarrow> soft_gateway p)"
proof (induction ord arbitrary: st s f e)
  case (Cons fam ord)
  then show ?case unfolding exclude_fams_Cons
    by (cases "wants p inp tunnels fam"; cases "resolveGateway (pf_Gateway p) fam inp") (auto simp: lacks_cases split: prod.splits)
qed simp

lemma exclude_fams_counts:
  "exclude_fams p inp tunnels ord st s f e = Inr (st', s', f', e') \<Longrightarrow>
     s' = s + length (filter (lacks p inp tunnels) ord) \<and> f' = f + length (filter (wants p inp tunnels) ord)
     \<and> (e' = None \<longleftrightarrow> e = None \<and> \<not> list_ex (lacks p inp tunnels) ord)"
proof (induction ord arbitrary: st s f e)
  case (Cons fam ord)
  then show ?case unfolding exclude_fams_Cons
    by (cases "wants p inp tunnels fam"; cases "resolveGateway (pf_Gateway p) fam inp")
      (fastforce simp: lacks_cases split: prod.splits if_splits)+
qed simp

lemma filter_all_length: "length (filter P xs) = length (filter Q xs) \<longleftrightarrow> list_all (\<lambda>x. Q x \<longrightarrow> P x) xs"
  if "\<And>x. P x \<Longrightarrow> Q x"
proof -
  have "length (filter P xs) \<le> length (filter Q xs)" for xs using that by (induction xs) (auto simp: le_Suc_eq)
  then show ?thesis using that
    by (induction xs) (auto, metis Suc_n_not_le_n)
qed

lemma build_exclude_ok:
  "ok (build_exclude p inp tunnels ord st) \<longleftrightarrow>
     (list_ex (lacks p inp tunnels) ord \<longrightarrow> soft_gateway p)
     \<and> (list_ex (wants p inp tunnels) ord \<longrightarrow> list_ex (\<lambda>f. wants p inp tunnels f \<and> \<not> lacks p inp tunnels f) ord)"
proof (cases "exclude_fams p inp tunnels ord st 0 0 None")
  case (Inl e)
  then show ?thesis using exclude_fams_ok[of p inp tunnels ord st 0 0 None] by (simp add: build_exclude_def)
next
  case (Inr x)
  then obtain st' s f e where x: "exclude_fams p inp tunnels ord st 0 0 None = Inr (st', s, f, e)" by (cases x) auto
  note c = exclude_fams_counts[OF x]
  have w: "lacks p inp tunnels g \<Longrightarrow> wants p inp tunnels g" for g by (simp add: lacks_def)
  have "s = f \<longleftrightarrow> \<not> list_ex (\<lambda>f. wants p inp tunnels f \<and> \<not> lacks p inp tunnels f) ord"
    using c filter_all_length[of "lacks p inp tunnels" "wants p inp tunnels" ord] w by (auto simp: list_all_iff list_ex_iff)
  moreover have "f > 0 \<longleftrightarrow> list_ex (wants p inp tunnels) ord" using c by (auto simp: list_ex_iff filter_empty_conv)
  moreover have "e = None \<Longrightarrow> s = 0" using c by (auto simp: list_ex_iff filter_empty_conv)
  ultimately show ?thesis
    using exclude_fams_ok[of p inp tunnels ord st 0 0 None] x by (auto simp: build_exclude_def split: option.splits)
qed

lemma darwin_prefixes_ok: "ok (darwin_prefixes p inp fam pfxs st) \<longleftrightarrow> pfxs = [] \<or> snd (vpnFor fam inp) \<noteq> []"
  by (induction pfxs arbitrary: st) (auto simp: darwin_rule_def Let_def split: prod.splits)

lemma darwin_fams_ok:
  "ok (darwin_fams p inp byFamily ord st) \<longleftrightarrow>
     list_all (\<lambda>fam. Aggregate (byFamily fam) = [] \<or> snd (vpnFor fam inp) \<noteq> []) ord"
proof (induction ord arbitrary: st)
  case (Cons fam ord)
  then show ?case using darwin_prefixes_ok[of p inp fam "Aggregate (byFamily fam)" st]
    by (cases "darwin_prefixes p inp fam (Aggregate (byFamily fam)) st") auto
qed simp

lemma darwin_app_snd: "snd (darwin_app p inp uid (st, e) fam) \<longleftrightarrow> e \<or> darwin_rule inp (''user '' @ uid) fam \<noteq> None"
  by (auto simp: darwin_app_def split: option.splits)

lemma darwin_apps_ok:
  "ok (darwin_apps p inp rs st) \<longleftrightarrow> list_all (\<lambda>r. ru_Type r = RuleApp \<longrightarrow> IsUIDLike (ru_Value r)
     \<and> (darwin_rule inp (''user '' @ ru_Value r) FamilyV4 \<noteq> None \<or> darwin_rule inp (''user '' @ ru_Value r) FamilyV6 \<noteq> None)) rs"
proof (induction rs arbitrary: st)
  case (Cons r rs)
  obtain s4 e4 where 4: "darwin_app p inp (ru_Value r) (st, False) FamilyV4 = (s4, e4)" by force
  obtain s6 e6 where 6: "darwin_app p inp (ru_Value r) (s4, e4) FamilyV6 = (s6, e6)" by force
  have "e4 \<longleftrightarrow> darwin_rule inp (''user '' @ ru_Value r) FamilyV4 \<noteq> None"
    "e6 \<longleftrightarrow> e4 \<or> darwin_rule inp (''user '' @ ru_Value r) FamilyV6 \<noteq> None"
    using darwin_app_snd[of p inp "ru_Value r" st False FamilyV4] darwin_app_snd[of p inp "ru_Value r" s4 e4 FamilyV6] 4 6
    by simp_all
  moreover have f: "foldl (darwin_app p inp (ru_Value r)) (st, False) [FamilyV4, FamilyV6] = (s6, e6)" by (simp add: 4 6)
  ultimately show ?case using Cons unfolding darwin_apps.simps f Let_def prod.case by (simp del: append_Cons)
qed simp

lemma table_defaults_ok:
  "ok (table_defaults inp ord st) \<longleftrightarrow> list_all (\<lambda>f. f \<in> bs_includeFams st \<longrightarrow> snd (vpnFor f inp) \<noteq> []) ord"
proof (induction ord arbitrary: st)
  case (Cons fam ord)
  have "bs_includeFams (add_route_st i inp st rt) = bs_includeFams st" for i rt
    by (simp add: add_route_st_def split: prod.splits)
  then show ?case using Cons by (auto simp: Let_def split: prod.splits)
qed simp


lemma build_include_ok:
  "ok (build_include p inp tunnels ord st) \<longleftrightarrow> in_PolicyRouting inp \<and> (in_Platform inp = ''darwin'' \<longrightarrow>
     list_all (\<lambda>fam. Aggregate (include_prefixes p inp tunnels fam) = [] \<or> snd (vpnFor fam inp) \<noteq> []) ord
     \<and> ok (darwin_apps p inp (pf_Rules p) build0))"
proof (cases "in_Platform inp = ''darwin''")
  case True
  define nets where "nets = (\<lambda>fam. aroundTunnels (aroundTunnels (profilePrefixes p inp fam) (tp_nets tunnels)) (in_Tailscale inp))"
  have i: "include_prefixes p inp tunnels = nets" using True by (simp add: include_prefixes_def nets_def fun_eq_iff Let_def)
  have "ok (buildDarwinInclude p nets inp ord st) \<longleftrightarrow>
      list_all (\<lambda>fam. Aggregate (nets fam) = [] \<or> snd (vpnFor fam inp) \<noteq> []) ord \<and> ok (darwin_apps p inp (pf_Rules p) build0)"
    using darwin_fams_ok[of p inp nets ord st] darwin_apps_ok[of p inp "pf_Rules p"]
    by (cases "darwin_fams p inp nets ord st") (simp_all add: buildDarwinInclude_def)
  then show ?thesis using True by (simp add: build_include_def i flip: nets_def)
qed (simp add: build_include_def)

lemma build_profile_ok:
  assumes "both ord" "both ord'"
  shows "ok (build_profile inp tunnels ord p st) \<longleftrightarrow> ok (build_profile inp tunnels ord' p st')"
proof -
  have "list_ex P ord = list_ex P ord'" "list_all P ord = list_all P ord'" for P :: "family \<Rightarrow> bool"
    using both_set[OF assms(1)] both_set[OF assms(2)] by (simp_all add: list_ex_iff list_all_iff)
  then show ?thesis by (simp add: build_profile_def build_include_ok build_exclude_ok)
qed

lemma build_profiles_ok:
  "list_all2 (\<lambda>(p, a) (q, b). p = q \<and> both a \<and> both b) ps qs \<Longrightarrow>
     ok (build_profiles inp tunnels ps st) \<longleftrightarrow> ok (build_profiles inp tunnels qs st')"
proof (induction arbitrary: st st' rule: list_all2_induct)
  case (Cons x ps y qs)
  obtain p a b where x: "x = (p, a)" "y = (p, b)" "both a" "both b" using Cons(1) by (cases x; cases y) auto
  from build_profile_ok[OF x(3,4), of inp tunnels p st st'] Cons.IH show ?case
    by (cases "build_profile inp tunnels a p st"; cases "build_profile inp tunnels b p st'") (simp_all add: x)
qed simp

lemma visited_both:
  assumes "orders ords" "orders ords'"
  shows "list_all2 (\<lambda>(p, a) (q, b). p = q \<and> both a \<and> both b) (visited ords inp) (visited ords' inp)"
  unfolding list_all2_conv_all_nth using assms by (simp add: visited_def)

section \<open>Keys of the result\<close>

lemma all_routes_distinct: "distinct (route_keys (all_routes ords endord inp))"
proof -
  let ?key = "\<lambda>r. RouteKey (mr_Route r)" and ?base = "base_routes ords inp"
  let ?pl = "?base @ placed (set (dst_keys ?base)) (set (route_keys ?base)) (tp_Routes (PlanTunnels inp))"
  let ?d = "map (default_route_of inp) (filter (\<lambda>f. f \<in> rule_fams ords inp) endord)"
  have "distinct (route_keys ?base)" unfolding base_routes_def by (rule dedup_by_distinct)
  then have "distinct (route_keys ?pl)"
    using placed_props(2,3)[of "set (dst_keys ?base)" "set (route_keys ?base)" "tp_Routes (PlanTunnels inp)"] by (auto simp: Int_commute)
  moreover have "set (route_keys (dedup_by ?key (set (route_keys ?pl)) ?d)) \<inter> set (route_keys ?pl) = {}"
    using dedup_by_keys[of ?key "set (route_keys ?pl)" ?d] by (auto simp del: set_map simp: set_map[symmetric])
  moreover have "distinct (route_keys (dedup_by ?key (set (route_keys ?pl)) ?d))" by (rule dedup_by_distinct)
  ultimately show ?thesis unfolding all_routes_def Let_def by (simp only: map_append distinct_append) blast
qed

lemma all_routes_set:
  assumes "orders ords" "orders ords'" "both e" "both e'" "valid_all (in_Tailscale inp)"
  shows "set (all_routes ords e inp) = set (all_routes ords' e' inp)"
proof -
  let ?key = "\<lambda>r. RouteKey (mr_Route r)"
  have b: "set (base_routes ords inp) = set (base_routes ords' inp)" by (rule base_routes_set[OF assms(1,2)])
  then have k: "set (route_keys (base_routes ords inp)) = set (route_keys (base_routes ords' inp))"
    "set (dst_keys (base_routes ords inp)) = set (dst_keys (base_routes ords' inp))" by simp_all
  have f: "rule_fams ords inp = rule_fams ords' inp"
    using base_rules_set[OF assms(1,2,5)] by (simp add: rule_fams_def)
  define d where "d = (\<lambda>fam. if fam \<in> rule_fams ords' inp then [default_route_of inp fam] else [])"
  have d: "map (default_route_of inp) (filter (\<lambda>f. f \<in> rule_fams ords' inp) o1) = concat (map d o1)" for o1
    by (induction o1) (auto simp: d_def)
  have "?key ` set (d FamilyV4) \<inter> ?key ` set (d FamilyV6) = {}"
    by (auto simp: d_def default_route_of_def RouteKey_def route0_def Let_def)
  from set_dedup_swap[OF this] have "set (dedup_by ?key S (concat (map d e))) = set (dedup_by ?key S (concat (map d e')))" for S
    using assms(3,4) by (auto simp: both_def)
  then show ?thesis unfolding all_routes_def Let_def f d map_append set_append k b by simp
qed

section \<open>Beside Tailscale\<close>

text \<open>A route of the build: a family, and the main table or the tunnel's.\<close>

definition plain_route :: "managed_route \<Rightarrow> bool" where
  "plain_route r \<longleftrightarrow> (rt_Family (mr_Route r) = FamilyV4 \<or> rt_Family (mr_Route r) = FamilyV6)
     \<and> (rt_Table (mr_Route r) = [] \<or> rt_Table (mr_Route r) = ModelBTable)"

definition bypass_copy :: "managed_route \<Rightarrow> managed_route" where
  "bypass_copy r = r\<lparr>mr_Route := (mr_Route r)\<lparr>rt_Table := BypassTable\<rparr>\<rparr>"

definition not_tailscale :: "managed_rule \<Rightarrow> bool" where
  "not_tailscale r \<longleftrightarrow> \<not> (pr_Table (ml_Rule r) = BypassTable \<or> pr_Priority (ml_Rule r) = TailscaleRulePrio \<and> pr_Table (ml_Rule r) \<noteq> [])"

abbreviation beside_tailscale :: "desired_input \<Rightarrow> bool" where
  "beside_tailscale inp \<equiv> in_TailscaleTable inp \<noteq> [] \<and> in_Platform inp \<noteq> ''darwin''"

definition tailscale_fams :: "desired_input \<Rightarrow> family list" where
  "tailscale_fams inp = filter (\<lambda>f. f \<in> set (map (\<lambda>n. famOf (pfx_addr n)) (in_Tailscale inp))) [FamilyV4, FamilyV6]"

definition main_fams :: "managed_route list \<Rightarrow> family list" where
  "main_fams rs = filter (\<lambda>f. f \<in> set (map (\<lambda>r. rt_Family (mr_Route r)) (filter (\<lambda>r. rt_Table (mr_Route r) = []) rs))) [FamilyV4, FamilyV6]"

abbreviation not_bypass :: "managed_route \<Rightarrow> bool" where
  "not_bypass r \<equiv> rt_Table (mr_Route r) \<noteq> BypassTable"

abbreviation main_route :: "managed_route \<Rightarrow> bool" where
  "main_route r \<equiv> rt_Table (mr_Route r) = []"

definition tail_rules :: "desired_input \<Rightarrow> managed_rule list" where
  "tail_rules inp =
     map (tailscale_rule inp TailscaleRulePrio ''from all suppress_prefixlength 0'' (in_TailscaleTable inp)) (tailscale_fams inp)"

definition bypass_rules :: "desired_input \<Rightarrow> managed_route list \<Rightarrow> managed_rule list" where
  "bypass_rules inp rs = map (tailscale_rule inp BypassRulePrio ''from all'' BypassTable) (main_fams rs)"

lemma BesideTailscale_eq:
  "BesideTailscale rs ls inp =
     (filter not_bypass rs @ (if beside_tailscale inp \<and> in_TailscaleExitNode inp then map bypass_copy (filter main_route rs) else []),
      filter not_tailscale ls @ (if beside_tailscale inp then tail_rules inp else [])
        @ (if beside_tailscale inp \<and> in_TailscaleExitNode inp then bypass_rules inp rs else []))"
proof -
  have "filter main_route (filter not_bypass rs) = filter main_route rs"
    by (induction rs) auto
  then show ?thesis
    unfolding BesideTailscale_def Let_def not_tailscale_def tail_rules_def bypass_rules_def tailscale_fams_def main_fams_def bypass_copy_def
    by (auto simp: fun_eq_iff)
qed

lemma tail_rules_fields:
  "r \<in> set (tail_rules inp) \<Longrightarrow> pr_Priority (ml_Rule r) = TailscaleRulePrio \<and> pr_Table (ml_Rule r) = in_TailscaleTable inp"
  "r \<in> set (bypass_rules inp rs) \<Longrightarrow> pr_Priority (ml_Rule r) = BypassRulePrio \<and> pr_Table (ml_Rule r) = BypassTable"
  by (auto simp: tail_rules_def bypass_rules_def tailscale_rule_def policy_rule0_def)

lemma filter_none: "(\<And>x. x \<in> set xs \<Longrightarrow> \<not> P x) \<Longrightarrow> filter P xs = []"
  by (induction xs) auto

lemma BesideTailscale_idem: "case_prod BesideTailscale (BesideTailscale rs ls inp) inp = BesideTailscale rs ls inp"
proof -
  have c: "filter not_bypass (map bypass_copy xs) = []" "filter main_route (map bypass_copy xs) = []" for xs
    by (induction xs) (auto simp: bypass_copy_def)
  have m: "filter main_route (filter not_bypass rs) = filter main_route rs" by (induction rs) auto
  have t: "beside_tailscale inp \<Longrightarrow> filter not_tailscale (tail_rules inp) = []" "filter not_tailscale (bypass_rules inp xs) = []" for xs
    using tail_rules_fields by (auto intro!: filter_none simp: not_tailscale_def)
  have n: "bypass_rules inp (filter not_bypass rs @ map bypass_copy (filter main_route rs)) = bypass_rules inp rs"
    unfolding bypass_rules_def main_fams_def filter_append c m by simp
  show ?thesis
  proof (cases "beside_tailscale inp \<and> in_TailscaleExitNode inp")
    case True
    then have b: "BesideTailscale xs ys inp = (filter not_bypass xs @ map bypass_copy (filter main_route xs),
        filter not_tailscale ys @ tail_rules inp @ bypass_rules inp xs)" for xs ys
      unfolding BesideTailscale_eq by simp
    show ?thesis unfolding b prod.case filter_append c m n using t True by simp
  next
    case False
    then have b: "BesideTailscale xs ys inp = (filter not_bypass xs,
        filter not_tailscale ys @ (if beside_tailscale inp then tail_rules inp else []))" for xs ys
      unfolding BesideTailscale_eq by auto
    show ?thesis unfolding b prod.case filter_append using t by simp
  qed
qed

lemma BesideTailscale_sets:
  assumes "set rs = set rs'" "set ls = set ls'"
  shows "set (fst (BesideTailscale rs ls inp)) = set (fst (BesideTailscale rs' ls' inp))"
    "set (snd (BesideTailscale rs ls inp)) = set (snd (BesideTailscale rs' ls' inp))"
proof -
  have "set (bypass_rules inp rs) = set (bypass_rules inp rs')" using assms(1) by (simp add: bypass_rules_def main_fams_def)
  then show "set (fst (BesideTailscale rs ls inp)) = set (fst (BesideTailscale rs' ls' inp))"
    "set (snd (BesideTailscale rs ls inp)) = set (snd (BesideTailscale rs' ls' inp))"
    unfolding BesideTailscale_eq using assms by auto
qed

definition route_tail :: "route \<Rightarrow> string" where
  "route_tail r = rt_DstCIDR r @ ''|'' @ rt_Gateway r @ ''|'' @ rt_Iface r @ (if rt_Reject r then ''|reject'' else [])"

lemma RouteKey_tail: "RouteKey r = rt_Family r @ ''|'' @ rt_Table r @ ''|'' @ route_tail r"
  by (simp add: RouteKey_def route_tail_def Let_def)

lemma BesideTailscale_routes_distinct:
  assumes "distinct (route_keys rs)" "list_all plain_route rs"
  shows "distinct (route_keys (fst (BesideTailscale rs ls inp)))"
proof -
  have 1: "RouteKey (mr_Route x) = RouteKey (mr_Route y)"
    if "plain_route x" "plain_route y" "main_route x" "main_route y" "RouteKey (mr_Route (bypass_copy x)) = RouteKey (mr_Route (bypass_copy y))" for x y
    using that by (auto simp: plain_route_def RouteKey_tail bypass_copy_def route_tail_def)
  have 2: "RouteKey (mr_Route x) \<noteq> RouteKey (mr_Route (bypass_copy y))" if "plain_route x" "plain_route y" for x y
    using that by (auto simp: plain_route_def RouteKey_tail bypass_copy_def)
  have d: "distinct (route_keys (filter P rs))" for P using assms(1) by (simp add: distinct_map_filter)
  have "distinct (route_keys (map bypass_copy (filter main_route rs)))"
    using d[of main_route] assms(2) 1 by (auto simp: distinct_map list_all_iff inj_on_def)
  moreover have "set (route_keys (filter not_bypass rs)) \<inter> set (route_keys (map bypass_copy (filter main_route rs))) = {}"
    using assms(2) 2 by (fastforce simp: list_all_iff)
  ultimately show ?thesis unfolding BesideTailscale_eq using d by auto
qed

lemma list_all_dedup: "list_all P xs \<Longrightarrow> list_all P (dedup_by k s xs)"
  by (induction xs arbitrary: s) auto

lemma all_routes_plain:
  assumes "orders ords" "both e"
  shows "list_all plain_route (all_routes ords e inp)"
proof -
  have "plain_route r" if r: "r \<in> set (base_routes ords inp)" for r
  proof -
    from assms(1) r obtain p fam where f: "fam = FamilyV4 \<or> fam = FamilyV6" "r \<in> set (fam_routes inp (PlanTunnels inp) p fam)"
      by (rule base_routes_mem)
    show ?thesis using f(1) fam_routes_family[OF f(2)] by (simp add: plain_route_def)
  qed
  then have 1: "list_all plain_route (base_routes ords inp)" by (simp add: list_all_iff)
  have "plain_route r" if "tunnel_shaped r" for r using that by (simp add: tunnel_shaped_def plain_route_def)
  then have 2: "list_all plain_route (placed t s (tp_Routes (PlanTunnels inp)))" for t s
    using placed_props(1)[of t s "tp_Routes (PlanTunnels inp)"] PlanTunnels_shaped[of inp] by (simp add: list_all_iff subset_iff)
  have "plain_route (default_route_of inp f)" if "f = FamilyV4 \<or> f = FamilyV6" for f
    using that by (auto simp: plain_route_def default_route_of_def)
  then have "list_all plain_route (map (default_route_of inp) (filter P e))" for P
    using both_set[OF assms(2)] by (simp add: list_all_iff)
  then have 3: "list_all plain_route (dedup_by k s (map (default_route_of inp) (filter P e)))" for k P and s :: "string set"
    by (rule list_all_dedup)
  show ?thesis unfolding all_routes_def Let_def list_all_append using 1 2 3 by blast
qed

lemma rule_prio_prefix: "itoa 5252 = ''5252''" "itoa 5251 = ''5251''" "itoa 5260 = ''5260''"
  by code_simp+

lemma base_rules_prio:
  assumes "orders ords" "in_Platform inp \<noteq> ''darwin''" "r \<in> set (base_rules ords inp)"
  shows "pr_Priority (ml_Rule r) = ModelBRulePrio" "pr_Table (ml_Rule r) = ModelBTable"
    "pr_Family (ml_Rule r) = FamilyV4 \<or> pr_Family (ml_Rule r) = FamilyV6"
proof -
  from assms(1,3) obtain p pr fam where "r = managed_of p inp pr" "fam = FamilyV4 \<or> fam = FamilyV6"
    "pr \<in> set (fam_rules inp (PlanTunnels inp) p fam) \<or> pr \<in> set (app_rules inp p)" by (rule base_rules_mem)
  then show "pr_Priority (ml_Rule r) = ModelBRulePrio" "pr_Table (ml_Rule r) = ModelBTable"
    "pr_Family (ml_Rule r) = FamilyV4 \<or> pr_Family (ml_Rule r) = FamilyV6"
    using assms(2)
    by (auto simp: managed_of_def fam_rules_def in_map_filter to_rule_def app_rules_def modelb_rule_def policy_rule0_def split: if_splits)
qed

lemma base_rules_distinct: "distinct (rule_keys (base_rules ords inp))"
  unfolding base_rules_def by (rule dedup_by_distinct)

lemma BesideTailscale_rules_distinct:
  assumes "orders ords"
  shows "distinct (rule_keys (snd (BesideTailscale rs (base_rules ords inp) inp)))"
proof (cases "beside_tailscale inp")
  case True
  let ?ls = "filter not_tailscale (base_rules ords inp)"
  have k: "take 4 (RuleKey (ml_Rule r)) = ''5252''" if "r \<in> set ?ls" for r
    using base_rules_prio(1)[OF assms, of inp r] True that by (auto simp: RuleKey_def rule_prio_prefix Let_def)
  have t: "take 4 (RuleKey (ml_Rule r)) = ''5251''" if "r \<in> set (tail_rules inp)" for r
    using tail_rules_fields(1)[OF that] by (auto simp: RuleKey_def rule_prio_prefix Let_def)
  have b: "take 4 (RuleKey (ml_Rule r)) = ''5260''" if "r \<in> set (bypass_rules inp rs)" for r
    using tail_rules_fields(2)[OF that] by (auto simp: RuleKey_def rule_prio_prefix Let_def)
  have "distinct (rule_keys ?ls)" using base_rules_distinct by (simp add: distinct_map_filter)
  moreover have "distinct (rule_keys (tail_rules inp))"
    by (auto simp: tail_rules_def tailscale_fams_def tailscale_rule_def policy_rule0_def RuleKey_def)
  moreover have "distinct (rule_keys (bypass_rules inp rs))"
    by (auto simp: bypass_rules_def main_fams_def tailscale_rule_def policy_rule0_def RuleKey_def)
  moreover have "set (rule_keys ?ls) \<inter> set (rule_keys (tail_rules inp)) = {}" "set (rule_keys ?ls) \<inter> set (rule_keys (bypass_rules inp rs)) = {}"
    "set (rule_keys (tail_rules inp)) \<inter> set (rule_keys (bypass_rules inp rs)) = {}"
    using k t b by (fastforce)+
  ultimately show ?thesis unfolding BesideTailscale_eq by auto
next
  case False
  then show ?thesis unfolding BesideTailscale_eq using base_rules_distinct by (auto simp: distinct_map_filter)
qed

section \<open>Where the result comes from\<close>

lemma ok_Inr: "ok x \<Longrightarrow> \<exists>y. x = Inr y"
  by (simp add: ok_def)

lemma BuildDesired_ok:
  "ok (BuildDesired ords e inp) \<longleftrightarrow> ok (build_profiles inp (PlanTunnels inp) (visited ords inp) build0)
     \<and> list_all (\<lambda>f. f \<in> rule_fams ords inp \<longrightarrow> snd (vpnFor f inp) \<noteq> []) e"
proof (cases "build_profiles inp (PlanTunnels inp) (visited ords inp) build0")
  case (Inl err)
  then show ?thesis by (simp add: BuildDesired_def visited_def Let_def)
next
  case (Inr st)
  have "bs_includeFams (place_st (PlanTunnels inp) st) = rule_fams ords inp"
    using build_profiles_Inr[OF Inr]
    by (simp add: place_st_def emit_def build0_def base_rules_def rule_fams_def Let_def split: prod.splits)
  moreover have "ok (BuildDesired ords e inp) \<longleftrightarrow> ok (table_defaults inp e (place_st (PlanTunnels inp) st))"
    using Inr by (cases "table_defaults inp e (place_st (PlanTunnels inp) st)")
      (simp_all add: BuildDesired_def visited_def Let_def split: prod.splits)
  ultimately show ?thesis using Inr by (simp add: table_defaults_ok)
qed

lemma all_routes_cases:
  assumes "r \<in> set (all_routes ords e inp)"
  obtains "r \<in> set (base_routes ords inp)" | "r \<in> set (tp_Routes (PlanTunnels inp))"
    | f where "f \<in> set e" "r = default_route_of inp f"
proof -
  let ?b = "base_routes ords inp"
  have "r \<in> set ?b \<or> r \<in> set (placed (set (dst_keys ?b)) (set (route_keys ?b)) (tp_Routes (PlanTunnels inp)))
      \<or> r \<in> set (map (default_route_of inp) (filter (\<lambda>f. f \<in> rule_fams ords inp) e))"
    using assms dedup_by_mem unfolding all_routes_def Let_def by (metis Un_iff set_append)
  then show ?thesis
    using that placed_props(1)[of "set (dst_keys ?b)" "set (route_keys ?b)" "tp_Routes (PlanTunnels inp)"] by auto
qed

lemma BuildDesired_route_cases:
  assumes "BuildDesired ords e inp = Inr (routes, rules)" "r \<in> set routes"
  obtains "r \<in> set (all_routes ords e inp)" "not_bypass r"
    | s where "s \<in> set (all_routes ords e inp)" "main_route s" "r = bypass_copy s"
  using assms BuildDesired_Inr(1)[OF assms(1)] unfolding BesideTailscale_eq by (auto split: if_splits)

lemma BuildDesired_route_intro:
  assumes "BuildDesired ords e inp = Inr (routes, rules)" "r \<in> set (all_routes ords e inp)" "not_bypass r"
  shows "r \<in> set routes"
  using assms BuildDesired_Inr(1)[OF assms(1)] unfolding BesideTailscale_eq by simp

lemma BuildDesired_rule_cases:
  assumes "BuildDesired ords e inp = Inr (routes, rules)" "r \<in> set rules"
  obtains "r \<in> set (base_rules ords inp)" | "r \<in> set (tail_rules inp)" | "r \<in> set (bypass_rules inp (all_routes ords e inp))"
  using assms BuildDesired_Inr(2)[OF assms(1)] unfolding BesideTailscale_eq by (auto split: if_splits)

lemma model_b_rule_cases:
  assumes "BuildDesired ords e inp = Inr (routes, rules)" "r \<in> set rules" "pr_Priority (ml_Rule r) = ModelBRulePrio"
  shows "r \<in> set (base_rules ords inp)"
  using assms(1,2)
proof (rule BuildDesired_rule_cases)
  assume "r \<in> set (tail_rules inp)"
  from tail_rules_fields(1)[OF this] assms(3) show ?thesis by simp
next
  assume "r \<in> set (bypass_rules inp (all_routes ords e inp))"
  from tail_rules_fields(2)[OF this] assms(3) show ?thesis by simp
qed

lemma base_main:
  assumes "orders ords"
  shows "list_all main_route (base_routes ords inp @ placed t s (tp_Routes (PlanTunnels inp)))"
proof -
  have "main_route r" if r: "r \<in> set (base_routes ords inp)" for r
  proof -
    from assms(1) r obtain p fam where "r \<in> set (fam_routes inp (PlanTunnels inp) p fam)" by (rule base_routes_mem)
    then show ?thesis using fam_routes_family by blast
  qed
  then show ?thesis using placed_props(1)[of t s "tp_Routes (PlanTunnels inp)"] PlanTunnels_shaped[of inp]
    by (auto simp: list_all_iff tunnel_shaped_def)
qed

lemma default_fresh:
  assumes "plain_route r" "main_route r" "g = FamilyV4 \<or> g = FamilyV6"
  shows "RouteKey (mr_Route r) \<noteq> RouteKey (mr_Route (default_route_of inp g))"
  using assms by (auto simp: plain_route_def RouteKey_tail default_route_of_def)

lemma default_in_all:
  assumes "orders ords" "both e" "f \<in> rule_fams ords inp" "f = FamilyV4 \<or> f = FamilyV6"
  shows "default_route_of inp f \<in> set (all_routes ords e inp)"
proof -
  let ?key = "\<lambda>r. RouteKey (mr_Route r)" and ?b = "base_routes ords inp"
  define pl where "pl = ?b @ placed (set (dst_keys ?b)) (set (route_keys ?b)) (tp_Routes (PlanTunnels inp))"
  define d where "d = map (default_route_of inp) (filter (\<lambda>f. f \<in> rule_fams ords inp) e)"
  have a: "all_routes ords e inp = pl @ dedup_by ?key (set (route_keys pl)) d"
    unfolding all_routes_def pl_def d_def Let_def by (rule refl)
  have main: "list_all main_route pl" unfolding pl_def by (rule base_main[OF assms(1)])
  have plain: "list_all plain_route pl" using all_routes_plain[OF assms(1,2), of inp] unfolding a by simp
  have "?key ` set d \<inter> set (route_keys pl) = {}"
  proof (rule ccontr)
    assume "?key ` set d \<inter> set (route_keys pl) \<noteq> {}"
    then obtain r x where rx: "r \<in> set pl" "x \<in> set d" "?key r = ?key x" by fastforce
    from rx(2) obtain g where "g \<in> set e" "x = default_route_of inp g" unfolding d_def by auto
    with rx main plain both_set[OF assms(2)] default_fresh[of r g inp] show False by (auto simp: list_all_iff)
  qed
  moreover have "distinct (map ?key d)"
    using assms(2) unfolding d_def by (auto simp: both_def RouteKey_tail default_route_of_def)
  ultimately have "dedup_by ?key (set (route_keys pl)) d = d" by (intro dedup_by_id)
  then show ?thesis unfolding a using assms(3,4) both_set[OF assms(2)] by (auto simp: d_def)
qed

lemma ruleNet_printed: "masked_net q \<Longrightarrow> pr_Selector r = ''to '' @ prefix_string q \<Longrightarrow> ruleNet r = Some q"
  by (simp add: ruleNet_def parse_prefix_string masked_net_valid masked_net_def del: append_Cons)

lemma to_rule_net:
  assumes "q \<in> set (Aggregate ps)" "to_rule inp fam q = Some pr"
  shows "ruleNet pr = Some q"
  using assms Aggregate_spec[of ps] to_rule_key(3)[OF assms(2)] ruleNet_printed by blast

lemma user_rule_selector:
  "pr \<in> set (user_rules inp uid fam) \<Longrightarrow> pr_Priority pr = ModelBRulePrio \<Longrightarrow> pr_Selector pr = ''user '' @ uid"
  by (auto simp: user_rules_def darwin_rule_def policy_rule0_def Let_def split: if_splits option.splits prod.splits)

lemma app_rule_net:
  assumes "pr \<in> set (app_rules inp p)" "pr_Priority pr = ModelBRulePrio"
  shows "ruleNet pr = None"
proof -
  have u: "cut_prefix (''user '' @ s) ''to '' = None" "cut_prefix (''fwmark '' @ s) ''to '' = None" for s
    by (simp_all add: cut_prefix_def has_prefix_def)
  from assms have "(\<exists>s. pr_Selector pr = ''user '' @ s) \<or> pr_Selector pr = ''fwmark '' @ ModelBMark"
    using user_rule_selector[OF _ assms(2)] unfolding app_rules_def
    by (auto simp: modelb_rule_def policy_rule0_def simp del: append_Cons split: if_splits)
  with u show ?thesis unfolding ruleNet_def by (auto simp del: append_Cons)
qed

lemma model_b_net:
  assumes "orders ords" "BuildDesired ords e inp = Inr (routes, rules)" "r \<in> set rules" "pr_Priority (ml_Rule r) = ModelBRulePrio"
    "ruleNet (ml_Rule r) = Some q"
  obtains p fam where "p \<in> set (in_Profiles inp)" "include_on p" "fam = FamilyV4 \<or> fam = FamilyV6" "pr_Family (ml_Rule r) = fam"
    "q \<in> set (Aggregate (include_prefixes p inp (PlanTunnels inp) fam))"
proof -
  from assms(1) model_b_rule_cases[OF assms(2-4)] obtain p pr fam where r: "p \<in> set (in_Profiles inp)" "include_on p"
    "r = managed_of p inp pr" "fam = FamilyV4 \<or> fam = FamilyV6"
    "pr \<in> set (fam_rules inp (PlanTunnels inp) p fam) \<or> pr \<in> set (app_rules inp p)" by (rule base_rules_mem)
  have pr: "ml_Rule r = pr" using r(3) by (simp add: managed_of_def)
  then have "pr \<in> set (fam_rules inp (PlanTunnels inp) p fam)" using r(5) app_rule_net assms(4,5) by fastforce
  then obtain q' where q: "q' \<in> set (Aggregate (include_prefixes p inp (PlanTunnels inp) fam))" "to_rule inp fam q' = Some pr"
    by (rule fam_rules_mem)
  then have "q = q'" using to_rule_net[OF q] assms(5) pr by simp
  then show ?thesis using that[of p fam] r q to_rule_key(2)[OF q(2)] pr by simp
qed

lemma parse_prefix_no_slash: "CHR ''/'' \<notin> set s \<Longrightarrow> parse_prefix s = None"
  by (simp add: parse_prefix_def Let_def dropWhile_eq_Nil_conv)

lemma entryToPrefix_route_string:
  assumes "masked_net p"
  shows "entryToPrefix (route_string p) = Some (p, famOf (pfx_addr p))"
proof -
  have v: "is_valid p" using assms by blast
  show ?thesis
  proof (cases "pfx_bits p = int (bit_len (pfx_addr p))")
    case True
    have a: "pfx_addr p \<noteq> AddrZero" "addr_zone (pfx_addr p) = []" using v by (simp_all add: is_valid_def)
    have "host_prefix (pfx_addr p) = p"
      using True a masked_net_zone[OF assms] by (cases p; cases "pfx_addr p") (simp_all add: host_prefix_def prefix_from_def)
    then show ?thesis
      using True a parse_addr_string[OF a(1)] parse_prefix_no_slash[OF addr_string_no_slash[OF a]]
      by (simp add: route_string_def entryToPrefix_def)
  next
    case False
    then show ?thesis using parse_prefix_string[OF v] by (simp add: route_string_def entryToPrefix_def)
  qed
qed

text \<open>What the profiles of one mode route, as sets of addresses.\<close>

lemma covers_all_iff: "a \<in> covers_all ps \<longleftrightarrow> (\<exists>p \<in> set ps. a \<in> covers p)"
  by (simp add: covers_all_def)

lemma covers_all_mono: "set ps \<subseteq> set qs \<Longrightarrow> covers_all ps \<subseteq> covers_all qs"
  by (auto simp: covers_all_def)

lemma Aggregate_elem: "q \<in> set (Aggregate ps) \<Longrightarrow> masked_net q \<and> covers q \<subseteq> covers_all ps"
  using Aggregate_spec[of ps] by (auto simp: covers_all_def)

lemma exclude_destination:
  "p \<in> set (in_Profiles inp) \<Longrightarrow> exclude_on p \<Longrightarrow> is_valid q \<Longrightarrow> covers q \<subseteq> covers_all (profilePrefixes p inp fam) \<Longrightarrow>
     within q (ds_exclude (ProfileDestinations inp) fam)"
  unfolding ProfileDestinations_def Let_def destinations.select_convs
  by (subst agg.agg_within_iff) (auto simp: covers_all_concat routed_profiles_def)

lemma include_destination:
  "p \<in> set (in_Profiles inp) \<Longrightarrow> include_on p \<Longrightarrow> is_valid q \<Longrightarrow> covers q \<subseteq> covers_all (profilePrefixes p inp fam) \<Longrightarrow>
     within q (ds_include (ProfileDestinations inp) fam)"
  unfolding ProfileDestinations_def Let_def destinations.select_convs
  by (subst agg.agg_within_iff) (auto simp: covers_all_concat routed_profiles_def)

lemma fam_routes_mem:
  assumes "r \<in> set (fam_routes inp tunnels p fam)"
  obtains gw iface q where "resolveGateway (pf_Gateway p) fam inp = Inr (gw, iface)" "q \<in> set (Aggregate (exclude_prefixes p inp tunnels fam))"
    "r = \<lparr>mr_Route = exclude_route p inp gw iface fam q, mr_ProfileID = pf_ID p, mr_CreatedAt = in_Now inp\<rparr>"
proof (cases "resolveGateway (pf_Gateway p) fam inp")
  case (Inl err)
  then show ?thesis using assms by (simp add: fam_routes_def)
next
  case (Inr g)
  then show ?thesis using assms that by (cases g) (auto simp: fam_routes_def)
qed

lemma exclude_prefixes_subset: "covers_all (exclude_prefixes p inp tunnels fam) \<subseteq> covers_all (profilePrefixes p inp fam)"
  unfolding exclude_prefixes_def by (intro covers_all_mono order_trans[OF outsideTunnels_subset outsideTunnels_subset])

section \<open>A small input\<close>

definition demo_profile :: "mode \<Rightarrow> profile" where
  "demo_profile m = \<lparr>pf_ID = ''work'', pf_Name = ''work'', pf_Description = [], pf_Enabled = True, pf_Mode = m,
     pf_Gateway = ''auto'', pf_Priority = 0,
     pf_Rules = [\<lparr>ru_Type = RuleCIDR, ru_Value = ''10.0.0.0/8'', ru_Comment = []\<rparr>], pf_Lists = [], pf_IPVersion = [], pf_Tunnel = []\<rparr>"

definition demo_build :: "mode \<Rightarrow> desired_input" where
  "demo_build m = input0\<lparr>in_Profiles := [demo_profile m], in_GatewayV4 := Addr4 0xC0A80001, in_PhysIfaceV4 := ''en0'',
     in_VPNIfaceV4 := ''tun0'', in_Platform := ''linux'', in_PolicyRouting := True\<rparr>"

abbreviation order46 :: "nat \<Rightarrow> family list" where
  "order46 \<equiv> (\<lambda>_. [FamilyV4, FamilyV6])"

lemma demo_exclude_ok: "\<not> isl (BuildDesired order46 [FamilyV4, FamilyV6] (demo_build ModeExclude))"
  by code_simp

lemma demo_include_ok: "(case BuildDesired order46 [FamilyV4, FamilyV6] (demo_build ModeInclude) of Inl _ \<Rightarrow> False
   | Inr (rs, ls) \<Rightarrow> map (\<lambda>r. (pr_Priority (ml_Rule r), pr_Selector (ml_Rule r))) ls = [(5252, ''to 10.0.0.0/8'')])"
  by code_simp


lemma both46 [simp]: "both [FamilyV4, FamilyV6]" "both [FamilyV6, FamilyV4]"
  by (simp_all add: both_def)

lemma demo_exclude: obtains rs ls where "BuildDesired order46 [FamilyV4, FamilyV6] (demo_build ModeExclude) = Inr (rs, ls)"
  using demo_exclude_ok by (cases "BuildDesired order46 [FamilyV4, FamilyV6] (demo_build ModeExclude)") auto

lemma demo_include:
  obtains rs r where "BuildDesired order46 [FamilyV4, FamilyV6] (demo_build ModeInclude) = Inr (rs, [r])"
    "pr_Priority (ml_Rule r) = ModelBRulePrio" "pr_Selector (ml_Rule r) = ''to 10.0.0.0/8''"
proof (cases "BuildDesired order46 [FamilyV4, FamilyV6] (demo_build ModeInclude)")
  case (Inl err)
  then show ?thesis using demo_include_ok by simp
next
  case (Inr x)
  obtain rs ls where "x = (rs, ls)" by (cases x)
  then show ?thesis using demo_include_ok Inr that by auto
qed

section \<open>Properties\<close>

text \<open>
  C21.  The desired state does not depend on the order in which Go visits the families of a map:
  two builds of one input succeed together and give the same sorted routes and rules.
\<close>

theorem BuildDesired_order_independent:
  assumes "\<forall>i. both (ords i)" "\<forall>i. both (ords' i)" "both e" "both e'" "list_all is_valid (in_Tailscale inp)"
    and "BuildDesired ords e inp = Inr (routes, rules)"
  shows "BuildDesired ords' e' inp = Inr (routes, rules)"
proof -
  have v: "valid_all (in_Tailscale inp)" using assms(5) by (simp add: list_all_iff)
  note a = all_routes_set[OF assms(1-4) v] and l = base_rules_set[OF assms(1,2) v]
  have "rule_fams ords inp = rule_fams ords' inp" using l by (simp add: rule_fams_def)
  moreover have "list_all P e = list_all P e'" for P using both_set[OF assms(3)] both_set[OF assms(4)] by (simp add: list_all_iff)
  ultimately have "ok (BuildDesired ords' e' inp)"
    using assms(6) BuildDesired_ok[of ords e inp] BuildDesired_ok[of ords' e' inp]
      build_profiles_ok[OF visited_both[OF assms(1,2)], of inp "PlanTunnels inp" inp build0 build0] by simp
  then obtain routes' rules' where b': "BuildDesired ords' e' inp = Inr (routes', rules')" using ok_Inr by fastforce
  note s = BesideTailscale_sets[OF a l, of inp]
  have "routes = routes'"
    unfolding BuildDesired_Inr(1)[OF assms(6)] BuildDesired_Inr(1)[OF b']
    by (rule sort_key_unique[OF _ _ s(1)])
      (intro BesideTailscale_routes_distinct all_routes_distinct all_routes_plain assms)+
  moreover have "rules = rules'"
    unfolding BuildDesired_Inr(2)[OF assms(6)] BuildDesired_Inr(2)[OF b']
    by (rule sort_key_unique[OF _ _ s(2)]) (intro BesideTailscale_rules_distinct assms)+
  ultimately show ?thesis using b' by simp
qed

theorem BuildDesired_order_independent_witness:
  "\<exists>rs ls. BuildDesired order46 [FamilyV4, FamilyV6] (demo_build ModeExclude) = Inr (rs, ls)
     \<and> BuildDesired (\<lambda>_. [FamilyV6, FamilyV4]) [FamilyV6, FamilyV4] (demo_build ModeExclude) = Inr (rs, ls)"
proof -
  obtain rs ls where b: "BuildDesired order46 [FamilyV4, FamilyV6] (demo_build ModeExclude) = Inr (rs, ls)" by (rule demo_exclude)
  have "list_all is_valid (in_Tailscale (demo_build ModeExclude))" by (simp add: demo_build_def input0_def)
  from BuildDesired_order_independent[OF _ _ _ _ this b, of "\<lambda>_. [FamilyV6, FamilyV4]" "[FamilyV6, FamilyV4]"] b
  show ?thesis by auto
qed

text \<open>
  C22.  No rule without its table: on Linux every include rule of a desired state has, in the same
  state, a default route of its family in the table it selects, via a named tunnel interface.
\<close>

theorem BuildDesired_rules_have_tables:
  assumes "\<forall>i. both (ords i)" "both e" "in_Platform inp \<noteq> ''darwin''"
    and "BuildDesired ords e inp = Inr (routes, rules)"
    and "r \<in> set rules" "pr_Priority (ml_Rule r) = ModelBRulePrio"
  shows "\<exists>d \<in> set routes. rt_Table (mr_Route d) = pr_Table (ml_Rule r) \<and> rt_Family (mr_Route d) = pr_Family (ml_Rule r)
    \<and> (rt_DstCIDR (mr_Route d) = ''0.0.0.0/0'' \<or> rt_DstCIDR (mr_Route d) = ''::/0'') \<and> rt_Iface (mr_Route d) \<noteq> []"
proof -
  have b: "r \<in> set (base_rules ords inp)" by (rule model_b_rule_cases[OF assms(4-6)])
  note t = base_rules_prio[OF assms(1,3) b]
  let ?f = "pr_Family (ml_Rule r)" and ?d = "default_route_of inp (pr_Family (ml_Rule r))"
  have f: "?f \<in> rule_fams ords inp" using b assms(3) by (simp add: rule_fams_def)
  then have "snd (vpnFor ?f inp) \<noteq> []" using BuildDesired_Inr(3)[OF assms(4)] both_set[OF assms(2)] t(3) by auto
  moreover have "?d \<in> set routes"
    by (rule BuildDesired_route_intro[OF assms(4) default_in_all[OF assms(1,2) f t(3)]]) (simp add: default_route_of_def)
  ultimately show ?thesis using t(2) by (intro bexI[of _ ?d]) (auto simp: default_route_of_def)
qed

theorem BuildDesired_rules_have_tables_witness:
  "\<exists>rs r. BuildDesired order46 [FamilyV4, FamilyV6] (demo_build ModeInclude) = Inr (rs, [r])
     \<and> (\<exists>d \<in> set rs. rt_Table (mr_Route d) = pr_Table (ml_Rule r) \<and> rt_Iface (mr_Route d) \<noteq> [])"
proof -
  obtain rs r where b: "BuildDesired order46 [FamilyV4, FamilyV6] (demo_build ModeInclude) = Inr (rs, [r])"
    "pr_Priority (ml_Rule r) = ModelBRulePrio" by (rule demo_include)
  have "in_Platform (demo_build ModeInclude) \<noteq> ''darwin''" by (simp add: demo_build_def)
  from BuildDesired_rules_have_tables[OF _ _ this b(1) _ b(2)] b(1) show ?thesis by auto
qed





text \<open>
  C25.  The route strings of the tunnel-mode profiles read back: they parse, as list entries do,
  into disjoint networks that cover exactly what the profiles of that tunnel name.
\<close>

theorem TunnelProfileRoutes_roundtrip:
  "\<exists>nets. map entryToPrefix (TunnelProfileRoutes ord inp name) = map (\<lambda>n. Some (n, famOf (pfx_addr n))) nets
    \<and> disjoint_nets nets
    \<and> covers_all nets = covers_all (concat (map (\<lambda>p. concat (map (profilePrefixes p inp) ord))
         (filter (\<lambda>p. tunnel_profile p \<and> pf_Tunnel p = name) (in_Profiles inp))))"
proof -
  define ps where "ps = concat (map (\<lambda>p. concat (map (profilePrefixes p inp) ord))
         (filter (\<lambda>p. tunnel_profile p \<and> pf_Tunnel p = name) (in_Profiles inp)))"
  have "map entryToPrefix (map route_string (Aggregate ps)) = map (\<lambda>n. Some (n, famOf (pfx_addr n))) (Aggregate ps)"
    using entryToPrefix_route_string Aggregate_elem by simp
  then show ?thesis unfolding TunnelProfileRoutes_def ps_def[symmetric] using Aggregate_spec[of ps] by blast
qed



text \<open>
  C27.  An include profile is refused, never half-built, where policy routing is unavailable; on
  macOS it is also refused when an app rule does not name a user.
\<close>

theorem BuildDesired_refuses_include:
  assumes "\<forall>i. both (ords i)" "p \<in> set (in_Profiles inp)" "pf_Enabled p" "pf_Mode p = ModeInclude"
    and "\<not> in_PolicyRouting inp
      \<or> in_Platform inp = ''darwin'' \<and> list_ex (\<lambda>r. ru_Type r = RuleApp \<and> \<not> IsUIDLike (ru_Value r)) (pf_Rules p)"
  shows "\<exists>err. BuildDesired ords e inp = Inl err"
proof -
  have bad: "\<not> ok (build_profile inp tp ord p st)" for tp ord st
    using assms(3-5) by (auto simp: build_profile_def build_include_ok darwin_apps_ok list_all_iff list_ex_iff)
  have "\<not> ok (build_profiles inp tp ps st)" if "(p, ord) \<in> set ps" for tp ord ps st
    using that
  proof (induction ps arbitrary: st)
    case (Cons x ps)
    obtain q o2 where x: "x = (q, o2)" by (cases x)
    show ?case
    proof (cases "build_profile inp tp o2 q st")
      case (Inr st1)
      then have "q \<noteq> p" using bad[of tp o2 st] by (auto simp: ok_def)
      then show ?thesis using Cons x Inr by auto
    qed (simp add: x)
  qed simp
  then have "\<not> ok (BuildDesired ords e inp)" using visited_ex[OF assms(2), of ords] BuildDesired_ok by blast
  then show ?thesis by (cases "BuildDesired ords e inp") (auto simp: ok_def)
qed

theorem BuildDesired_refuses_include_witness:
  "\<exists>err. BuildDesired order46 [FamilyV4, FamilyV6] ((demo_build ModeInclude)\<lparr>in_PolicyRouting := False\<rparr>) = Inl err"
  by (rule BuildDesired_refuses_include[of _ "demo_profile ModeInclude"]) (simp_all add: demo_build_def demo_profile_def)

end
