(* ===== verification/Plans.thy ===== *)
theory Plans
  imports Desired
begin

text \<open>
  Plans: \<^verbatim>\<open>Reconcile\<close>, \<^verbatim>\<open>invert\<close>, \<^verbatim>\<open>DeleteRoutePlan\<close>, \<^verbatim>\<open>ReplaceRoutePlan\<close> and the commands and
  descriptions of their operations (\<^verbatim>\<open>internal/routing/engine.go\<close>), and what a plan does to a kernel
  that holds one route per destination.
\<close>

section \<open>Commands and descriptions\<close>

definition commandForRoute :: "op_kind \<Rightarrow> route \<Rightarrow> string \<Rightarrow> string list" where
  "commandForRoute kind r platform =
     (let scope = (if isHostPrefix r then ''-host'' else ''-net'')
      in if platform = ''darwin'' \<and> kind = OpAddRoute then
           if rt_Reject r then [''route'', ''-n'', ''add'', scope, rt_DstCIDR r, loopbackFor r, ''-reject'']
           else if rt_Gateway r = [] then [''route'', ''-n'', ''add'', scope, rt_DstCIDR r, ''-interface'', rt_Iface r]
           else [''route'', ''-n'', ''add'', scope, rt_DstCIDR r, rt_Gateway r]
         else if platform = ''darwin'' \<and> kind = OpDelRoute then
           if rt_Gateway r = [] then [''route'', ''-n'', ''delete'', scope, rt_DstCIDR r]
           else [''route'', ''-n'', ''delete'', scope, rt_DstCIDR r, rt_Gateway r]
         else
           let proto = (if rt_Proto r = [] then ''riftroute'' else rt_Proto r);
               args = [''ip'', ''route''];
               args = (case kind of
                   OpAddRoute \<Rightarrow>
                     if rt_Reject r then args @ [''add'', ''unreachable'', rt_DstCIDR r, ''proto'', proto]
                     else args @ [''add'', rt_DstCIDR r] @ (if rt_Gateway r \<noteq> [] then [''via'', rt_Gateway r] else [])
                       @ [''dev'', rt_Iface r, ''proto'', proto]
                 | OpDelRoute \<Rightarrow> args @ [''del'', rt_DstCIDR r, ''proto'', proto]
                 | _ \<Rightarrow> args)
           in if rt_Table r \<noteq> [] then args @ [''table'', rt_Table r] else args)"

definition ruleFamilyFlag :: "policy_rule \<Rightarrow> string" where
  "ruleFamilyFlag r =
     (let fam = (if pr_Family r = [] then
                   if list_ex (\<lambda>f. case parse_prefix f of Some p \<Rightarrow> is6 (pfx_addr p) | None \<Rightarrow> False) (Prelude.fields (pr_Selector r))
                   then FamilyV6 else FamilyV4
                 else pr_Family r)
      in if fam = FamilyV6 then ''-6'' else ''-4'')"

definition commandForRule :: "op_kind \<Rightarrow> policy_rule \<Rightarrow> string list" where
  "commandForRule kind r =
     (if pr_RouteToIface r \<noteq> [] then
        let target = (if pr_RouteToGW r \<noteq> [] then pr_RouteToIface r @ '' '' @ pr_RouteToGW r else pr_RouteToIface r)
        in if kind = OpDelRule then [''pf'', ''anchor'', ''riftroute:'', ''remove'', pr_Selector r]
           else [''pf'', ''anchor'', ''riftroute:'', ''pass'', ''out'', ''route-to'', ''('' @ target @ '')'', pr_Selector r]
      else [''ip'', ruleFamilyFlag r, ''rule'', if kind = OpDelRule then ''del'' else ''add''] @ Prelude.fields (pr_Selector r)
        @ [''lookup'', pr_Table r, ''priority'', itoa (pr_Priority r), ''protocol'', ''riftroute''])"

definition humanForRoute :: "op_kind \<Rightarrow> route \<Rightarrow> string" where
  "humanForRoute kind r =
     (let verb = (if kind = OpDelRoute then ''del'' else ''add'');
          t = (if rt_Table r \<noteq> [] then '' table '' @ rt_Table r else [])
      in if rt_Reject r then verb @ '' '' @ rt_DstCIDR r @ '' reject'' @ t
         else if rt_Gateway r = [] then verb @ '' '' @ rt_DstCIDR r @ '' dev '' @ rt_Iface r @ t
         else verb @ '' '' @ rt_DstCIDR r @ '' via '' @ rt_Gateway r @ '' dev '' @ rt_Iface r @ t)"

text \<open>The UTF-8 encoding of the arrow in the description of a PF rule.\<close>

definition arrow :: string where
  "arrow = [CHR 0xE2, CHR 0x86, CHR 0x92]"

definition humanForRule :: "op_kind \<Rightarrow> policy_rule \<Rightarrow> string" where
  "humanForRule kind r =
     (if pr_RouteToIface r \<noteq> [] then
        (if kind = OpDelRule then ''remove route-to'' else ''route-to'') @ '' '' @ pr_Selector r @ '' '' @ arrow @ '' ''
          @ pr_RouteToIface r @ '' (pf)''
      else (if kind = OpDelRule then ''del rule'' else ''add rule'') @ '' '' @ pr_Selector r @ '' lookup '' @ pr_Table r
        @ '' priority '' @ itoa (pr_Priority r))"

definition makeRouteOp :: "op_kind \<Rightarrow> managed_route \<Rightarrow> string \<Rightarrow> plan_op" where
  "makeRouteOp kind mr platform =
     \<lparr>po_Kind = kind, po_Route = Some mr, po_Rule = None, po_Command = commandForRoute kind (mr_Route mr) platform,
      po_Human = humanForRoute kind (mr_Route mr)\<rparr>"

definition makeRuleOp :: "op_kind \<Rightarrow> managed_rule \<Rightarrow> plan_op" where
  "makeRuleOp kind mr =
     \<lparr>po_Kind = kind, po_Route = None, po_Rule = Some mr, po_Command = commandForRule kind (ml_Rule mr),
      po_Human = humanForRule kind (ml_Rule mr)\<rparr>"

section \<open>Plans and their inverse\<close>

text \<open>One operation undone; \<open>None\<close> is the nil dereference of an operation without its route or rule.\<close>

definition invert_op :: "string \<Rightarrow> plan_op \<Rightarrow> plan_op list option" where
  "invert_op platform op =
     (case po_Kind op of
        OpAddRoute \<Rightarrow> map_option (\<lambda>r. [makeRouteOp OpDelRoute r platform]) (po_Route op)
      | OpDelRoute \<Rightarrow> map_option (\<lambda>r. [makeRouteOp OpAddRoute r platform]) (po_Route op)
      | OpAddRule \<Rightarrow> map_option (\<lambda>r. [makeRuleOp OpDelRule r]) (po_Rule op)
      | OpDelRule \<Rightarrow> map_option (\<lambda>r. [makeRuleOp OpAddRule r]) (po_Rule op)
      | OpOther _ \<Rightarrow> Some [])"

fun invert_loop :: "string \<Rightarrow> plan_op list \<Rightarrow> plan_op list \<Rightarrow> plan_op list option" where
  "invert_loop platform acc [] = Some acc"
| "invert_loop platform acc (op # ops) =
     (case invert_op platform op of None \<Rightarrow> None | Some x \<Rightarrow> invert_loop platform (acc @ x) ops)"

definition invert :: "plan_op list \<Rightarrow> string \<Rightarrow> plan_op list option" where
  "invert ops platform = invert_loop platform [] (rev ops)"

definition with_inverse :: "plan_op list \<Rightarrow> string \<Rightarrow> plan option" where
  "with_inverse ops platform = map_option (\<lambda>acc. \<lparr>pl_Ops = ops, pl_Inverse = acc\<rparr>) (invert ops platform)"

definition replace_olds :: "string \<Rightarrow> managed_route list \<Rightarrow> string set \<times> plan_op list \<Rightarrow> string set \<times> plan_op list" where
  "replace_olds platform olds st =
     foldl (\<lambda>(replaced, ops) old.
       let k = RouteKey (mr_Route old)
       in if k \<in> replaced then (replaced, ops) else (insert k replaced, ops @ [makeRouteOp OpDelRoute old platform])) st olds"

definition route_add_step :: "string \<Rightarrow> (string \<rightharpoonup> managed_route) \<Rightarrow> (string \<Rightarrow> managed_route list)
    \<Rightarrow> string set \<times> plan_op list \<Rightarrow> managed_route \<Rightarrow> string set \<times> plan_op list" where
  "route_add_step platform ar byDst st d =
     (if ar (RouteKey (mr_Route d)) \<noteq> None then st
      else let (replaced, ops) = replace_olds platform (byDst (dstKey (mr_Route d))) st
        in (replaced, ops @ [makeRouteOp OpAddRoute d platform]))"

definition reconcile_ops :: "managed_route list \<Rightarrow> managed_route list \<Rightarrow> managed_rule list \<Rightarrow> managed_rule list \<Rightarrow> string
    \<Rightarrow> plan_op list" where
  "reconcile_ops desiredRoutes actualRoutes desiredRules actualRules platform =
     (let dr = indexRoutes desiredRoutes; ar = indexRoutes actualRoutes;
          drl = indexRules desiredRules; arl = indexRules actualRules;
          byDst = (\<lambda>k. filter (\<lambda>a. dr (RouteKey (mr_Route a)) = None \<and> dstKey (mr_Route a) = k) actualRoutes);
          (replaced, routeAdds) = foldl (route_add_step platform ar byDst) ({}, []) desiredRoutes;
          routeDels = map (\<lambda>a. makeRouteOp OpDelRoute a platform)
            (filter (\<lambda>a. dr (RouteKey (mr_Route a)) = None \<and> RouteKey (mr_Route a) \<notin> replaced) actualRoutes);
          ruleAdds = map (makeRuleOp OpAddRule) (filter (\<lambda>d. arl (RuleKey (ml_Rule d)) = None) desiredRules);
          ruleDels = map (makeRuleOp OpDelRule) (filter (\<lambda>a. drl (RuleKey (ml_Rule a)) = None) actualRules)
      in routeAdds @ ruleAdds @ ruleDels @ routeDels)"

definition Reconcile :: "managed_route list \<Rightarrow> managed_route list \<Rightarrow> managed_rule list \<Rightarrow> managed_rule list \<Rightarrow> string \<Rightarrow> plan option"
  where
  "Reconcile desiredRoutes actualRoutes desiredRules actualRules platform =
     with_inverse (reconcile_ops desiredRoutes actualRoutes desiredRules actualRules platform) platform"

definition unmanaged :: "route \<Rightarrow> managed_route" where
  "unmanaged r = \<lparr>mr_Route = r, mr_ProfileID = [], mr_CreatedAt = 0\<rparr>"

definition DeleteRoutePlan :: "route \<Rightarrow> string \<Rightarrow> plan option" where
  "DeleteRoutePlan r platform = with_inverse [makeRouteOp OpDelRoute (unmanaged r) platform] platform"

definition ReplaceRoutePlan :: "route \<Rightarrow> route \<Rightarrow> string \<Rightarrow> plan option" where
  "ReplaceRoutePlan old updated platform =
     with_inverse [makeRouteOp OpDelRoute (unmanaged old) platform, makeRouteOp OpAddRoute (unmanaged updated) platform] platform"

section \<open>Undoing operations\<close>

text \<open>
  A semantics of plan operations in which an operation that takes effect can be undone. \<open>eff\<close>
  says that an operation changes the state it is run in (an add of something absent, a removal of
  something present).
\<close>

fun all_eff :: "(plan_op \<Rightarrow> 's \<Rightarrow> bool) \<Rightarrow> (plan_op \<Rightarrow> 's \<Rightarrow> 's) \<Rightarrow> plan_op list \<Rightarrow> 's \<Rightarrow> bool" where
  "all_eff eff step [] s \<longleftrightarrow> True"
| "all_eff eff step (op # ops) s \<longleftrightarrow> eff op s \<and> all_eff eff step ops (step op s)"

lemma all_eff_append: "all_eff eff step (xs @ ys) s \<longleftrightarrow> all_eff eff step xs s \<and> all_eff eff step ys (fold step xs s)"
  by (induction xs arbitrary: s) auto

locale reversible =
  fixes step :: "plan_op \<Rightarrow> 's \<Rightarrow> 's" and eff :: "plan_op \<Rightarrow> 's \<Rightarrow> bool" and undo :: "plan_op \<Rightarrow> plan_op"
  assumes undo_step: "eff op s \<Longrightarrow> step (undo op) (step op s) = s"
    and undo_eff: "eff op s \<Longrightarrow> eff (undo op) (step op s)"
begin

lemma undo_run:
  assumes "all_eff eff step ops s"
  shows "fold step (map undo (rev ops)) (fold step ops s) = s \<and> all_eff eff step (map undo (rev ops)) (fold step ops s)"
  using assms
proof (induction ops arbitrary: s)
  case (Cons op ops)
  then show ?case using Cons.IH[of "step op s"] undo_step undo_eff by (simp add: all_eff_append)
qed simp

end

section \<open>A kernel with one route per destination\<close>

text \<open>
  What the plan is written for: a table with at most one route per destination, where an add of a
  destination that is there already leaves the old route, and a delete matches by destination.
  Routes and rules are known by their keys.
\<close>

type_synonym table_state = "(string \<rightharpoonup> string) \<times> string set"

definition table_step :: "plan_op \<Rightarrow> table_state \<Rightarrow> table_state" where
  "table_step op = (\<lambda>(T, L).
     case (po_Kind op, po_Route op, po_Rule op) of
       (OpAddRoute, Some m, _) \<Rightarrow>
         (if T (dstKey (mr_Route m)) = None then T(dstKey (mr_Route m) \<mapsto> RouteKey (mr_Route m)) else T, L)
     | (OpDelRoute, Some m, _) \<Rightarrow> (T(dstKey (mr_Route m) := None), L)
     | (OpAddRule, _, Some l) \<Rightarrow> (T, insert (RuleKey (ml_Rule l)) L)
     | (OpDelRule, _, Some l) \<Rightarrow> (T, L - {RuleKey (ml_Rule l)})
     | _ \<Rightarrow> (T, L))"

definition table_eff :: "plan_op \<Rightarrow> table_state \<Rightarrow> bool" where
  "table_eff op = (\<lambda>(T, L).
     case (po_Kind op, po_Route op, po_Rule op) of
       (OpAddRoute, Some m, _) \<Rightarrow> T (dstKey (mr_Route m)) = None
     | (OpDelRoute, Some m, _) \<Rightarrow> T (dstKey (mr_Route m)) = Some (RouteKey (mr_Route m))
     | (OpAddRule, _, Some l) \<Rightarrow> RuleKey (ml_Rule l) \<notin> L
     | (OpDelRule, _, Some l) \<Rightarrow> RuleKey (ml_Rule l) \<in> L
     | _ \<Rightarrow> False)"

definition flip :: "string \<Rightarrow> plan_op \<Rightarrow> plan_op" where
  "flip platform op = (case invert_op platform op of Some [x] \<Rightarrow> x | _ \<Rightarrow> op)"

definition shaped :: "plan_op \<Rightarrow> bool" where
  "shaped op \<longleftrightarrow> (\<exists>m platform. op = makeRouteOp OpAddRoute m platform \<or> op = makeRouteOp OpDelRoute m platform)
     \<or> (\<exists>l. op = makeRuleOp OpAddRule l \<or> op = makeRuleOp OpDelRule l)"

lemma op_fields [simp]:
  "po_Kind (makeRouteOp k m pf) = k" "po_Route (makeRouteOp k m pf) = Some m" "po_Rule (makeRouteOp k m pf) = None"
  "po_Kind (makeRuleOp k l) = k" "po_Route (makeRuleOp k l) = None" "po_Rule (makeRuleOp k l) = Some l"
  by (simp_all add: makeRouteOp_def makeRuleOp_def)

lemma shaped_ops [simp]:
  "shaped (makeRouteOp OpAddRoute m pf)" "shaped (makeRouteOp OpDelRoute m pf)"
  "shaped (makeRuleOp OpAddRule l)" "shaped (makeRuleOp OpDelRule l)"
  by (auto simp: shaped_def)

lemma table_ops [op_simps]:
  "table_step (makeRouteOp OpAddRoute m pf) (T, L) =
     (if T (dstKey (mr_Route m)) = None then T(dstKey (mr_Route m) \<mapsto> RouteKey (mr_Route m)) else T, L)"
  "table_step (makeRouteOp OpDelRoute m pf) (T, L) = (T(dstKey (mr_Route m) := None), L)"
  "table_step (makeRuleOp OpAddRule l) (T, L) = (T, insert (RuleKey (ml_Rule l)) L)"
  "table_step (makeRuleOp OpDelRule l) (T, L) = (T, L - {RuleKey (ml_Rule l)})"
  "table_eff (makeRouteOp OpAddRoute m pf) (T, L) \<longleftrightarrow> T (dstKey (mr_Route m)) = None"
  "table_eff (makeRouteOp OpDelRoute m pf) (T, L) \<longleftrightarrow> T (dstKey (mr_Route m)) = Some (RouteKey (mr_Route m))"
  "table_eff (makeRuleOp OpAddRule l) (T, L) \<longleftrightarrow> RuleKey (ml_Rule l) \<notin> L"
  "table_eff (makeRuleOp OpDelRule l) (T, L) \<longleftrightarrow> RuleKey (ml_Rule l) \<in> L"
  by (simp_all add: table_step_def table_eff_def)

lemma flip_ops [op_simps]:
  "flip pf (makeRouteOp OpAddRoute m pf') = makeRouteOp OpDelRoute m pf"
  "flip pf (makeRouteOp OpDelRoute m pf') = makeRouteOp OpAddRoute m pf"
  "flip pf (makeRuleOp OpAddRule l) = makeRuleOp OpDelRule l"
  "flip pf (makeRuleOp OpDelRule l) = makeRuleOp OpAddRule l"
  by (simp_all add: flip_def invert_op_def)

lemma table_eff_cases:
  assumes "table_eff op s"
  obtains m where "po_Kind op = OpAddRoute" "po_Route op = Some m"
    | m where "po_Kind op = OpDelRoute" "po_Route op = Some m"
    | l where "po_Kind op = OpAddRule" "po_Rule op = Some l"
    | l where "po_Kind op = OpDelRule" "po_Rule op = Some l"
  using assms by (auto simp: table_eff_def split: prod.splits op_kind.splits option.splits)

interpretation table: reversible table_step table_eff "flip platform"
proof
  fix op s assume e: "table_eff op s"
  obtain T L where s: "s = (T, L)" by (cases s)
  from e show "table_step (flip platform op) (table_step op s) = s" "table_eff (flip platform op) (table_step op s)"
    unfolding s by (cases rule: table_eff_cases;
      auto simp: flip_def invert_op_def table_step_def table_eff_def fun_eq_iff)+
qed

lemma invert_loop_flip: "list_all shaped ops \<Longrightarrow> invert_loop platform acc ops = Some (acc @ map (flip platform) ops)"
proof (induction ops arbitrary: acc)
  case (Cons op ops)
  have "invert_op platform op = Some [flip platform op]"
    using Cons.prems by (auto simp: shaped_def invert_op_def flip_def)
  then show ?case using Cons by simp
qed simp

lemma invert_flip: "list_all shaped ops \<Longrightarrow> invert ops platform = Some (map (flip platform) (rev ops))"
  by (simp add: invert_def invert_loop_flip)

section \<open>The plan reaches the desired state\<close>

abbreviation rkey :: "managed_route \<Rightarrow> string" where "rkey r \<equiv> RouteKey (mr_Route r)"
abbreviation lkey :: "managed_rule \<Rightarrow> string" where "lkey r \<equiv> RuleKey (ml_Rule r)"

lemma index_None [simp]:
  "indexRoutes rs k = None \<longleftrightarrow> k \<notin> set (route_keys rs)" "indexRules ls k = None \<longleftrightarrow> k \<notin> set (rule_keys ls)"
  by (auto simp: indexRoutes_def indexRules_def map_of_eq_None_iff image_iff)

text \<open>What the kernel holds of the routes and rules the plan is about.\<close>

record recon =
  rc_D :: "managed_route list"
  rc_A :: "managed_route list"
  rc_DR :: "managed_rule list"
  rc_AR :: "managed_rule list"

definition consistent :: "recon \<Rightarrow> table_state \<Rightarrow> bool" where
  "consistent x = (\<lambda>(T, L).
     list_all (\<lambda>a. T (dst_of a) = Some (rkey a)) (rc_A x)
     \<and> list_all (\<lambda>d. dst_of d \<in> set (dst_keys (rc_A x)) \<or> T (dst_of d) = None) (rc_D x)
     \<and> set (rule_keys (rc_AR x)) \<subseteq> L \<and> L \<inter> set (rule_keys (rc_DR x)) \<subseteq> set (rule_keys (rc_AR x)))"

definition well_keyed :: "recon \<Rightarrow> bool" where
  "well_keyed x \<longleftrightarrow> bar_free_routes (rc_D x) \<and> bar_free_routes (rc_A x)
     \<and> distinct (dst_keys (rc_D x)) \<and> distinct (dst_keys (rc_A x))
     \<and> distinct (rule_keys (rc_DR x)) \<and> distinct (rule_keys (rc_AR x))"

definition stale :: "recon \<Rightarrow> managed_route \<Rightarrow> bool" where
  "stale x a \<longleftrightarrow> rkey a \<notin> set (route_keys (rc_D x))"

definition fresh :: "recon \<Rightarrow> managed_route \<Rightarrow> bool" where
  "fresh x d \<longleftrightarrow> rkey d \<notin> set (route_keys (rc_A x))"

definition olds :: "recon \<Rightarrow> string \<Rightarrow> managed_route list" where
  "olds x k = filter (\<lambda>a. stale x a \<and> dst_of a = k) (rc_A x)"

definition replaced_by :: "recon \<Rightarrow> managed_route list \<Rightarrow> managed_route list" where
  "replaced_by x P = filter (\<lambda>a. stale x a \<and> (\<exists>d \<in> set P. fresh x d \<and> dst_of d = dst_of a)) (rc_A x)"

definition route_adds :: "string \<Rightarrow> recon \<Rightarrow> managed_route list \<Rightarrow> plan_op list" where
  "route_adds pf x P = concat (map (\<lambda>d. if fresh x d
      then map (\<lambda>a. makeRouteOp OpDelRoute a pf) (olds x (dst_of d)) @ [makeRouteOp OpAddRoute d pf] else []) P)"

lemma key_dst:
  assumes "well_keyed x" "r \<in> set (rc_D x) \<union> set (rc_A x)" "s \<in> set (rc_D x) \<union> set (rc_A x)" "rkey r = rkey s"
  shows "dst_of r = dst_of s"
proof -
  have "route_bar_free (mr_Route r)" "route_bar_free (mr_Route s)" using assms(1-3) by (auto simp: well_keyed_def list_all_iff)
  then have "same_route (mr_Route r) (mr_Route s)" using RouteKey_iff assms(4) by blast
  then show ?thesis by (rule same_route_dst)
qed

lemma distinct_key_eq: "distinct (map f xs) \<Longrightarrow> a \<in> set xs \<Longrightarrow> b \<in> set xs \<Longrightarrow> f a = f b \<Longrightarrow> a = b"
  by (simp add: distinct_map inj_on_def)

lemma same_dst:
  assumes "well_keyed x"
  shows "a \<in> set (rc_A x) \<Longrightarrow> b \<in> set (rc_A x) \<Longrightarrow> dst_of a = dst_of b \<Longrightarrow> a = b"
    "c \<in> set (rc_D x) \<Longrightarrow> d \<in> set (rc_D x) \<Longrightarrow> dst_of c = dst_of d \<Longrightarrow> c = d"
  using assms distinct_key_eq[of dst_of "rc_A x"] distinct_key_eq[of dst_of "rc_D x"] by (auto simp: well_keyed_def)

lemma olds_cases:
  assumes "well_keyed x"
  shows "olds x k = [] \<or> (\<exists>a \<in> set (rc_A x). stale x a \<and> dst_of a = k \<and> olds x k = [a])"
proof -
  have "distinct (map dst_of (olds x k))" using assms by (simp add: olds_def well_keyed_def distinct_map_filter)
  moreover have "\<forall>a \<in> set (olds x k). dst_of a = k" by (simp add: olds_def)
  ultimately have "length (olds x k) \<le> 1"
    by (cases "olds x k" rule: list.exhaust; cases "tl (olds x k)" rule: list.exhaust) auto
  then show ?thesis
  proof (cases "olds x k")
    case (Cons a as)
    then have "a \<in> set (olds x k)" by simp
    then have "a \<in> set (rc_A x)" "stale x a" "dst_of a = k" unfolding olds_def by simp_all
    moreover from Cons \<open>length (olds x k) \<le> 1\<close> have "olds x k = [a]" by simp
    ultimately show ?thesis by blast
  qed simp
qed

lemma fold_route_adds:
  assumes "well_keyed x" "set P \<subseteq> set (rc_D x)" "distinct P"
  shows "foldl (route_add_step pf (indexRoutes (rc_A x)) (olds x)) ({}, []) P
    = (set (route_keys (replaced_by x P)), route_adds pf x P)"
  using assms(2,3)
proof (induction P rule: rev_induct)
  case (snoc d P)
  then have IH: "foldl (route_add_step pf (indexRoutes (rc_A x)) (olds x)) ({}, []) P
    = (set (route_keys (replaced_by x P)), route_adds pf x P)" and d: "d \<in> set (rc_D x)" "d \<notin> set P" "set P \<subseteq> set (rc_D x)" by auto
  show ?case
  proof (cases "fresh x d")
    case False
    then have "replaced_by x (P @ [d]) = replaced_by x P" "route_adds pf x (P @ [d]) = route_adds pf x P"
      "route_add_step pf (indexRoutes (rc_A x)) (olds x) st d = st" for st
      by (auto simp: replaced_by_def route_adds_def route_add_step_def fresh_def)
    then show ?thesis using IH by simp
  next
    case True
    then have s: "route_add_step pf (indexRoutes (rc_A x)) (olds x) st d =
        (let (rep, ops) = replace_olds pf (olds x (dst_of d)) st in (rep, ops @ [makeRouteOp OpAddRoute d pf]))" for st
      by (simp add: route_add_step_def fresh_def)
    have r: "set (route_keys (replaced_by x (P @ [d]))) = set (route_keys (replaced_by x P)) \<union> set (route_keys (olds x (dst_of d)))"
      using True by (auto simp: replaced_by_def olds_def)
    from olds_cases[OF assms(1), of "dst_of d"] show ?thesis
    proof (elim disjE bexE conjE)
      assume o0: "olds x (dst_of d) = []"
      then show ?thesis using True IH s r by (simp add: replace_olds_def route_adds_def)
    next
      fix a assume a: "a \<in> set (rc_A x)" "stale x a" "dst_of a = dst_of d" "olds x (dst_of d) = [a]"
      have "rkey a \<notin> set (route_keys (replaced_by x P))"
      proof
        assume "rkey a \<in> set (route_keys (replaced_by x P))"
        then obtain b c where b: "b \<in> set (rc_A x)" "rkey b = rkey a" "c \<in> set P" "dst_of c = dst_of b"
          by (auto simp: replaced_by_def)
        then have "dst_of c = dst_of d" using key_dst[OF assms(1), of b a] a(1,3) by simp
        then have "c = d" using same_dst(2)[OF assms(1), of c d] b(3) d by auto
        then show False using b(3) d(2) by simp
      qed
      then show ?thesis using True IH s r a(4) by (simp add: replace_olds_def route_adds_def)
    qed
  qed
qed (simp add: replaced_by_def route_adds_def)

definition route_dels :: "string \<Rightarrow> recon \<Rightarrow> plan_op list" where
  "route_dels pf x = map (\<lambda>a. makeRouteOp OpDelRoute a pf) (filter (\<lambda>a. stale x a \<and> dst_of a \<notin> set (dst_keys (rc_D x))) (rc_A x))"

definition rule_adds :: "recon \<Rightarrow> plan_op list" where
  "rule_adds x = map (makeRuleOp OpAddRule) (filter (\<lambda>d. lkey d \<notin> set (rule_keys (rc_AR x))) (rc_DR x))"

definition rule_dels :: "recon \<Rightarrow> plan_op list" where
  "rule_dels x = map (makeRuleOp OpDelRule) (filter (\<lambda>a. lkey a \<notin> set (rule_keys (rc_DR x))) (rc_AR x))"

text \<open>A stale route is replaced exactly when its destination is still wanted.\<close>

lemma stale_replaced:
  assumes "well_keyed x" "a \<in> set (rc_A x)" "stale x a"
  shows "rkey a \<in> set (route_keys (replaced_by x (rc_D x))) \<longleftrightarrow> dst_of a \<in> set (dst_keys (rc_D x))"
proof
  assume "rkey a \<in> set (route_keys (replaced_by x (rc_D x)))"
  then obtain b d where b: "b \<in> set (rc_A x)" "rkey b = rkey a" "d \<in> set (rc_D x)" "dst_of d = dst_of b"
    by (auto simp: replaced_by_def)
  then have "dst_of d = dst_of a" using key_dst[OF assms(1), of b a] assms(2) by simp
  then show "dst_of a \<in> set (dst_keys (rc_D x))" using b(3) by (auto intro: rev_image_eqI)
next
  assume "dst_of a \<in> set (dst_keys (rc_D x))"
  then obtain d where d: "d \<in> set (rc_D x)" "dst_of d = dst_of a" by auto
  have "fresh x d"
  proof (rule ccontr)
    assume "\<not> fresh x d"
    then obtain b where b: "b \<in> set (rc_A x)" "rkey b = rkey d" by (auto simp: fresh_def)
    then have "b = a" using key_dst[OF assms(1), of b d] d same_dst(1)[OF assms(1), of b a] assms(2) by simp
    then show False using b(2) d(1) assms(3) by (auto simp: stale_def)
  qed
  then have "a \<in> set (replaced_by x (rc_D x))" using d assms(2,3) by (auto simp: replaced_by_def)
  then show "rkey a \<in> set (route_keys (replaced_by x (rc_D x)))" by simp
qed

lemma reconcile_ops_eq:
  assumes "well_keyed x"
  shows "reconcile_ops (rc_D x) (rc_A x) (rc_DR x) (rc_AR x) pf = route_adds pf x (rc_D x) @ rule_adds x @ rule_dels x @ route_dels pf x"
proof -
  have d: "distinct (rc_D x)" using assms distinct_map by (auto simp: well_keyed_def)
  have b: "(\<lambda>k. filter (\<lambda>a. indexRoutes (rc_D x) (rkey a) = None \<and> dst_of a = k) (rc_A x)) = olds x"
    by (simp add: olds_def stale_def fun_eq_iff)
  have f: "filter (\<lambda>a. indexRoutes (rc_D x) (rkey a) = None \<and> rkey a \<notin> set (route_keys (replaced_by x (rc_D x)))) (rc_A x)
      = filter (\<lambda>a. stale x a \<and> dst_of a \<notin> set (dst_keys (rc_D x))) (rc_A x)"
    using stale_replaced[OF assms] by (intro filter_cong) (auto simp: stale_def simp del: set_map)
  show ?thesis
    unfolding reconcile_ops_def Let_def b fold_route_adds[OF assms order_refl d] prod.case f
    by (simp add: route_dels_def rule_adds_def rule_dels_def)
qed

abbreviation runs :: "plan_op list \<Rightarrow> table_state \<Rightarrow> table_state \<Rightarrow> bool" where
  "runs ops s t \<equiv> all_eff table_eff table_step ops s \<and> fold table_step ops s = t"

lemma runs_append: "runs xs s t \<Longrightarrow> runs ys t u \<Longrightarrow> runs (xs @ ys) s u"
  by (auto simp: all_eff_append)

definition tab :: "managed_route list \<Rightarrow> string \<rightharpoonup> string" where
  "tab rs = map_of (map (\<lambda>r. (dst_of r, rkey r)) rs)"

lemma tab_None: "tab rs k = None \<longleftrightarrow> k \<notin> set (dst_keys rs)"
  by (simp add: tab_def map_of_eq_None_iff image_image)

lemma tab_mem: "distinct (dst_keys rs) \<Longrightarrow> r \<in> set rs \<Longrightarrow> tab rs (dst_of r) = Some (rkey r)"
  by (simp add: tab_def comp_def)

lemma tab_snoc: "dst_of d \<notin> set (dst_keys P) \<Longrightarrow> T ++ tab (P @ [d]) = (T ++ tab P)(dst_of d \<mapsto> rkey d)"
  using tab_None[of P "dst_of d"] by (auto simp: tab_def map_add_def fun_eq_iff split: option.splits)

lemma consistentD:
  assumes "consistent x (T, L)"
  shows "a \<in> set (rc_A x) \<Longrightarrow> T (dst_of a) = Some (rkey a)"
    "d \<in> set (rc_D x) \<Longrightarrow> dst_of d \<notin> set (dst_keys (rc_A x)) \<Longrightarrow> T (dst_of d) = None"
    "set (rule_keys (rc_AR x)) \<subseteq> L" "L \<inter> set (rule_keys (rc_DR x)) \<subseteq> set (rule_keys (rc_AR x))"
  using assms by (auto simp: consistent_def list_all_iff)

lemma route_adds_run:
  assumes "well_keyed x" "consistent x (T, L)" "set P \<subseteq> set (rc_D x)" "distinct P"
  shows "runs (route_adds pf x P) (T, L) (T ++ tab P, L)"
  using assms(3,4)
proof (induction P rule: rev_induct)
  case Nil
  then show ?case by (simp add: route_adds_def tab_def)
next
  case (snoc d P)
  then have IH: "runs (route_adds pf x P) (T, L) (T ++ tab P, L)" and d: "d \<in> set (rc_D x)" "d \<notin> set P" "set P \<subseteq> set (rc_D x)"
    by auto
  have n: "dst_of d \<notin> set (dst_keys P)"
    using same_dst(2)[OF assms(1)] d by (auto simp: subset_iff)
  then have Td: "(T ++ tab P) (dst_of d) = T (dst_of d)" using tab_None[of P "dst_of d"] by (simp add: map_add_def)
  let ?ops = "if fresh x d then map (\<lambda>a. makeRouteOp OpDelRoute a pf) (olds x (dst_of d)) @ [makeRouteOp OpAddRoute d pf] else []"
  have "runs ?ops (T ++ tab P, L) (T ++ tab (P @ [d]), L)"
  proof (cases "fresh x d")
    case False
    then obtain a where a: "a \<in> set (rc_A x)" "rkey a = rkey d" by (auto simp: fresh_def)
    then have "T (dst_of d) = Some (rkey d)" using consistentD(1)[OF assms(2) a(1)] key_dst[OF assms(1), of a d] d(1) by simp
    then show ?thesis using False Td by (simp add: tab_snoc[OF n] fun_upd_idem)
  next
    case True
    from olds_cases[OF assms(1), of "dst_of d"] show ?thesis
    proof (elim disjE bexE conjE)
      assume o0: "olds x (dst_of d) = []"
      have "dst_of d \<notin> set (dst_keys (rc_A x))"
      proof
        assume "dst_of d \<in> set (dst_keys (rc_A x))"
        then obtain a where a: "a \<in> set (rc_A x)" "dst_of a = dst_of d" by auto
        have "stale x a"
        proof (rule ccontr)
          assume "\<not> stale x a"
          then obtain c where c: "c \<in> set (rc_D x)" "rkey c = rkey a" by (auto simp: stale_def)
          then have "c = d" using key_dst[OF assms(1), of c a] a same_dst(2)[OF assms(1), of c d] d(1) by simp
          then show False using True a(1) c(2) by (auto simp: fresh_def)
        qed
        then have "a \<in> set (olds x (dst_of d))" using a by (simp add: olds_def)
        then show False using o0 by simp
      qed
      then have "T (dst_of d) = None" by (rule consistentD(2)[OF assms(2) d(1)])
      then show ?thesis using True o0 Td by (simp add: op_simps tab_snoc[OF n])
    next
      fix a assume a: "a \<in> set (rc_A x)" "dst_of a = dst_of d" "olds x (dst_of d) = [a]"
      have "T (dst_of d) = Some (rkey a)" using consistentD(1)[OF assms(2) a(1)] a(2) by simp
      then show ?thesis using True a(2,3) Td by (simp add: op_simps tab_snoc[OF n])
    qed
  qed
  from runs_append[OF IH this] show ?case by (simp add: route_adds_def)
qed

lemma rule_adds_run:
  "distinct (rule_keys ls) \<Longrightarrow> set (rule_keys ls) \<inter> L = {} \<Longrightarrow>
     runs (map (makeRuleOp OpAddRule) ls) (T, L) (T, L \<union> set (rule_keys ls))"
  by (induction ls arbitrary: L) (auto simp: op_simps)

lemma rule_dels_run:
  "distinct (rule_keys ls) \<Longrightarrow> set (rule_keys ls) \<subseteq> L \<Longrightarrow>
     runs (map (makeRuleOp OpDelRule) ls) (T, L) (T, L - set (rule_keys ls))"
proof (induction ls arbitrary: L)
  case (Cons l ls)
  have "set (rule_keys ls) \<subseteq> L - {lkey l}" using Cons.prems by (simp add: subset_Diff_insert)
  then have "runs (map (makeRuleOp OpDelRule) ls) (T, L - {lkey l}) (T, L - {lkey l} - set (rule_keys ls))"
    by (rule Cons.IH[rotated]) (use Cons.prems in simp)
  moreover have "L - {lkey l} - set (rule_keys ls) = L - set (rule_keys (l # ls))" by auto
  ultimately show ?case using Cons.prems by (simp add: op_simps)
qed simp

lemma route_dels_run:
  "distinct (dst_keys as) \<Longrightarrow> \<forall>a \<in> set as. T (dst_of a) = Some (rkey a) \<Longrightarrow>
     runs (map (\<lambda>a. makeRouteOp OpDelRoute a pf) as) (T, L) (T |` (- set (dst_keys as)), L)"
proof (induction as arbitrary: T)
  case (Cons a as)
  have "runs (map (\<lambda>a. makeRouteOp OpDelRoute a pf) as) (T(dst_of a := None), L)
      ((T(dst_of a := None)) |` (- set (dst_keys as)), L)"
    by (rule Cons.IH) (use Cons.prems in \<open>auto simp: image_iff\<close>)
  moreover have "(T(dst_of a := None)) |` (- set (dst_keys as)) = T |` (- set (dst_keys (a # as)))"
    by (auto simp: restrict_map_def fun_eq_iff)
  ultimately show ?case using Cons.prems by (simp add: op_simps)
qed (simp add: restrict_map_def)

definition settled :: "recon \<Rightarrow> table_state \<Rightarrow> table_state" where
  "settled x = (\<lambda>(T, L).
     ((T |` (- set (dst_keys (rc_A x)))) ++ tab (rc_D x), L - set (rule_keys (rc_AR x)) \<union> set (rule_keys (rc_DR x))))"

lemma reconcile_runs:
  assumes "well_keyed x" "consistent x s"
  shows "runs (reconcile_ops (rc_D x) (rc_A x) (rc_DR x) (rc_AR x) pf) s (settled x s)"
proof -
  obtain T L where s: "s = (T, L)" by (cases s)
  note c = consistentD[OF assms(2)[unfolded s]]
  let ?DR = "filter (\<lambda>d. lkey d \<notin> set (rule_keys (rc_AR x))) (rc_DR x)" and ?AR = "filter (\<lambda>a. lkey a \<notin> set (rule_keys (rc_DR x))) (rc_AR x)"
    and ?as = "filter (\<lambda>a. stale x a \<and> dst_of a \<notin> set (dst_keys (rc_D x))) (rc_A x)"
  let ?T1 = "T ++ tab (rc_D x)" and ?L1 = "L \<union> set (rule_keys ?DR)"
  have w: "distinct (dst_keys (rc_D x))" "distinct (dst_keys (rc_A x))" "distinct (rule_keys (rc_DR x))" "distinct (rule_keys (rc_AR x))"
    using assms(1) by (auto simp: well_keyed_def)
  have d: "distinct (rc_D x)" using w(1) distinct_map by blast
  have 1: "runs (route_adds pf x (rc_D x)) (T, L) (?T1, L)"
    by (rule route_adds_run[OF assms(1) assms(2)[unfolded s] order_refl d])
  have 2: "runs (rule_adds x) (?T1, L) (?T1, ?L1)"
    unfolding rule_adds_def by (rule rule_adds_run) (use w(3) c(4) in \<open>auto simp: distinct_map_filter\<close>)
  have 3: "runs (rule_dels x) (?T1, ?L1) (?T1, ?L1 - set (rule_keys ?AR))"
    unfolding rule_dels_def by (rule rule_dels_run) (use w(4) c(3) in \<open>auto simp: distinct_map_filter\<close>)
  have "\<forall>a \<in> set ?as. ?T1 (dst_of a) = Some (rkey a)"
  proof
    fix a assume a: "a \<in> set ?as"
    then have "tab (rc_D x) (dst_of a) = None" by (simp add: tab_None)
    then show "?T1 (dst_of a) = Some (rkey a)" using c(1)[of a] a by (simp add: map_add_def)
  qed
  then have 4: "runs (route_dels pf x) (?T1, ?L1 - set (rule_keys ?AR)) (?T1 |` (- set (dst_keys ?as)), ?L1 - set (rule_keys ?AR))"
    unfolding route_dels_def by (intro route_dels_run) (use w(2) in \<open>simp_all add: distinct_map_filter\<close>)
  have L: "?L1 - set (rule_keys ?AR) = L - set (rule_keys (rc_AR x)) \<union> set (rule_keys (rc_DR x))"
    using c(3,4) by auto
  have "(?T1 |` (- set (dst_keys ?as))) k = ((T |` (- set (dst_keys (rc_A x)))) ++ tab (rc_D x)) k" for k
  proof (cases "k \<in> set (dst_keys (rc_D x))")
    case True
    then obtain y where y: "tab (rc_D x) k = Some y" using tab_None[of "rc_D x" k] by auto
    moreover have "k \<notin> set (dst_keys ?as)"
    proof
      assume "k \<in> set (dst_keys ?as)"
      then obtain a where "a \<in> set ?as" "k = dst_of a" by auto
      then show False using True by simp
    qed
    ultimately show ?thesis by (simp add: map_add_def restrict_map_def del: set_map)
  next
    case False
    have "k \<in> set (dst_keys ?as) \<longleftrightarrow> k \<in> set (dst_keys (rc_A x))"
    proof
      assume "k \<in> set (dst_keys (rc_A x))"
      then obtain a where a: "a \<in> set (rc_A x)" "k = dst_of a" by auto
      have "stale x a" unfolding stale_def
      proof
        assume "rkey a \<in> set (route_keys (rc_D x))"
        then obtain b where "b \<in> set (rc_D x)" "rkey b = rkey a" by auto
        then show False using key_dst[OF assms(1), of b a] a False by (auto intro: rev_image_eqI)
      qed
      then show "k \<in> set (dst_keys ?as)" using a False by auto
    qed auto
    then show ?thesis using False tab_None[of "rc_D x" k] by (auto simp: map_add_def restrict_map_def)
  qed
  then have T: "?T1 |` (- set (dst_keys ?as)) = (T |` (- set (dst_keys (rc_A x)))) ++ tab (rc_D x)" by (simp add: fun_eq_iff)
  have e: "settled x s = (?T1 |` (- set (dst_keys ?as)), ?L1 - set (rule_keys ?AR))"
    unfolding s settled_def prod.case T L ..
  show ?thesis
    unfolding reconcile_ops_eq[OF assms(1)] e unfolding s
    by (rule runs_append[OF 1 runs_append[OF 2 runs_append[OF 3 4]]])
qed

lemma reconcile_shaped: "well_keyed x \<Longrightarrow> list_all shaped (reconcile_ops (rc_D x) (rc_A x) (rc_DR x) (rc_AR x) pf)"
  unfolding reconcile_ops_eq route_adds_def rule_adds_def rule_dels_def route_dels_def by (auto simp: list_all_iff)

section \<open>Rules and their tables along the way\<close>

text \<open>A live rule of the plan has, in the kernel, a route of the plan in the table it looks up.\<close>

definition served :: "recon \<Rightarrow> table_state \<Rightarrow> bool" where
  "served x = (\<lambda>(T, L). list_all (\<lambda>l. lkey l \<notin> L \<or> pr_Table (ml_Rule l) = []
     \<or> list_ex (\<lambda>m. rt_Table (mr_Route m) = pr_Table (ml_Rule l) \<and> T (dst_of m) = Some (rkey m)) (rc_A x @ rc_D x))
       (rc_AR x @ rc_DR x))"

definition rules_backed :: "managed_rule list \<Rightarrow> managed_route list \<Rightarrow> bool" where
  "rules_backed ls rs \<longleftrightarrow> list_all (\<lambda>l. pr_Table (ml_Rule l) = [] \<or> list_ex (\<lambda>m. rt_Table (mr_Route m) = pr_Table (ml_Rule l)) rs) ls"

definition tables_kept :: "recon \<Rightarrow> bool" where
  "tables_kept x \<longleftrightarrow> list_all (\<lambda>a. rt_Table (mr_Route a) = [] \<or> \<not> stale x a \<or> dst_of a \<notin> set (dst_keys (rc_D x))) (rc_A x)"

lemma fold_preserve: "(\<And>op s. op \<in> set ops \<Longrightarrow> P s \<Longrightarrow> P (f op s)) \<Longrightarrow> P s \<Longrightarrow> P (fold f ops s)"
  by (induction ops arbitrary: s) auto

lemma route_op_rules: "po_Rule op = None \<Longrightarrow> snd (table_step op s) = snd s"
  by (cases s) (simp add: table_step_def split: op_kind.splits option.splits)

lemma rule_op_routes: "po_Route op = None \<Longrightarrow> fst (table_step op s) = fst s"
  by (cases s) (simp add: table_step_def split: op_kind.splits option.splits)

lemma route_adds_mem:
  "op \<in> set (route_adds pf x P) \<Longrightarrow> (\<exists>d \<in> set P. op = makeRouteOp OpAddRoute d pf)
     \<or> (\<exists>d \<in> set P. \<exists>a \<in> set (rc_A x). stale x a \<and> dst_of a = dst_of d \<and> op = makeRouteOp OpDelRoute a pf)"
  by (auto simp: route_adds_def olds_def split: if_splits)

lemma kept_in_adds:
  assumes "well_keyed x" "tables_kept x" "a \<in> set (rc_A x)" "rt_Table (mr_Route a) \<noteq> []"
    "op \<in> set (route_adds pf x (rc_D x))" "fst s (dst_of a) = Some (rkey a)"
  shows "fst (table_step op s) (dst_of a) = Some (rkey a)"
proof -
  obtain T L where s: "s = (T, L)" by (cases s)
  from route_adds_mem[OF assms(5)] show ?thesis
  proof (elim disjE bexE conjE)
    fix d assume "op = makeRouteOp OpAddRoute d pf"
    then show ?thesis using assms(6) s by (auto simp: op_simps)
  next
    fix d b assume b: "d \<in> set (rc_D x)" "b \<in> set (rc_A x)" "stale x b" "dst_of b = dst_of d" "op = makeRouteOp OpDelRoute b pf"
    have "dst_of b \<noteq> dst_of a"
    proof
      assume "dst_of b = dst_of a"
      then have "b = a" using same_dst(1)[OF assms(1)] b(2) assms(3) by blast
      then have "dst_of a \<notin> set (dst_keys (rc_D x))" using assms(2,3,4) b(3) by (auto simp: tables_kept_def list_all_iff)
      then show False using \<open>b = a\<close> b(1,4) by simp
    qed
    then show ?thesis using assms(6) s b(5) by (simp add: op_simps)
  qed
qed

lemma same_table:
  assumes "rule_bar_free (ml_Rule l)" "rule_bar_free (ml_Rule k)" "lkey l = lkey k"
  shows "pr_Table (ml_Rule l) = pr_Table (ml_Rule k)"
  using assms RuleKey_iff by (auto simp: same_rule_def)

lemma backed_by:
  assumes "rules_backed ls rs" "k \<in> set ls" "lkey l = lkey k" "rule_bar_free (ml_Rule l)" "rule_bar_free (ml_Rule k)"
    "pr_Table (ml_Rule l) \<noteq> []"
  obtains m where "m \<in> set rs" "rt_Table (mr_Route m) = pr_Table (ml_Rule l)"
  using assms same_table[OF assms(4,5,3)] by (auto simp: rules_backed_def list_all_iff list_ex_iff)

lemma servedI:
  assumes "\<And>l. l \<in> set (rc_AR x @ rc_DR x) \<Longrightarrow> lkey l \<in> snd s \<Longrightarrow> pr_Table (ml_Rule l) \<noteq> [] \<Longrightarrow>
     \<exists>m \<in> set (rc_A x @ rc_D x). rt_Table (mr_Route m) = pr_Table (ml_Rule l) \<and> fst s (dst_of m) = Some (rkey m)"
  shows "served x s"
  using assms unfolding served_def list_all_iff list_ex_iff by (cases s) fastforce

lemma reconcile_served:
  assumes wk: "well_keyed x" and c: "consistent x s" and kept: "tables_kept x"
    and bA: "rules_backed (rc_AR x) (rc_A x)" and bD: "rules_backed (rc_DR x) (rc_D x)"
    and bf: "list_all (\<lambda>l. rule_bar_free (ml_Rule l)) (rc_AR x @ rc_DR x)"
  shows "served x (fold table_step (take n (reconcile_ops (rc_D x) (rc_A x) (rc_DR x) (rc_AR x) pf)) s)"
proof -
  obtain T L where s: "s = (T, L)" by (cases s)
  note cs = consistentD[OF c[unfolded s]]
  have f: "rule_bar_free (ml_Rule l)" if "l \<in> set (rc_AR x @ rc_DR x)" for l using bf that by (auto simp: list_all_iff)
  let ?RA = "route_adds pf x (rc_D x)" and ?LA = "rule_adds x" and ?LD = "rule_dels x" and ?RD = "route_dels pf x"
  have d: "distinct (rc_D x)" "distinct (dst_keys (rc_D x))" using wk distinct_map by (auto simp: well_keyed_def)
  have R1: "fold table_step ?RA s = (T ++ tab (rc_D x), L)"
    using route_adds_run[OF wk c[unfolded s] order_refl d(1)] s by simp
  have Dhas: "(T ++ tab (rc_D x)) (dst_of m) = Some (rkey m)" if "m \<in> set (rc_D x)" for m
    using tab_mem[OF d(2) that] by (simp add: map_add_def)
  have keep1: "fst (fold table_step (take i ?RA) s) (dst_of a) = Some (rkey a)"
    if "a \<in> set (rc_A x)" "rt_Table (mr_Route a) \<noteq> []" for a i
    using cs(1)[OF that(1)] kept_in_adds[OF wk kept that]
    by (intro fold_preserve[where P = "\<lambda>s. fst s (dst_of a) = Some (rkey a)"]) (auto simp: s dest: in_set_takeD)
  have L1: "snd (fold table_step (take i ?RA) s) = L" for i
    using route_adds_mem route_op_rules
    by (intro fold_preserve[where P = "\<lambda>s. snd s = L"]) (fastforce simp: s dest: in_set_takeD)+
  have mid: "served x t" if "fst t = T ++ tab (rc_D x)" for t
  proof (rule servedI)
    fix l assume l: "l \<in> set (rc_AR x @ rc_DR x)" "pr_Table (ml_Rule l) \<noteq> []"
    have "\<exists>m \<in> set (rc_A x @ rc_D x). rt_Table (mr_Route m) = pr_Table (ml_Rule l)"
      using l bA bD by (auto simp: rules_backed_def list_all_iff list_ex_iff)
    then obtain m where m: "m \<in> set (rc_A x @ rc_D x)" "rt_Table (mr_Route m) = pr_Table (ml_Rule l)" by blast
    have "fst t (dst_of m) = Some (rkey m)"
      using m l(2) Dhas keep1[of m "length ?RA"] R1 that by auto
    with m show "\<exists>m \<in> set (rc_A x @ rc_D x). rt_Table (mr_Route m) = pr_Table (ml_Rule l) \<and> fst t (dst_of m) = Some (rkey m)" by blast
  qed
  have rule_ops: "fst (fold table_step ops t) = fst t" if "set ops \<subseteq> set (?LA @ ?LD)" for ops t
    using that rule_op_routes
    by (intro fold_preserve[where P = "\<lambda>s. fst s = fst t"]) (auto simp: rule_adds_def rule_dels_def)
  let ?i = "length ?RA" and ?j = "length (?LA @ ?LD)"
  consider "n \<le> ?i" | "n > ?i" "n - ?i \<le> ?j" | "n - ?i > ?j" by linarith
  then show ?thesis
  proof cases
    case 1
    then have e: "take n (?RA @ ?LA @ ?LD @ ?RD) = take n ?RA" by simp
    show ?thesis unfolding reconcile_ops_eq[OF wk] e
    proof (rule servedI)
      fix l assume l: "l \<in> set (rc_AR x @ rc_DR x)" "lkey l \<in> snd (fold table_step (take n ?RA) s)" "pr_Table (ml_Rule l) \<noteq> []"
      then have "lkey l \<in> set (rule_keys (rc_AR x))" using cs(3,4) L1[of n] by auto
      then obtain k where k: "k \<in> set (rc_AR x)" "lkey l = lkey k" by auto
      have fk: "rule_bar_free (ml_Rule k)" using f[of k] k(1) by simp
      from bA k f[OF l(1)] fk l(3) obtain m where m: "m \<in> set (rc_A x)" "rt_Table (mr_Route m) = pr_Table (ml_Rule l)"
        by (rule backed_by)
      then show "\<exists>m \<in> set (rc_A x @ rc_D x). rt_Table (mr_Route m) = pr_Table (ml_Rule l)
          \<and> fst (fold table_step (take n ?RA) s) (dst_of m) = Some (rkey m)"
        using keep1[of m n] l(3) by auto
    qed
  next
    case 2
    then have e: "take n (?RA @ ?LA @ ?LD @ ?RD) = ?RA @ take (n - ?i) (?LA @ ?LD)"
      by (simp flip: append_assoc)
    have "fst (fold table_step (take (n - ?i) (?LA @ ?LD)) (T ++ tab (rc_D x), L)) = T ++ tab (rc_D x)"
      using rule_ops[OF set_take_subset, of "n - ?i" "(T ++ tab (rc_D x), L)"] by simp
    then show ?thesis unfolding reconcile_ops_eq[OF wk] e using mid by (simp add: R1)
  next
    case 3
    have e: "take n (?RA @ ?LA @ ?LD @ ?RD) = (?RA @ ?LA @ ?LD) @ take (n - ?i - ?j) ?RD"
      using 3 by (simp add: diff_diff_eq add.commute add.left_commute)
    let ?t = "fold table_step (?RA @ ?LA @ ?LD) s"
    have ft: "fst ?t = T ++ tab (rc_D x)" using rule_ops[of "?LA @ ?LD" "(T ++ tab (rc_D x), L)"] by (simp add: R1)
    have rd: "snd (fold table_step ops u) = snd u" if "set ops \<subseteq> set ?RD" for ops u
      using that route_op_rules by (intro fold_preserve[where P = "\<lambda>s. snd s = snd u"]) (auto simp: route_dels_def)
    have "fold table_step ?RD ?t = settled x s"
      using reconcile_runs[OF wk c, of pf] unfolding reconcile_ops_eq[OF wk] by simp
    then have st: "snd ?t = L - set (rule_keys (rc_AR x)) \<union> set (rule_keys (rc_DR x))"
      using rd[of ?RD ?t] by (simp add: settled_def s)
    have keepD: "fst (fold table_step (take i ?RD) ?t) (dst_of m) = Some (rkey m)" if "m \<in> set (rc_D x)" for m i
    proof (rule fold_preserve[where P = "\<lambda>s. fst s (dst_of m) = Some (rkey m)"])
      fix op and u :: table_state assume "op \<in> set (take i ?RD)" "fst u (dst_of m) = Some (rkey m)"
      then show "fst (table_step op u) (dst_of m) = Some (rkey m)"
        using that by (cases u) (auto simp: route_dels_def op_simps dest!: in_set_takeD, metis image_eqI)
    qed (use ft Dhas[OF that] in simp)
    have e2: "fold table_step (take n (?RA @ ?LA @ ?LD @ ?RD)) s = fold table_step (take (n - ?i - ?j) ?RD) ?t"
      unfolding e by (simp only: fold_append o_apply)
    show ?thesis unfolding reconcile_ops_eq[OF wk] e2
    proof (rule servedI)
      fix l assume l: "l \<in> set (rc_AR x @ rc_DR x)" "lkey l \<in> snd (fold table_step (take (n - ?i - ?j) ?RD) ?t)"
        "pr_Table (ml_Rule l) \<noteq> []"
      then have "lkey l \<in> set (rule_keys (rc_DR x))"
        using rd[OF set_take_subset, of "n - ?i - ?j" ?t] st by auto
      then obtain k where k: "k \<in> set (rc_DR x)" "lkey l = lkey k" by auto
      have fk: "rule_bar_free (ml_Rule k)" using f[of k] k(1) by simp
      from bD k f[OF l(1)] fk l(3) obtain m where m: "m \<in> set (rc_D x)" "rt_Table (mr_Route m) = pr_Table (ml_Rule l)"
        by (rule backed_by)
      then show "\<exists>m \<in> set (rc_A x @ rc_D x). rt_Table (mr_Route m) = pr_Table (ml_Rule l)
          \<and> fst (fold table_step (take (n - ?i - ?j) ?RD) ?t) (dst_of m) = Some (rkey m)"
        using keepD by auto
    qed
  qed
qed

section \<open>A small plan\<close>

definition demo_default :: "string \<Rightarrow> managed_route" where
  "demo_default gw = \<lparr>mr_Route = route0\<lparr>rt_DstCIDR := ''0.0.0.0/0'', rt_Gateway := gw, rt_Iface := ''tun0'', rt_Family := FamilyV4,
     rt_Table := ModelBTable\<rparr>, mr_ProfileID = modelBProfileTag, mr_CreatedAt = 0\<rparr>"

definition demo_rule :: managed_rule where
  "demo_rule = \<lparr>ml_Rule = policy_rule0\<lparr>pr_Priority := ModelBRulePrio, pr_Selector := ''to 10.0.0.0/8'', pr_Table := ModelBTable,
     pr_Family := FamilyV4\<rparr>, ml_ProfileID = ''work'', ml_CreatedAt = 0\<rparr>"

definition demo_recon :: "managed_route list \<Rightarrow> recon" where
  "demo_recon actual = \<lparr>rc_D = [demo_default ''10.8.0.1''], rc_A = actual, rc_DR = [demo_rule],
     rc_AR = (if actual = [] then [] else [demo_rule])\<rparr>"

definition demo_state :: "managed_route list \<Rightarrow> table_state" where
  "demo_state actual = (tab actual, if actual = [] then {} else {lkey demo_rule})"

lemma demo_recon_ok:
  "well_keyed (demo_recon [])" "consistent (demo_recon []) (demo_state [])"
  "well_keyed (demo_recon [demo_default ''10.8.0.2''])"
  "consistent (demo_recon [demo_default ''10.8.0.2'']) (demo_state [demo_default ''10.8.0.2''])"
  by code_simp+

section \<open>Properties\<close>






end
