(* ===== verification/Verify.thy ===== *)
theory Verify
  imports Plans "HOL-Library.AList"
begin

text \<open>
  Owned routes against the kernel's table: \<^verbatim>\<open>IndexInstalled\<close>, \<^verbatim>\<open>Has\<close>, \<^verbatim>\<open>Outranked\<close> and
  \<^verbatim>\<open>VerifyRoutes\<close> (\<^verbatim>\<open>internal/routing/tunnels.go\<close>), and the live repair that puts a lost route
  back, or holds one that another program keeps removing (\<^verbatim>\<open>internal/safety/live.go\<close>).
\<close>

section \<open>Which routes the kernel holds\<close>

record installed_index =
  ix_routes :: "string set"
  ix_lowest :: "string \<rightharpoonup> int"

definition index_step :: "installed_index \<Rightarrow> route \<Rightarrow> installed_index" where
  "index_step ix k =
     (if rt_Cloned k then ix
      else let dst = maskedDstKey k;
               ix = (if rt_Scoped k then ix
                     else if (case ix_lowest ix dst of None \<Rightarrow> True | Some m \<Rightarrow> rt_Metric k < m)
                       then ix\<lparr>ix_lowest := (ix_lowest ix)(dst \<mapsto> rt_Metric k)\<rparr> else ix)
           in if rt_Reject k then ix\<lparr>ix_routes := insert (dst @ ''|reject'') (ix_routes ix)\<rparr>
              else let rs = insert (dst @ ''|dev '' @ rt_Iface k) (ix_routes ix)
                in ix\<lparr>ix_routes := (if rt_Gateway k \<noteq> [] then insert (dst @ ''|via '' @ gatewayKey (rt_Gateway k)) rs else rs)\<rparr>)"

definition IndexInstalled :: "route list \<Rightarrow> installed_index" where
  "IndexInstalled ks = foldl index_step \<lparr>ix_routes = {}, ix_lowest = Map.empty\<rparr> ks"

definition Has :: "installed_index \<Rightarrow> route \<Rightarrow> bool" where
  "Has ix r =
     (if rt_Reject r then maskedDstKey r @ ''|reject'' \<in> ix_routes ix
      else if rt_Gateway r \<noteq> [] then maskedDstKey r @ ''|via '' @ gatewayKey (rt_Gateway r) \<in> ix_routes ix
      else maskedDstKey r @ ''|dev '' @ rt_Iface r \<in> ix_routes ix)"

definition effectiveMetric :: "route \<Rightarrow> int" where
  "effectiveMetric r = (if rt_Metric r > 0 then rt_Metric r else if rt_Family r = FamilyV6 then 1024 else 0)"

definition Outranked :: "installed_index \<Rightarrow> route \<Rightarrow> bool" where
  "Outranked ix r = (case ix_lowest ix (maskedDstKey r) of None \<Rightarrow> False | Some lowest \<Rightarrow> lowest \<le> effectiveMetric r)"

definition IsTunnelRoute :: "managed_route \<Rightarrow> bool" where
  "IsTunnelRoute r \<longleftrightarrow> has_prefix (mr_ProfileID r) TunnelProfilePrefix"

section \<open>Verifying owned routes against the kernel\<close>

record verified =
  vf_Kept :: "managed_route list"
  vf_Missing :: "managed_route list"
  vf_Taken :: "managed_route list"

text \<open>
  The tables read so far, by family: \<open>Some None\<close> after a failed read. \<open>read\<close> returns one family's
  table, \<open>None\<close> for an error; \<open>only\<close> is the filter, \<open>\<lambda>_. True\<close> for the nil function.
\<close>

type_synonym read_cache = "family \<rightharpoonup> installed_index option"

definition read_family :: "(family \<Rightarrow> route list option) \<Rightarrow> read_cache \<Rightarrow> family \<Rightarrow> read_cache \<times> installed_index option" where
  "read_family read cache fam =
     (case cache fam of
        Some ix \<Rightarrow> (cache, ix)
      | None \<Rightarrow> let ix = map_option IndexInstalled (read fam) in (cache(fam \<mapsto> ix), ix))"

definition verify_step :: "(string \<Rightarrow> bool) \<Rightarrow> (family \<Rightarrow> route list option) \<Rightarrow> string set \<Rightarrow> (managed_route \<Rightarrow> bool)
    \<Rightarrow> read_cache \<times> verified \<Rightarrow> managed_route \<Rightarrow> read_cache \<times> verified" where
  "verify_step wanted read held only = (\<lambda>(cache, v) r.
     let (cache, ix) =
           (if wanted (RouteKey (mr_Route r)) \<and> only r then read_family read cache (rt_Family (mr_Route r)) else (cache, None))
     in case ix of
          None \<Rightarrow> (cache, v\<lparr>vf_Kept := vf_Kept v @ [r]\<rparr>)
        | Some i \<Rightarrow>
            if Has i (mr_Route r) then (cache, v\<lparr>vf_Kept := vf_Kept v @ [r]\<rparr>)
            else if Outranked i (mr_Route r) then (cache, v\<lparr>vf_Kept := vf_Kept v @ [r], vf_Taken := vf_Taken v @ [r]\<rparr>)
            else if RouteKey (mr_Route r) \<in> held \<and> \<not> IsTunnelRoute r then (cache, v\<lparr>vf_Kept := vf_Kept v @ [r]\<rparr>)
            else (cache, v\<lparr>vf_Missing := vf_Missing v @ [r]\<rparr>))"

definition VerifyRoutes :: "managed_route list \<Rightarrow> managed_route list \<Rightarrow> (family \<Rightarrow> route list option) \<Rightarrow> string set
    \<Rightarrow> (managed_route \<Rightarrow> bool) \<Rightarrow> verified" where
  "VerifyRoutes owned desired read held only =
     snd (foldl (verify_step (\<lambda>k. indexRoutes desired k \<noteq> None) read held only)
       (Map.empty, \<lparr>vf_Kept = [], vf_Missing = [], vf_Taken = []\<rparr>) owned)"

section \<open>Live repair\<close>

text \<open>Times and durations are in nanoseconds; \<open>None\<close> is the zero time, before every reading of the clock.\<close>

abbreviation second :: int where "second \<equiv> 1000000000"
abbreviation liveStrikes :: nat where "liveStrikes \<equiv> 3"
abbreviation liveWindow :: int where "liveWindow \<equiv> 600 * second"
abbreviation liveHold :: int where "liveHold \<equiv> 1800 * second"
abbreviation liveGap :: int where "liveGap \<equiv> 20 * second"

record live_record =
  lr_route :: route
  lr_seen :: "time list"
  lr_heldUntil :: "time option"

type_synonym live_repair = "(string \<times> live_record) list"

definition held_at :: "time \<Rightarrow> live_record \<Rightarrow> bool" where
  "held_at now r = (case lr_heldUntil r of None \<Rightarrow> False | Some t \<Rightarrow> now < t)"

definition hold_over :: "time \<Rightarrow> live_record \<Rightarrow> bool" where
  "hold_over now r = (case lr_heldUntil r of None \<Rightarrow> True | Some t \<Rightarrow> t < now)"

definition live_held :: "live_repair \<Rightarrow> time \<Rightarrow> string set" where
  "live_held l now = set (map fst (filter (\<lambda>(k, r). held_at now r) l))"

definition forgotten :: "time \<Rightarrow> live_record \<Rightarrow> bool" where
  "forgotten now r \<longleftrightarrow> hold_over now r \<and> (lr_seen r = [] \<or> now - last (lr_seen r) > liveWindow)"

definition note_one :: "time \<Rightarrow> live_repair \<times> route list \<Rightarrow> managed_route \<Rightarrow> live_repair \<times> route list" where
  "note_one now = (\<lambda>(l, newlyHeld) m.
     let k = RouteKey (mr_Route m);
         r = (case map_of l k of Some r \<Rightarrow> r | None \<Rightarrow> \<lparr>lr_route = mr_Route m, lr_seen = [], lr_heldUntil = None\<rparr>)
     in if lr_seen r \<noteq> [] \<and> now - last (lr_seen r) < liveGap then (AList.update k r l, newlyHeld)
        else let seen = filter (\<lambda>t. now - t \<le> liveWindow) (lr_seen r) @ [now]
          in if length seen \<ge> liveStrikes
             then (AList.update k (r\<lparr>lr_seen := [], lr_heldUntil := Some (now + liveHold)\<rparr>) l, newlyHeld @ [lr_route r])
             else (AList.update k (r\<lparr>lr_seen := seen\<rparr>) l, newlyHeld))"

definition live_note :: "live_repair \<Rightarrow> managed_route list \<Rightarrow> time \<Rightarrow> live_repair \<times> route list" where
  "live_note l missing now = foldl (note_one now) (filter (\<lambda>(k, r). \<not> forgotten now r) l, []) missing"

record held_route =
  hr_Route :: route
  hr_Until :: time

definition live_list :: "live_repair \<Rightarrow> time \<Rightarrow> held_route list" where
  "live_list l now = sort_key (\<lambda>h. RouteKey (hr_Route h))
     (List.map_filter (\<lambda>(k, r). case lr_heldUntil r of Some t \<Rightarrow> if now < t then Some \<lparr>hr_Route = lr_route r, hr_Until = t\<rparr> else None | None \<Rightarrow> None) l)"

definition installed :: "live_repair \<Rightarrow> (family \<Rightarrow> route list option) \<Rightarrow> time \<Rightarrow> managed_route list \<Rightarrow> managed_route list
    \<Rightarrow> bool \<Rightarrow> bool \<Rightarrow> managed_route list \<times> live_repair" where
  "installed l read now owned desired note_missing tunnelsOnly =
     (let v = VerifyRoutes owned desired read (live_held l now) (if tunnelsOnly then IsTunnelRoute else (\<lambda>_. True))
      in (vf_Kept v,
          if note_missing \<and> vf_Missing v \<noteq> [] then fst (live_note l (filter (\<lambda>m. \<not> IsTunnelRoute m) (vf_Missing v)) now) else l))"

section \<open>Facts\<close>

definition absent :: "installed_index \<Rightarrow> route \<Rightarrow> bool" where
  "absent ix r \<longleftrightarrow> \<not> Has ix r \<and> \<not> Outranked ix r"

definition checked :: "managed_route list \<Rightarrow> (managed_route \<Rightarrow> bool) \<Rightarrow> managed_route \<Rightarrow> bool" where
  "checked desired only r \<longleftrightarrow> RouteKey (mr_Route r) \<in> set (route_keys desired) \<and> only r"

definition lost :: "managed_route list \<Rightarrow> (family \<Rightarrow> route list option) \<Rightarrow> string set \<Rightarrow> (managed_route \<Rightarrow> bool) \<Rightarrow> managed_route \<Rightarrow> bool" where
  "lost desired read held only r \<longleftrightarrow> checked desired only r
     \<and> (case read (rt_Family (mr_Route r)) of None \<Rightarrow> False | Some ks \<Rightarrow> absent (IndexInstalled ks) (mr_Route r))
     \<and> (RouteKey (mr_Route r) \<in> held \<longrightarrow> IsTunnelRoute r)"

definition displaced :: "managed_route list \<Rightarrow> (family \<Rightarrow> route list option) \<Rightarrow> (managed_route \<Rightarrow> bool) \<Rightarrow> managed_route \<Rightarrow> bool" where
  "displaced desired read only r \<longleftrightarrow> checked desired only r
     \<and> (case read (rt_Family (mr_Route r)) of None \<Rightarrow> False
        | Some ks \<Rightarrow> \<not> Has (IndexInstalled ks) (mr_Route r) \<and> Outranked (IndexInstalled ks) (mr_Route r))"

definition cache_ok :: "(family \<Rightarrow> route list option) \<Rightarrow> read_cache \<Rightarrow> bool" where
  "cache_ok read cache \<longleftrightarrow> (\<forall>fam ix. cache fam = Some ix \<longrightarrow> ix = map_option IndexInstalled (read fam))"

lemma read_family_ok:
  assumes "cache_ok read cache"
  shows "cache_ok read (fst (read_family read cache fam))" "snd (read_family read cache fam) = map_option IndexInstalled (read fam)"
  using assms by (auto simp: cache_ok_def read_family_def Let_def split: option.splits)

lemma index_wanted: "indexRoutes rs k \<noteq> None \<longleftrightarrow> k \<in> set (route_keys rs)"
  by (auto simp: indexRoutes_def map_of_eq_None_iff image_iff)

lemma verify_step_spec:
  assumes "cache_ok read cache" and w: "\<And>k. w k \<longleftrightarrow> k \<in> set (route_keys desired)"
  shows "cache_ok read (fst (verify_step w read held only (cache, v) r))
    \<and> snd (verify_step w read held only (cache, v) r) =
      \<lparr>vf_Kept = vf_Kept v @ filter (\<lambda>r. \<not> lost desired read held only r) [r],
       vf_Missing = vf_Missing v @ filter (lost desired read held only) [r],
       vf_Taken = vf_Taken v @ filter (displaced desired read only) [r]\<rparr>"
proof (cases "checked desired only r")
  case False
  then show ?thesis using assms(1) by (auto simp: verify_step_def w lost_def displaced_def checked_def simp del: set_map)
next
  case True
  obtain c ix where c: "read_family read cache (rt_Family (mr_Route r)) = (c, ix)" by force
  note k = read_family_ok[OF assms(1), of "rt_Family (mr_Route r)", unfolded c]
  have s: "verify_step w read held only (cache, v) r =
      (case ix of None \<Rightarrow> (c, v\<lparr>vf_Kept := vf_Kept v @ [r]\<rparr>)
        | Some i \<Rightarrow>
            if Has i (mr_Route r) then (c, v\<lparr>vf_Kept := vf_Kept v @ [r]\<rparr>)
            else if Outranked i (mr_Route r) then (c, v\<lparr>vf_Kept := vf_Kept v @ [r], vf_Taken := vf_Taken v @ [r]\<rparr>)
            else if RouteKey (mr_Route r) \<in> held \<and> \<not> IsTunnelRoute r then (c, v\<lparr>vf_Kept := vf_Kept v @ [r]\<rparr>)
            else (c, v\<lparr>vf_Missing := vf_Missing v @ [r]\<rparr>))"
    using True c by (simp add: verify_step_def w checked_def del: set_map)
  show ?thesis unfolding s using True k
    by (cases "read (rt_Family (mr_Route r))") (auto simp: lost_def displaced_def absent_def)
qed

lemma VerifyRoutes_eq:
  "VerifyRoutes owned desired read held only =
     \<lparr>vf_Kept = filter (\<lambda>r. \<not> lost desired read held only r) owned, vf_Missing = filter (lost desired read held only) owned,
      vf_Taken = filter (displaced desired read only) owned\<rparr>"
proof -
  define w where "w = (\<lambda>k. indexRoutes desired k \<noteq> None)"
  have w: "w k \<longleftrightarrow> k \<in> set (route_keys desired)" for k unfolding w_def by (rule index_wanted)
  have "snd (foldl (verify_step w read held only) (cache, v) owned) =
      \<lparr>vf_Kept = vf_Kept v @ filter (\<lambda>r. \<not> lost desired read held only r) owned,
       vf_Missing = vf_Missing v @ filter (lost desired read held only) owned,
       vf_Taken = vf_Taken v @ filter (displaced desired read only) owned\<rparr>" if "cache_ok read cache" for cache v
    using that
  proof (induction owned arbitrary: cache v)
    case (Cons r rs)
    obtain c' v' where e: "verify_step w read held only (cache, v) r = (c', v')" by force
    from verify_step_spec[OF Cons.prems w, of held only v r, unfolded e] Cons.IH[of c' v'] show ?case
      by (simp add: e)
  qed simp
  moreover have "cache_ok read Map.empty" by (simp add: cache_ok_def)
  ultimately show ?thesis unfolding VerifyRoutes_def w_def[symmetric] by simp
qed

text \<open>The index of a kernel table, entry by entry.\<close>

definition marks :: "route \<Rightarrow> string set" where
  "marks k = (if rt_Cloned k then {}
     else if rt_Reject k then {maskedDstKey k @ ''|reject''}
     else insert (maskedDstKey k @ ''|dev '' @ rt_Iface k)
       (if rt_Gateway k \<noteq> [] then {maskedDstKey k @ ''|via '' @ gatewayKey (rt_Gateway k)} else {}))"

lemma index_routes: "ix_routes (IndexInstalled ks) = (\<Union>k \<in> set ks. marks k)"
proof -
  have "ix_routes (foldl index_step ix ks) = ix_routes ix \<union> (\<Union>k \<in> set ks. marks k)" for ix
    by (induction ks arbitrary: ix) (auto simp: index_step_def marks_def Let_def)
  then show ?thesis by (simp add: IndexInstalled_def)
qed

lemma index_lowest:
  "ix_lowest (IndexInstalled ks) d =
     (let ms = map rt_Metric (filter (\<lambda>k. \<not> rt_Cloned k \<and> \<not> rt_Scoped k \<and> maskedDstKey k = d) ks)
      in if ms = [] then None else Some (Min (set ms)))"
proof (induction ks rule: rev_induct)
  case Nil
  then show ?case by (simp add: IndexInstalled_def)
next
  case (snoc k ks)
  let ?P = "\<lambda>k. \<not> rt_Cloned k \<and> \<not> rt_Scoped k \<and> maskedDstKey k = d"
  define ms where "ms = map rt_Metric (filter ?P ks)"
  have e: "IndexInstalled (ks @ [k]) = index_step (IndexInstalled ks) k" by (simp add: IndexInstalled_def)
  have IH: "ix_lowest (IndexInstalled ks) d = (if ms = [] then None else Some (Min (set ms)))"
    using snoc unfolding ms_def Let_def .
  show ?case
  proof (cases "?P k")
    case False
    then have "map rt_Metric (filter ?P (ks @ [k])) = ms" "ix_lowest (index_step (IndexInstalled ks) k) d = ix_lowest (IndexInstalled ks) d"
      by (auto simp: index_step_def ms_def Let_def)
    then show ?thesis using IH e by simp
  next
    case True
    then have "map rt_Metric (filter ?P (ks @ [k])) = ms @ [rt_Metric k]" by (simp add: ms_def)
    moreover have "ix_lowest (index_step (IndexInstalled ks) k) d =
        Some (case ix_lowest (IndexInstalled ks) d of None \<Rightarrow> rt_Metric k | Some m \<Rightarrow> min m (rt_Metric k))"
      using True by (auto simp: index_step_def Let_def split: option.splits)
    ultimately show ?thesis using IH e by (simp add: min.commute)
  qed
qed

subsection \<open>When a route is held\<close>

definition spaced :: "time list \<Rightarrow> bool" where
  "spaced ts \<longleftrightarrow> sorted_wrt (\<lambda>a b. b - a \<ge> liveGap) ts"

definition live_inv :: "live_repair \<Rightarrow> bool" where
  "live_inv l \<longleftrightarrow> distinct (map fst l)
     \<and> list_all (\<lambda>(k, r). RouteKey (lr_route r) = k \<and> length (lr_seen r) < liveStrikes \<and> spaced (lr_seen r)) l"

lemma live_inv_Nil: "live_inv []"
  by (simp add: live_inv_def)

lemma live_inv_filter: "live_inv l \<Longrightarrow> live_inv (filter P l)"
  by (auto simp: live_inv_def list_all_iff distinct_map_filter)

lemma live_inv_lookup:
  "live_inv l \<Longrightarrow> map_of l k = Some r \<Longrightarrow> RouteKey (lr_route r) = k \<and> length (lr_seen r) < liveStrikes \<and> spaced (lr_seen r)"
  by (auto simp: live_inv_def list_all_iff dest: map_of_SomeD)

lemma set_update_subset: "set (AList.update k v al) \<subseteq> insert (k, v) (set al)"
  by (induction al) auto

lemma live_inv_update:
  assumes "live_inv l" "RouteKey (lr_route r) = k" "length (lr_seen r) < liveStrikes" "spaced (lr_seen r)"
  shows "live_inv (AList.update k r l)"
  using assms set_update_subset[of k r l] unfolding live_inv_def
  by (auto simp: list_all_iff distinct_update)

lemma spaced_snoc:
  assumes "spaced ts" "ts = [] \<or> now - last ts \<ge> liveGap"
  shows "spaced (ts @ [now])"
proof (cases ts rule: rev_cases)
  case (snoc us u)
  then have "now - u \<ge> liveGap" "\<forall>t \<in> set us. u - t \<ge> liveGap" using assms by (auto simp: spaced_def sorted_wrt_append)
  then have "\<forall>t \<in> set ts. now - t \<ge> liveGap" using snoc by fastforce
  then show ?thesis using assms(1) by (simp add: spaced_def sorted_wrt_append)
qed (simp add: spaced_def)

lemma spaced_recent:
  assumes "spaced ts" "ts = [] \<or> now - last ts \<ge> liveGap"
  shows "spaced (filter P ts @ [now])"
proof -
  have "spaced (ts @ [now])" by (rule spaced_snoc[OF assms])
  then have "\<forall>t \<in> set ts. now - t \<ge> liveGap" "spaced (filter P ts)"
    using assms(1) by (auto simp: spaced_def sorted_wrt_append sorted_wrt_filter)
  then show ?thesis by (auto simp: spaced_def sorted_wrt_append)
qed

text \<open>The sightings of a route a hold is based on, besides the one at \<open>now\<close>.\<close>

definition struck :: "live_repair \<Rightarrow> time \<Rightarrow> route \<Rightarrow> bool" where
  "struck l now h \<longleftrightarrow> (\<exists>r t1 t2. (RouteKey h, r) \<in> set l \<and> t1 \<in> set (lr_seen r) \<and> t2 \<in> set (lr_seen r)
     \<and> t2 - t1 \<ge> liveGap \<and> now - t2 \<ge> liveGap \<and> now - t1 \<le> liveWindow)"

lemma note_one_spec:
  assumes "live_inv l" "note_one now (l, hs) m = (l', hs')"
  shows "live_inv l'" "\<forall>h \<in> set hs'. h \<in> set hs \<or> struck l now h"
    "\<And>k r. (k, r) \<in> set l' \<Longrightarrow> (k, r) \<in> set l \<or> lr_seen r = [] \<or> last (lr_seen r) = now"
proof -
  let ?k = "RouteKey (mr_Route m)"
  define r where "r = (case map_of l ?k of Some r \<Rightarrow> r | None \<Rightarrow> \<lparr>lr_route = mr_Route m, lr_seen = [], lr_heldUntil = None\<rparr>)"
  have r: "RouteKey (lr_route r) = ?k" "length (lr_seen r) < liveStrikes" "spaced (lr_seen r)"
    using live_inv_lookup[OF assms(1)] by (auto simp: r_def spaced_def split: option.splits)
  have rin: "lr_seen r \<noteq> [] \<Longrightarrow> (?k, r) \<in> set l" by (auto simp: r_def map_of_SomeD split: option.splits)
  let ?near = "lr_seen r \<noteq> [] \<and> now - last (lr_seen r) < liveGap"
  let ?seen = "filter (\<lambda>t. now - t \<le> liveWindow) (lr_seen r) @ [now]"
  have e: "note_one now (l, hs) m =
      (if ?near then (AList.update ?k r l, hs)
       else if length ?seen \<ge> liveStrikes
         then (AList.update ?k (r\<lparr>lr_seen := [], lr_heldUntil := Some (now + liveHold)\<rparr>) l, hs @ [lr_route r])
         else (AList.update ?k (r\<lparr>lr_seen := ?seen\<rparr>) l, hs))"
    by (simp add: note_one_def r_def Let_def)
  have sp: "\<not> ?near \<Longrightarrow> spaced ?seen" using spaced_recent[OF r(3), of now] by auto
  have inv: "\<And>r'. lr_route r' = lr_route r \<Longrightarrow> length (lr_seen r') < liveStrikes \<Longrightarrow> spaced (lr_seen r') \<Longrightarrow> live_inv (AList.update ?k r' l)"
    using r(1) by (intro live_inv_update[OF assms(1)]) simp_all
  show "live_inv l'"
    using assms(2) inv[of r] inv[of "r\<lparr>lr_seen := [], lr_heldUntil := Some (now + liveHold)\<rparr>"] inv[of "r\<lparr>lr_seen := ?seen\<rparr>"] r sp
    unfolding e by (auto simp: spaced_def split: if_splits)
  have "struck l now (lr_route r)" if n: "\<not> ?near" "length ?seen \<ge> liveStrikes"
  proof -
    let ?f = "filter (\<lambda>t. now - t \<le> liveWindow) (lr_seen r)"
    from n(2) obtain t1 t2 us where f: "?f = t1 # t2 # us"
      by (cases ?f rule: remdups_adj.cases) auto
    have "t2 - t1 \<ge> liveGap" "now - t2 \<ge> liveGap" using sp[OF n(1)] unfolding f by (auto simp: spaced_def)
    moreover have "t1 \<in> set ?f" "t2 \<in> set ?f" unfolding f by auto
    moreover have "(?k, r) \<in> set l" using rin \<open>t1 \<in> set ?f\<close> by (cases "lr_seen r = []") auto
    ultimately show ?thesis unfolding struck_def r(1) by auto
  qed
  then show "\<forall>h \<in> set hs'. h \<in> set hs \<or> struck l now h"
    using assms(2) unfolding e by (auto split: if_splits)
  show "(k, x) \<in> set l \<or> lr_seen x = [] \<or> last (lr_seen x) = now" if "(k, x) \<in> set l'" for k x
  proof -
    have u: "(k, x) \<in> set l \<or> (k, x) = (?k, v)" if "(k, x) \<in> set (AList.update ?k v l)" for v
      using subsetD[OF set_update_subset that] by auto
    consider "?near" | "\<not> ?near" "length ?seen \<ge> liveStrikes" | "\<not> ?near" "length ?seen < liveStrikes" by linarith
    then show ?thesis
    proof cases
      case 1
      then have "l' = AList.update ?k r l" using assms(2) unfolding e by simp
      then show ?thesis using u[of r] that rin 1 by auto
    next
      case 2
      then have "l' = AList.update ?k (r\<lparr>lr_seen := [], lr_heldUntil := Some (now + liveHold)\<rparr>) l"
        using assms(2) unfolding e by (auto split: if_splits)
      then show ?thesis using u that by fastforce
    next
      case 3
      then have "l' = AList.update ?k (r\<lparr>lr_seen := ?seen\<rparr>) l" using assms(2) unfolding e by auto
      then show ?thesis using u that by fastforce
    qed
  qed
qed

lemma struck_mono:
  assumes "struck l' now h" "\<And>k r. (k, r) \<in> set l' \<Longrightarrow> (k, r) \<in> set l \<or> lr_seen r = [] \<or> last (lr_seen r) = now" "live_inv l'"
  shows "struck l now h"
proof -
  from assms(1) obtain r t1 t2 where r: "(RouteKey h, r) \<in> set l'" "t1 \<in> set (lr_seen r)" "t2 \<in> set (lr_seen r)"
    "t2 - t1 \<ge> liveGap" "now - t2 \<ge> liveGap" "now - t1 \<le> liveWindow" unfolding struck_def by blast
  have "length (lr_seen r) < 3" using assms(3) r(1) by (auto simp: live_inv_def list_all_iff)
  then have "last (lr_seen r) \<noteq> now" using r(2-5)
    by (cases "lr_seen r" rule: remdups_adj.cases) auto
  then have "(RouteKey h, r) \<in> set l" using assms(2)[OF r(1)] r(2) by auto
  then show ?thesis unfolding struck_def using r by blast
qed

lemma live_note_spec:
  assumes "live_inv l" "live_note l missing now = (l', hs)"
  shows "live_inv l' \<and> (\<forall>h \<in> set hs. struck l now h)"
proof -
  let ?l = "filter (\<lambda>(k, r). \<not> forgotten now r) l"
  define Q where "Q = (\<lambda>(a, hs). live_inv a \<and> (\<forall>h \<in> set hs. struck l now h)
     \<and> (\<forall>k r. (k, r) \<in> set a \<longrightarrow> (k, r) \<in> set l \<or> lr_seen r = [] \<or> last (lr_seen r) = now))"
  have "Q (note_one now s m)" if "Q s" for s m
  proof -
    obtain a hs where s: "s = (a, hs)" by (cases s)
    obtain a' hs' where n: "note_one now (a, hs) m = (a', hs')" by force
    have q: "live_inv a" "\<forall>h \<in> set hs. struck l now h"
      "\<And>k r. (k, r) \<in> set a \<Longrightarrow> (k, r) \<in> set l \<or> lr_seen r = [] \<or> last (lr_seen r) = now" using that by (auto simp: Q_def s)
    note o1 = note_one_spec[OF q(1) n]
    have st: "struck l now h" if "struck a now h" for h by (rule struck_mono[OF that q(3) q(1)])
    have "\<forall>h \<in> set hs'. struck l now h" using o1(2) st q(2) by blast
    moreover have "(k, r) \<in> set l \<or> lr_seen r = [] \<or> last (lr_seen r) = now" if "(k, r) \<in> set a'" for k r
      using o1(3)[OF that] q(3)[of k r] by blast
    ultimately show ?thesis unfolding s n Q_def prod.case using o1(1) by simp
  qed
  moreover have "Q (?l, [])" using live_inv_filter[OF assms(1)] by (auto simp: Q_def)
  ultimately have "Q (foldl (note_one now) (?l, []) missing)" by (rule fold_all)
  then show ?thesis using assms(2) by (simp add: live_note_def Q_def)
qed

subsection \<open>Putting routes back\<close>

lemma fold_adds_fresh:
  assumes "d \<in> set ds" "ar (RouteKey (mr_Route d)) = None"
  shows "makeRouteOp OpAddRoute d pf \<in> set (snd (foldl (route_add_step pf ar byDst) st ds))"
  using assms(1)
proof (induction ds rule: rev_induct)
  case (snoc e ds)
  let ?s = "foldl (route_add_step pf ar byDst) st ds"
  have grow: "set (snd s) \<subseteq> set (snd (replace_olds pf xs s))" for xs s
    unfolding replace_olds_def
    by (rule fold_all[where P = "\<lambda>t. set (snd s) \<subseteq> set (snd t)"]) (auto simp: Let_def split: prod.splits)
  have "set (snd ?s) \<subseteq> set (snd (route_add_step pf ar byDst ?s e))"
    using grow[of ?s "byDst (dstKey (mr_Route e))"] by (auto simp: route_add_step_def split: prod.splits)
  moreover have "makeRouteOp OpAddRoute d pf \<in> set (snd (route_add_step pf ar byDst ?s e))" if "d = e"
    using assms(2) that by (auto simp: route_add_step_def split: prod.splits)
  ultimately show ?case using snoc by auto
qed simp

lemma reconcile_adds_missing:
  assumes "d \<in> set ds" "RouteKey (mr_Route d) \<notin> set (route_keys as)"
  shows "makeRouteOp OpAddRoute d pf \<in> set (reconcile_ops ds as dls als pf)"
proof -
  let ?byDst = "\<lambda>k. filter (\<lambda>a. indexRoutes ds (RouteKey (mr_Route a)) = None \<and> dstKey (mr_Route a) = k) as"
  obtain rep adds where f: "foldl (route_add_step pf (indexRoutes as) ?byDst) ({}, []) ds = (rep, adds)" by force
  have "indexRoutes as (RouteKey (mr_Route d)) = None" using assms(2) by simp
  from fold_adds_fresh[of d ds "indexRoutes as", OF assms(1) this, of pf ?byDst "({}, [])"] have "makeRouteOp OpAddRoute d pf \<in> set adds"
    unfolding f by simp
  then show ?thesis unfolding reconcile_ops_def Let_def f prod.case by simp
qed

definition demo_live :: "int \<Rightarrow> int \<Rightarrow> live_repair" where
  "demo_live a b = [(RouteKey (mr_Route demo_route), \<lparr>lr_route = mr_Route demo_route, lr_seen = [a, b], lr_heldUntil = None\<rparr>)]"

section \<open>Properties\<close>

text \<open>
  C31.  One pass over the owned routes, with one read per family, sorts them exactly: a route is
  reported missing when it is wanted and checked, its family could be read, the kernel neither
  holds it nor leaves it no place, and it is not held (a tunnel's never is); every other route is
  kept, in order; taken are the kept ones another route displaced.
\<close>

theorem VerifyRoutes_exact:
  "VerifyRoutes owned desired read held only =
     \<lparr>vf_Kept = filter (\<lambda>r. \<not> lost desired read held only r) owned,
      vf_Missing = filter (lost desired read held only) owned,
      vf_Taken = filter (displaced desired read only) owned\<rparr>"
  by (rule VerifyRoutes_eq)





end
