(* ===== verification/Executor.thy ===== *)
theory Executor
  imports Verify
begin

text \<open>
  The seam to the kernel, \<^verbatim>\<open>RouteProvider\<close> (\<^verbatim>\<open>internal/provider/provider.go\<close>), and the executor that
  runs plans through it (\<^verbatim>\<open>internal/safety/executor.go\<close>).  A provider is a record of operations on a
  state the model leaves open; the locale \<open>route_provider\<close> states what the executor relies on and
  derives that a failed apply is undone.
\<close>

section \<open>The interface\<close>

record capabilities =
  cp_Platform :: string
  cp_PolicyRouting :: bool
  cp_Fwmark :: bool
  cp_PerAppRouting :: bool
  cp_ProtoTag :: bool
  cp_IPv6 :: bool
  cp_KillSwitch :: bool
  cp_IfaceScoping :: bool
  cp_Backend :: string

text \<open>
  The operations on a state \<open>'k\<close>.  A read returns an error or its result; a mutation returns an error
  or none, and the state it leaves in either case.
\<close>

record ('k, 'e) provider =
  pv_ListRoutes :: "family \<Rightarrow> 'k \<Rightarrow> 'e + route list"
  pv_ListRules :: "family \<Rightarrow> 'k \<Rightarrow> 'e + policy_rule list"
  pv_LookupRoute :: "addr \<Rightarrow> 'k \<Rightarrow> 'e + route_decision"
  pv_DefaultGateway :: "family \<Rightarrow> 'k \<Rightarrow> 'e + addr \<times> string"
  pv_Interfaces :: "'k \<Rightarrow> 'e + iface list"
  pv_DNSConfig :: "'k \<Rightarrow> 'e + dns_state"
  pv_AddRoute :: "managed_route \<Rightarrow> 'k \<Rightarrow> 'e option \<times> 'k"
  pv_DelRoute :: "managed_route \<Rightarrow> 'k \<Rightarrow> 'e option \<times> 'k"
  pv_AddRule :: "managed_rule \<Rightarrow> 'k \<Rightarrow> 'e option \<times> 'k"
  pv_DelRule :: "managed_rule \<Rightarrow> 'k \<Rightarrow> 'e option \<times> 'k"
  pv_FlushOwned :: "'k \<Rightarrow> 'e option \<times> 'k"
  pv_Capabilities :: "'k \<Rightarrow> capabilities"
  pv_Name :: string

section \<open>The executor\<close>

datatype 'e exec_error = MissingRoute op_kind | MissingRule op_kind | UnknownKind op_kind | ProviderError 'e
  | OpFailed string nat "'e exec_error"

definition lift_error :: "'e option \<times> 'k \<Rightarrow> 'e exec_error option \<times> 'k" where
  "lift_error = map_prod (map_option ProviderError) id"

definition exec_do :: "('k, 'e) provider \<Rightarrow> plan_op \<Rightarrow> 'k \<Rightarrow> 'e exec_error option \<times> 'k" where
  "exec_do P op k =
     (case po_Kind op of
        OpAddRoute \<Rightarrow> (case po_Route op of None \<Rightarrow> (Some (MissingRoute OpAddRoute), k) | Some r \<Rightarrow> lift_error (pv_AddRoute P r k))
      | OpDelRoute \<Rightarrow> (case po_Route op of None \<Rightarrow> (Some (MissingRoute OpDelRoute), k) | Some r \<Rightarrow> lift_error (pv_DelRoute P r k))
      | OpAddRule \<Rightarrow> (case po_Rule op of None \<Rightarrow> (Some (MissingRule OpAddRule), k) | Some r \<Rightarrow> lift_error (pv_AddRule P r k))
      | OpDelRule \<Rightarrow> (case po_Rule op of None \<Rightarrow> (Some (MissingRule OpDelRule), k) | Some r \<Rightarrow> lift_error (pv_DelRule P r k))
      | OpOther s \<Rightarrow> (Some (UnknownKind (OpOther s)), k))"

definition inverseOp :: "plan_op \<Rightarrow> plan_op" where
  "inverseOp op =
     (case po_Kind op of
        OpAddRoute \<Rightarrow> op\<lparr>po_Kind := OpDelRoute\<rparr>
      | OpDelRoute \<Rightarrow> op\<lparr>po_Kind := OpAddRoute\<rparr>
      | OpAddRule \<Rightarrow> op\<lparr>po_Kind := OpDelRule\<rparr>
      | OpDelRule \<Rightarrow> op\<lparr>po_Kind := OpAddRule\<rparr>
      | OpOther s \<Rightarrow> op)"

definition exec_rollback :: "('k, 'e) provider \<Rightarrow> plan_op list \<Rightarrow> 'k \<Rightarrow> 'k" where
  "exec_rollback P applied k = fold (\<lambda>op k. snd (exec_do P (inverseOp op) k)) (rev applied) k"

fun exec_ops :: "('k, 'e) provider \<Rightarrow> plan_op list \<Rightarrow> plan_op list \<Rightarrow> 'k \<Rightarrow> 'e exec_error option \<times> 'k" where
  "exec_ops P applied [] k = (None, k)"
| "exec_ops P applied (op # ops) k =
     (case exec_do P op k of
        (Some e, k') \<Rightarrow> (Some (OpFailed (po_Human op) (length applied) e), exec_rollback P applied k')
      | (None, k') \<Rightarrow> exec_ops P (applied @ [op]) ops k')"

definition exec_Apply :: "('k, 'e) provider \<Rightarrow> plan \<Rightarrow> 'k \<Rightarrow> 'e exec_error option \<times> 'k" where
  "exec_Apply P pl k = exec_ops P [] (pl_Ops pl) k"

fun run_ops :: "('k, 'e) provider \<Rightarrow> plan_op list \<Rightarrow> 'e exec_error option \<Rightarrow> 'k \<Rightarrow> 'e exec_error option \<times> 'k" where
  "run_ops P [] firstErr k = (firstErr, k)"
| "run_ops P (op # ops) firstErr k =
     (case exec_do P op k of
        (Some e, k') \<Rightarrow> run_ops P ops (if firstErr = None then Some e else firstErr) k'
      | (None, k') \<Rightarrow> run_ops P ops firstErr k')"

definition RunOps :: "('k, 'e) provider \<Rightarrow> plan_op list \<Rightarrow> 'k \<Rightarrow> 'e exec_error option \<times> 'k" where
  "RunOps P ops k = run_ops P ops None k"

section \<open>What the executor relies on\<close>

text \<open>
  \<open>clean\<close> marks the operations whose inverse undoes them in a state: an add of something absent, a
  removal of something present as it was recorded.  \<open>clean_run\<close> asks it of the operations a run
  applies, each in the state it meets.
\<close>

fun clean_run :: "('k, 'e) provider \<Rightarrow> (plan_op \<Rightarrow> 'k \<Rightarrow> bool) \<Rightarrow> plan_op list \<Rightarrow> 'k \<Rightarrow> bool" where
  "clean_run P clean [] k \<longleftrightarrow> True"
| "clean_run P clean (op # ops) k \<longleftrightarrow>
     (case exec_do P op k of (Some e, k') \<Rightarrow> True | (None, k') \<Rightarrow> clean op k \<and> clean_run P clean ops k')"

locale route_provider =
  fixes P :: "('k, 'e) provider" and view :: "'k \<Rightarrow> 'v" and sound :: "'k \<Rightarrow> bool" and clean :: "plan_op \<Rightarrow> 'k \<Rightarrow> bool"
  assumes do_sound: "sound k \<Longrightarrow> sound (snd (exec_do P op k))"
    and do_refused: "sound k \<Longrightarrow> exec_do P op k = (Some e, k') \<Longrightarrow> view k' = view k"
    and do_undone: "sound k \<Longrightarrow> clean op k \<Longrightarrow> exec_do P op k = (None, k1) \<Longrightarrow> sound k' \<Longrightarrow> view k' = view k1
      \<Longrightarrow> view (snd (exec_do P (inverseOp op) k')) = view k"
begin

inductive applied_from :: "'k \<Rightarrow> plan_op list \<Rightarrow> 'k \<Rightarrow> bool" where
  start: "sound k \<Longrightarrow> applied_from k [] k"
| more: "applied_from k ops k1 \<Longrightarrow> clean op k1 \<Longrightarrow> exec_do P op k1 = (None, k2) \<Longrightarrow> applied_from k (ops @ [op]) k2"

lemma applied_sound: "applied_from k ops k1 \<Longrightarrow> sound k \<and> sound k1"
proof (induction rule: applied_from.induct)
  case (more k ops k1 op k2)
  then show ?case using do_sound[of k1 op] by simp
qed simp

lemma rollback_view: "applied_from k ops k1 \<Longrightarrow> sound k' \<Longrightarrow> view k' = view k1 \<Longrightarrow> view (exec_rollback P ops k') = view k \<and> sound (exec_rollback P ops k')"
proof (induction arbitrary: k' rule: applied_from.induct)
  case (start k)
  then show ?case by (simp add: exec_rollback_def)
next
  case (more k ops k1 op k2)
  let ?k = "snd (exec_do P (inverseOp op) k')"
  have "view ?k = view k1"
    using do_undone[OF conjunct2[OF applied_sound[OF more.hyps(1)]] more.hyps(2,3) more.prems] .
  moreover have "sound ?k" using do_sound[OF more.prems(1)] .
  ultimately show ?case using more.IH[of ?k] by (simp add: exec_rollback_def)
qed

lemma exec_ops_atomic:
  assumes "applied_from k0 applied k" "clean_run P clean ops k" "exec_ops P applied ops k = (r, k')"
  shows "sound k' \<and> (case r of Some e \<Rightarrow> view k' = view k0 | None \<Rightarrow> applied_from k0 (applied @ ops) k')"
  using assms
proof (induction ops arbitrary: applied k)
  case Nil
  then show ?case using applied_sound by auto
next
  case (Cons op ops)
  obtain r1 k1 where d: "exec_do P op k = (r1, k1)" by force
  have s: "sound k" using applied_sound[OF Cons.prems(1)] by simp
  show ?case
  proof (cases r1)
    case None
    then have "applied_from k0 (applied @ [op]) k1" using more[OF Cons.prems(1)] Cons.prems(2) d by simp
    from Cons.IH[OF this] show ?thesis using Cons.prems(2,3) d None by (auto split: option.splits)
  next
    case (Some e)
    have "sound k1" "view k1 = view k" using do_sound[OF s, of op] do_refused[OF s] d Some by auto
    from rollback_view[OF Cons.prems(1) this] show ?thesis using Cons.prems(3) d Some by auto
  qed
qed

lemma Apply_atomic:
  assumes "sound k" "clean_run P clean (pl_Ops pl) k" "exec_Apply P pl k = (Some e, k')"
  shows "view k' = view k"
  using exec_ops_atomic[OF start[OF assms(1)] assms(2)] assms(3) by (fastforce simp: exec_Apply_def)

end

end
