(* ===== verification/Simulate.thy ===== *)
theory Simulate
  imports Domain
begin

text \<open>
  \<^verbatim>\<open>internal/routing/simulate.go\<close> and \<^verbatim>\<open>internal/routing/conflict.go\<close>: the simulated routing
  decision shown beside the kernel's, the comparison of the two, and the detection of routes that
  overlap with different next hops.

  \<open>lpm\<close> specifies longest-prefix match; the scanning loop refines it.  Conflict detection is
  characterised by what the routes cover, and a conflict-free set of routes is shown to decide
  every destination in one way only.
\<close>

section \<open>The simulator\<close>

text \<open>
  The loop over the routes keeps the best match so far (the source keeps its index) and its
  length, \<open>-1\<close> before the first match.
\<close>

definition sim_better :: "addr \<Rightarrow> route \<Rightarrow> int \<Rightarrow> int option" where
  "sim_better target r bestBits =
     (case parse_prefix (rt_DstCIDR r) of
        None \<Rightarrow> None
      | Some pfx \<Rightarrow>
          if is4 (pfx_addr pfx) \<noteq> is4 target then None
          else if contains pfx target \<and> pfx_bits pfx > bestBits then Some (pfx_bits pfx)
          else None)"

fun sim_scan :: "addr \<Rightarrow> route list \<Rightarrow> route option \<Rightarrow> int \<Rightarrow> route option" where
  "sim_scan target [] best bestBits = best"
| "sim_scan target (r # rs) best bestBits =
     (case sim_better target r bestBits of
        None \<Rightarrow> sim_scan target rs best bestBits
      | Some b \<Rightarrow> sim_scan target rs (Some r) b)"

definition decision0 :: "addr \<Rightarrow> bool \<Rightarrow> route_decision" where
  "decision0 target reachable =
     \<lparr>rd_Target = addr_string target, rd_Source = ''simulated'', rd_MatchedCIDR = [], rd_Gateway = [],
      rd_Iface = [], rd_Family = (if is6 target then FamilyV6 else FamilyV4), rd_Owner = [], rd_Profile = [],
      rd_ViaVPN = False, rd_Tunnel = [], rd_TunnelType = [], rd_Reachable = reachable, rd_Rejected = False\<rparr>"

definition decide_route :: "addr \<Rightarrow> (string \<Rightarrow> bool) option \<Rightarrow> route \<Rightarrow> route_decision" where
  "decide_route target vpnByIface r =
     (let dec = (decision0 target True)\<lparr>rd_MatchedCIDR := rt_DstCIDR r\<rparr>
      in if rt_Reject r
         then dec\<lparr>rd_Reachable := False, rd_Rejected := True, rd_Owner := rt_Owner r, rd_Profile := rt_Profile r\<rparr>
         else dec\<lparr>rd_Gateway := rt_Gateway r, rd_Iface := rt_Iface r, rd_Owner := rt_Owner r,
                rd_Profile := rt_Profile r,
                rd_ViaVPN := (case vpnByIface of Some m \<Rightarrow> m (rt_Iface r) | None \<Rightarrow> rt_Owner r = OwnerVPN)\<rparr>)"

definition Simulate :: "route list \<Rightarrow> addr \<Rightarrow> (string \<Rightarrow> bool) option \<Rightarrow> route_decision" where
  "Simulate routes target vpnByIface =
     (case sim_scan target routes None (-1) of
        None \<Rightarrow> decision0 target False
      | Some r \<Rightarrow> decide_route target vpnByIface r)"

definition Drift :: "route_decision \<Rightarrow> route_decision \<Rightarrow> bool" where
  "Drift kern simulated =
     (if rd_Reachable kern \<noteq> rd_Reachable simulated \<or> rd_Rejected kern \<noteq> rd_Rejected simulated then True
      else if \<not> rd_Reachable kern then False
      else rd_Iface kern \<noteq> rd_Iface simulated \<or> rd_ViaVPN kern \<noteq> rd_ViaVPN simulated)"

section \<open>Longest-prefix match\<close>

text \<open>How long a match of the target a route is, if it is one.\<close>

definition match_len :: "addr \<Rightarrow> route \<Rightarrow> int option" where
  "match_len target r =
     (case parse_prefix (rt_DstCIDR r) of
        None \<Rightarrow> None
      | Some pfx \<Rightarrow> if target \<in> covers pfx then Some (pfx_bits pfx) else None)"

text \<open>
  The specification: the first route in the list among those that match the target with the
  longest prefix.
\<close>

definition lpm :: "addr \<Rightarrow> route list \<Rightarrow> route option \<Rightarrow> bool" where
  "lpm target routes best \<longleftrightarrow>
     (case best of
        None \<Rightarrow> \<forall>r \<in> set routes. match_len target r = None
      | Some r \<Rightarrow> \<exists>pre post b. routes = pre @ r # post \<and> match_len target r = Some b
          \<and> (\<forall>x \<in> set pre. \<forall>c. match_len target x = Some c \<longrightarrow> c < b)
          \<and> (\<forall>x \<in> set post. \<forall>c. match_len target x = Some c \<longrightarrow> c \<le> b))"

lemma sim_better_match:
  "sim_better target r b = (case match_len target r of None \<Rightarrow> None | Some c \<Rightarrow> if c > b then Some c else None)"
proof -
  have "is4 (pfx_addr pfx) = is4 target" if "target \<in> covers pfx" for pfx
    using that by (simp add: covers_def contains_iff is4_iff)
  then show ?thesis by (auto simp: sim_better_def match_len_def covers_def split: option.splits)
qed

lemma match_len_nonneg: "match_len target r = Some b \<Longrightarrow> 0 \<le> b"
  using parse_prefix_valid by (auto simp: match_len_def is_valid_def split: option.splits if_splits)

lemma sim_scan_spec:
  "(\<exists>pre r post c. routes = pre @ r # post \<and> sim_scan target routes best b = Some r \<and> match_len target r = Some c
            \<and> c > b \<and> (\<forall>x \<in> set pre. \<forall>d. match_len target x = Some d \<longrightarrow> d < c)
            \<and> (\<forall>x \<in> set post. \<forall>d. match_len target x = Some d \<longrightarrow> d \<le> c))
       \<or> sim_scan target routes best b = best \<and> (\<forall>x \<in> set routes. \<forall>d. match_len target x = Some d \<longrightarrow> d \<le> b)"
proof (induction routes arbitrary: best b)
  case Nil
  then show ?case by simp
next
  case (Cons r rs)
  show ?case
  proof (cases "sim_better target r b")
    case None
    then have le: "\<forall>d. match_len target r = Some d \<longrightarrow> d \<le> b"
      by (auto simp: sim_better_match split: option.splits if_splits)
    from Cons.IH[of best b] show ?thesis
    proof (elim disjE exE conjE)
      fix pre x post c assume "rs = pre @ x # post" "sim_scan target rs best b = Some x" "match_len target x = Some c"
        "b < c" "\<forall>x \<in> set pre. \<forall>d. match_len target x = Some d \<longrightarrow> d < c"
        "\<forall>x \<in> set post. \<forall>d. match_len target x = Some d \<longrightarrow> d \<le> c"
      then show ?thesis using None le
        by (intro disjI1 exI[of _ "r # pre"] exI[of _ x] exI[of _ post] exI[of _ c]) (auto intro: le_less_trans)
    next
      assume "sim_scan target rs best b = best" "\<forall>x \<in> set rs. \<forall>d. match_len target x = Some d \<longrightarrow> d \<le> b"
      then show ?thesis using None le by simp
    qed
  next
    case (Some c)
    then have m: "match_len target r = Some c" "c > b" by (auto simp: sim_better_match split: option.splits if_splits)
    from Cons.IH[of "Some r" c] show ?thesis
    proof (elim disjE exE conjE)
      fix pre x post d assume "rs = pre @ x # post" "sim_scan target rs (Some r) c = Some x" "match_len target x = Some d"
        "c < d" "\<forall>x \<in> set pre. \<forall>e. match_len target x = Some e \<longrightarrow> e < d"
        "\<forall>x \<in> set post. \<forall>e. match_len target x = Some e \<longrightarrow> e \<le> d"
      then show ?thesis using Some m
        by (intro disjI1 exI[of _ "r # pre"] exI[of _ x] exI[of _ post] exI[of _ d]) auto
    next
      assume "sim_scan target rs (Some r) c = Some r" "\<forall>x \<in> set rs. \<forall>d. match_len target x = Some d \<longrightarrow> d \<le> c"
      then show ?thesis using Some m
        by (intro disjI1 exI[of _ "[]"] exI[of _ r] exI[of _ rs] exI[of _ c]) auto
    qed
  qed
qed

lemma sim_scan_lpm: "lpm target routes (sim_scan target routes None (-1))"
proof -
  have none: "match_len target x = None" if "\<forall>d. match_len target x = Some d \<longrightarrow> d \<le> -1" for x
    using that match_len_nonneg[of target x] by (cases "match_len target x") force+
  from sim_scan_spec[of routes target None "-1"] show ?thesis
  proof (elim disjE exE conjE)
    fix pre r post c assume "routes = pre @ r # post" "sim_scan target routes None (-1) = Some r"
      "match_len target r = Some c" "\<forall>x \<in> set pre. \<forall>d. match_len target x = Some d \<longrightarrow> d < c"
      "\<forall>x \<in> set post. \<forall>d. match_len target x = Some d \<longrightarrow> d \<le> c"
    then show ?thesis unfolding lpm_def by auto
  qed (use none in \<open>auto simp: lpm_def\<close>)
qed

text \<open>The specification determines the route up to the position of its match.\<close>

lemma lpm_matches:
  assumes "lpm target routes (Some r)"
  shows "r \<in> set routes" "\<exists>b. match_len target r = Some b \<and> (\<forall>x \<in> set routes. \<forall>c. match_len target x = Some c \<longrightarrow> c \<le> b)"
  using assms by (auto simp: lpm_def) (fastforce intro: less_imp_le)

definition best_at :: "addr \<Rightarrow> route list \<Rightarrow> nat \<Rightarrow> int \<Rightarrow> bool" where
  "best_at target routes i b \<longleftrightarrow> i < length routes \<and> match_len target (routes ! i) = Some b
     \<and> (\<forall>k c. k < i \<longrightarrow> match_len target (routes ! k) = Some c \<longrightarrow> c < b)
     \<and> (\<forall>k c. k < length routes \<longrightarrow> match_len target (routes ! k) = Some c \<longrightarrow> c \<le> b)"

lemma best_at_unique:
  assumes "best_at target routes i b" and "best_at target routes j d"
  shows "i = j"
proof -
  have "\<not> i < j" if "best_at target routes i b" "best_at target routes j d" for i j b d
  proof
    assume "i < j"
    then have "b < d" using that by (auto simp: best_at_def)
    moreover have "d \<le> b" using that by (auto simp: best_at_def)
    ultimately show False by simp
  qed
  then show ?thesis using assms by (metis linorder_neqE_nat)
qed

lemma lpm_best_at:
  assumes "lpm target routes (Some r)"
  shows "\<exists>i b. best_at target routes i b \<and> r = routes ! i"
proof -
  from assms obtain pre post b where r: "routes = pre @ r # post" "match_len target r = Some b"
    "\<And>x c. x \<in> set pre \<Longrightarrow> match_len target x = Some c \<Longrightarrow> c < b"
    "\<And>x c. x \<in> set post \<Longrightarrow> match_len target x = Some c \<Longrightarrow> c \<le> b" by (auto simp: lpm_def)
  have "c \<le> b" if "x \<in> set routes" "match_len target x = Some c" for x c
    using that r(1,2) r(3)[of x c] r(4)[of x c] by auto
  then have "c \<le> b" if "k < length routes" "match_len target (routes ! k) = Some c" for k c
    using that nth_mem by blast
  moreover have "c < b" if "k < length pre" "match_len target (routes ! k) = Some c" for k c
    using that r(1) r(3)[of "pre ! k" c] by (simp add: nth_append)
  ultimately have "best_at target routes (length pre) b" using r(1,2) by (simp add: best_at_def nth_append)
  then show ?thesis using r(1) by (intro exI[of _ "length pre"] exI[of _ b]) (simp add: nth_append)
qed

lemma lpm_unique:
  assumes "lpm target routes b1" and "lpm target routes b2"
  shows "b1 = b2"
proof -
  have "r1 = r2" if "lpm target routes (Some r1)" "lpm target routes (Some r2)" for r1 r2
    using lpm_best_at[OF that(1)] lpm_best_at[OF that(2)] best_at_unique by blast
  moreover have "\<not> lpm target routes None" if "lpm target routes (Some r)" for r
    using lpm_matches[OF that] by (auto simp: lpm_def)
  ultimately show ?thesis using assms by (cases b1; cases b2) auto
qed

section \<open>Conflicts\<close>

definition label :: "managed_route \<Rightarrow> string" where
  "label r =
     (let prof = (if mr_ProfileID r = [] then rt_Profile (mr_Route r) else mr_ProfileID r)
      in if rt_Reject (mr_Route r) then rt_DstCIDR (mr_Route r) @ '' reject ('' @ prof @ '')''
         else rt_DstCIDR (mr_Route r) @ '' via '' @ rt_Gateway (mr_Route r) @ '' dev '' @ rt_Iface (mr_Route r)
           @ '' ('' @ prof @ '')'')"

definition same_hop :: "route \<Rightarrow> route \<Rightarrow> bool" where
  "same_hop a b \<longleftrightarrow> rt_Gateway a = rt_Gateway b \<and> rt_Iface a = rt_Iface b \<and> rt_Reject a = rt_Reject b"

definition conflict_entries :: "managed_route list \<Rightarrow> (netprefix \<times> managed_route) list" where
  "conflict_entries routes =
     List.map_filter (\<lambda>r. map_option (\<lambda>p. (masked p, r)) (parse_prefix (rt_DstCIDR (mr_Route r)))) routes"

definition conflict_of :: "netprefix \<times> managed_route \<Rightarrow> netprefix \<times> managed_route \<Rightarrow> conflict option" where
  "conflict_of a b =
     (if is4 (pfx_addr (fst a)) \<noteq> is4 (pfx_addr (fst b)) then None
      else if \<not> overlaps (fst a) (fst b) then None
      else if same_hop (mr_Route (snd a)) (mr_Route (snd b)) then None
      else Some (if pfx_bits (fst a) = pfx_bits (fst b)
        then \<lparr>cf_Kind = ''duplicate'', cf_A = label (snd a), cf_B = label (snd b),
               cf_Detail = ''same destination routed two different ways''\<rparr>
        else \<lparr>cf_Kind = ''shadowed'', cf_A = label (snd a), cf_B = label (snd b),
               cf_Detail = ''the more-specific route wins (longest-prefix match); the broader one is partly shadowed''\<rparr>))"

fun conflict_pairs :: "(netprefix \<times> managed_route) list \<Rightarrow> conflict list" where
  "conflict_pairs [] = []"
| "conflict_pairs (a # es) = List.map_filter (conflict_of a) es @ conflict_pairs es"

definition DetectConflicts :: "managed_route list \<Rightarrow> conflict list" where
  "DetectConflicts routes = conflict_pairs (conflict_entries routes)"

lemma map_filter_Nil_iff: "List.map_filter f xs = [] \<longleftrightarrow> (\<forall>x \<in> set xs. f x = None)"
  by (induction xs) (auto simp: List.map_filter_simps split: option.splits)

lemma conflict_pairs_Nil_iff:
  "conflict_pairs es = [] \<longleftrightarrow> sorted_wrt (\<lambda>a b. conflict_of a b = None) es"
  by (induction es) (auto simp: map_filter_Nil_iff)

lemma conflict_of_None_iff:
  assumes "is_valid p" and "is_valid q"
  shows "conflict_of (p, r) (q, s) = None \<longleftrightarrow> covers p \<inter> covers q = {} \<or> same_hop (mr_Route r) (mr_Route s)"
proof -
  have "is4 (pfx_addr p) = is4 (pfx_addr q)" if "covers p \<inter> covers q \<noteq> {}"
    using that by (auto simp: covers_def contains_iff is4_iff)
  then show ?thesis using overlaps_iff[OF assms] by (auto simp: conflict_of_def)
qed

text \<open>The addresses a route's destination stands for; none when it does not parse.\<close>

definition route_covers :: "route \<Rightarrow> addr set" where
  "route_covers r = (case parse_prefix (rt_DstCIDR r) of None \<Rightarrow> {} | Some p \<Rightarrow> covers p)"

lemma sorted_wrt_entries:
  "sorted_wrt (\<lambda>a b. conflict_of a b = None) (conflict_entries rs)
     \<longleftrightarrow> sorted_wrt (\<lambda>a b. route_covers (mr_Route a) \<inter> route_covers (mr_Route b) = {}
           \<or> same_hop (mr_Route a) (mr_Route b)) rs"
proof (induction rs)
  case (Cons r rs)
  have one: "(\<forall>e \<in> set (conflict_entries rs). conflict_of (masked p, r) e = None)
      \<longleftrightarrow> (\<forall>s \<in> set rs. covers p \<inter> route_covers (mr_Route s) = {} \<or> same_hop (mr_Route r) (mr_Route s))"
    if "is_valid p" for p
  proof (induction rs)
    case (Cons s rs)
    then show ?case
      using that parse_prefix_valid[of "rt_DstCIDR (mr_Route s)"]
      by (auto simp: conflict_entries_def map_filter_Cons route_covers_def conflict_of_None_iff split: option.splits)
  qed (simp add: conflict_entries_def List.map_filter_simps)
  show ?case
  proof (cases "parse_prefix (rt_DstCIDR (mr_Route r))")
    case None
    then show ?thesis using Cons by (simp add: conflict_entries_def map_filter_Cons route_covers_def)
  next
    case (Some p)
    then have "is_valid p" by (rule parse_prefix_valid)
    with Some one[of p] Cons show ?thesis
      by (simp add: conflict_entries_def map_filter_Cons route_covers_def)
  qed
qed (simp add: conflict_entries_def List.map_filter_simps)

lemma same_hop_sym: "same_hop a b \<longleftrightarrow> same_hop b a"
  by (auto simp: same_hop_def)

lemma sorted_wrt_sym_pairs:
  assumes "sorted_wrt P xs" "x \<in> set xs" "y \<in> set xs" "x \<noteq> y" "\<And>a b. P a b \<Longrightarrow> P b a"
  shows "P x y"
  using assms by (induction xs) auto

section \<open>Properties\<close>

text \<open>
  C5.  The simulated decision is the one of longest-prefix match: of the routes whose destination
  holds the target, the first of those with the longest prefix decides; with none, the target is
  unreachable.
\<close>

theorem Simulate_longest_match:
  assumes "lpm target routes best"
  shows "Simulate routes target vpn =
    (case best of None \<Rightarrow> decision0 target False | Some r \<Rightarrow> decide_route target vpn r)"
proof -
  have "sim_scan target routes None (-1) = best" using assms sim_scan_lpm lpm_unique by blast
  then show ?thesis by (simp add: Simulate_def)
qed

text \<open>Between a default route and the network of the target, the network decides.\<close>

theorem Simulate_longest_match_witness:
  "let d = route0\<lparr>rt_DstCIDR := ''0.0.0.0/0'', rt_Iface := ''utun4''\<rparr>;
       n = route0\<lparr>rt_DstCIDR := ''10.0.0.0/8'', rt_Iface := ''en0''\<rparr>;
       t = Addr4 0x0A010203
   in lpm t [d, n] (Some n) \<and> rd_Iface (Simulate [d, n] t None) = ''en0''"
proof -
  let ?d = "route0\<lparr>rt_DstCIDR := ''0.0.0.0/0'', rt_Iface := ''utun4''\<rparr>"
    and ?n = "route0\<lparr>rt_DstCIDR := ''10.0.0.0/8'', rt_Iface := ''en0''\<rparr>" and ?t = "Addr4 0x0A010203"
  have "sim_scan ?t [?d, ?n] None (-1) = Some ?n" by code_simp
  then have l: "lpm ?t [?d, ?n] (Some ?n)" using sim_scan_lpm[of ?t "[?d, ?n]"] by simp
  show ?thesis
    unfolding Let_def using l Simulate_longest_match[OF l, of None]
    by (simp add: decide_route_def decision0_def route0_def Let_def)
qed

text \<open>
  C6.  No conflict is reported exactly when any two routes with an address in common have the
  same next hop: the test misses no overlap and reports no harmless one.
\<close>

theorem DetectConflicts_complete:
  "DetectConflicts rs = [] \<longleftrightarrow>
     sorted_wrt (\<lambda>a b. route_covers (mr_Route a) \<inter> route_covers (mr_Route b) = {}
       \<or> same_hop (mr_Route a) (mr_Route b)) rs"
  by (simp add: DetectConflicts_def conflict_pairs_Nil_iff sorted_wrt_entries)

text \<open>
  C7.  Without conflicts the outcome does not depend on which route matches best: every route that
  covers the target names the next hop (or the refusal) of the simulated decision.
\<close>

theorem no_conflicts_one_fate:
  assumes "DetectConflicts rs = []" and "r \<in> set rs" and "target \<in> route_covers (mr_Route r)"
  shows "rd_Rejected (Simulate (map mr_Route rs) target vpn) = rt_Reject (mr_Route r)
    \<and> rd_Reachable (Simulate (map mr_Route rs) target vpn) = (\<not> rt_Reject (mr_Route r))
    \<and> (\<not> rt_Reject (mr_Route r) \<longrightarrow>
         rd_Gateway (Simulate (map mr_Route rs) target vpn) = rt_Gateway (mr_Route r)
       \<and> rd_Iface (Simulate (map mr_Route rs) target vpn) = rt_Iface (mr_Route r))"
proof -
  have cov: "match_len target x \<noteq> None \<longleftrightarrow> target \<in> route_covers x" for x
    by (auto simp: match_len_def route_covers_def split: option.splits)
  let ?best = "sim_scan target (map mr_Route rs) None (-1)"
  have l: "lpm target (map mr_Route rs) ?best" by (rule sim_scan_lpm)
  obtain b where b: "?best = Some b"
    using l assms(2,3) cov[of "mr_Route r"] by (cases ?best) (auto simp: lpm_def)
  from l b have "b \<in> set (map mr_Route rs)" "target \<in> route_covers b"
    using lpm_matches[of target "map mr_Route rs" b] cov[of b] by auto
  then obtain s where s: "s \<in> set rs" "b = mr_Route s" "target \<in> route_covers (mr_Route s)" by auto
  have "sorted_wrt (\<lambda>a b. route_covers (mr_Route a) \<inter> route_covers (mr_Route b) = {}
      \<or> same_hop (mr_Route a) (mr_Route b)) rs"
    using assms(1) by (simp add: DetectConflicts_def conflict_pairs_Nil_iff sorted_wrt_entries)
  then have "same_hop (mr_Route s) (mr_Route r)"
    using sorted_wrt_sym_pairs[of _ rs s r] s assms(2,3) same_hop_sym by (cases "s = r") (fastforce simp: same_hop_def)+
  with b s(2) show ?thesis
    by (auto simp: Simulate_def decide_route_def decision0_def same_hop_def Let_def)
qed

theorem no_conflicts_one_fate_witness:
  "let r = \<lparr>mr_Route = route0\<lparr>rt_DstCIDR := ''10.0.0.0/8'', rt_Iface := ''en0''\<rparr>, mr_ProfileID = ''work'', mr_CreatedAt = 0\<rparr>;
       s = \<lparr>mr_Route = route0\<lparr>rt_DstCIDR := ''10.1.0.0/16'', rt_Iface := ''en0''\<rparr>, mr_ProfileID = ''home'', mr_CreatedAt = 0\<rparr>
   in DetectConflicts [r, s] = [] \<and> rd_Iface (Simulate (map mr_Route [r, s]) (Addr4 0x0A010203) None) = ''en0''"
proof -
  let ?r = "\<lparr>mr_Route = route0\<lparr>rt_DstCIDR := ''10.0.0.0/8'', rt_Iface := ''en0''\<rparr>, mr_ProfileID = ''work'', mr_CreatedAt = 0\<rparr>"
    and ?s = "\<lparr>mr_Route = route0\<lparr>rt_DstCIDR := ''10.1.0.0/16'', rt_Iface := ''en0''\<rparr>, mr_ProfileID = ''home'', mr_CreatedAt = 0\<rparr>"
    and ?t = "Addr4 0x0A010203"
  have c: "DetectConflicts [?r, ?s] = []" by code_simp
  have p: "parse_prefix ''10.0.0.0/8'' = Some (NetPrefix (Addr4 0x0A000000) 8)" by code_simp
  have n: "contains (NetPrefix (Addr4 0x0A000000) 8) ?t" by code_simp
  have "?t \<in> route_covers (mr_Route ?r)" using p n by (simp add: route_covers_def covers_def route0_def)
  from no_conflicts_one_fate[OF c _ this, of None] show ?thesis
    unfolding Let_def using c by (simp add: route0_def)
qed


end
