(* ===== verification/Fake.thy ===== *)
theory Fake
  imports Executor Simulate "HOL-Library.Multiset"
begin

text \<open>
  The in-memory provider (\<^verbatim>\<open>internal/provider/fake/fake.go\<close>), and that it keeps the contract the
  executor relies on.
\<close>

section \<open>The in-memory provider\<close>

datatype fake_error = UnknownFamily family | NoPhysicalGateway family
  | InjectedAdd string | InjectedDel string | RefusingUnowned string

record fake =
  fk_ifaces :: "iface list"
  fk_routesV4 :: "route list"
  fk_routesV6 :: "route list"
  fk_rules :: "policy_rule list"
  fk_dns :: dns_state
  fk_physGW :: "family \<rightharpoonup> addr"
  fk_physIface :: string
  fk_caps :: capabilities
  fk_managedKey :: "string set"
  fk_tables :: "string \<Rightarrow> route list"
  fk_failAdd :: "string set"
  fk_failDel :: "string set"

abbreviation IfaceKindPhysical :: string where "IfaceKindPhysical \<equiv> ''phys''"
abbreviation IfaceKindUtun :: string where "IfaceKindUtun \<equiv> ''utun''"
abbreviation IfaceKindLoopback :: string where "IfaceKindLoopback \<equiv> ''loopback''"
abbreviation IfaceKindOther :: string where "IfaceKindOther \<equiv> ''other''"

definition fake_route :: "string \<Rightarrow> string \<Rightarrow> string \<Rightarrow> family \<Rightarrow> owner \<Rightarrow> route" where
  "fake_route dst gw ifc fam own = route0\<lparr>rt_DstCIDR := dst, rt_Gateway := gw, rt_Iface := ifc, rt_Family := fam, rt_Owner := own\<rparr>"

definition fake_rule :: "int \<Rightarrow> string \<Rightarrow> policy_rule" where
  "fake_rule prio table = policy_rule0\<lparr>pr_Priority := prio, pr_Selector := ''from all'', pr_Table := table, pr_Family := FamilyV4\<rparr>"

definition fake_New :: fake where
  "fake_New = \<lparr>
     fk_ifaces =
       [\<lparr>if_Name = ''lo0'', if_Up = True, if_Kind = IfaceKindLoopback, if_Addrs = [''127.0.0.1/8'', ''::1/128''], if_MTU = 16384, if_IsVPN = False\<rparr>,
        \<lparr>if_Name = ''en0'', if_Up = True, if_Kind = IfaceKindPhysical, if_Addrs = [''192.168.1.50/24'', ''fe80::1c%en0/64''], if_MTU = 1500, if_IsVPN = False\<rparr>,
        \<lparr>if_Name = ''utun3'', if_Up = True, if_Kind = IfaceKindUtun, if_Addrs = [''10.8.0.2/32''], if_MTU = 1400, if_IsVPN = True\<rparr>],
     fk_routesV4 =
       [fake_route ''0.0.0.0/0'' ''10.8.0.1'' ''utun3'' FamilyV4 OwnerVPN,
        fake_route ''10.8.0.0/24'' [] ''utun3'' FamilyV4 OwnerVPN,
        fake_route ''192.168.1.0/24'' [] ''en0'' FamilyV4 OwnerSystem,
        fake_route ''127.0.0.0/8'' [] ''lo0'' FamilyV4 OwnerSystem],
     fk_routesV6 =
       [fake_route ''::1/128'' [] ''lo0'' FamilyV6 OwnerSystem,
        fake_route ''fe80::/64'' [] ''en0'' FamilyV6 OwnerSystem],
     fk_rules = [fake_rule 0 ''local'', fake_rule 32766 ''main'', fake_rule 32767 ''default''],
     fk_dns = \<lparr>dn_Servers = [''10.8.0.1''], dn_SearchDomains = [''corp.example.com''], dn_Iface = ''utun3''\<rparr>,
     fk_physGW = [FamilyV4 \<mapsto> Addr4 0xC0A80101],
     fk_physIface = ''en0'',
     fk_caps = \<lparr>cp_Platform = ''fake'', cp_PolicyRouting = True, cp_Fwmark = True, cp_PerAppRouting = True, cp_ProtoTag = True,
       cp_IPv6 = True, cp_KillSwitch = True, cp_IfaceScoping = True, cp_Backend = ''fake''\<rparr>,
     fk_managedKey = {}, fk_tables = (\<lambda>_. []), fk_failAdd = {}, fk_failDel = {}\<rparr>"

subsection \<open>Internals\<close>

fun index_where :: "('a \<Rightarrow> bool) \<Rightarrow> 'a list \<Rightarrow> nat option" where
  "index_where P [] = None"
| "index_where P (x # xs) = (if P x then Some 0 else map_option Suc (index_where P xs))"

definition remove_at :: "nat \<Rightarrow> 'a list \<Rightarrow> 'a list" where
  "remove_at i xs = take i xs @ drop (Suc i) xs"

definition fk_table :: "family \<Rightarrow> fake \<Rightarrow> route list" where
  "fk_table fam p = (if fam = FamilyV6 then fk_routesV6 p else fk_routesV4 p)"

definition set_table :: "family \<Rightarrow> route list \<Rightarrow> fake \<Rightarrow> fake" where
  "set_table fam rs p = (if fam = FamilyV6 then p\<lparr>fk_routesV6 := rs\<rparr> else p\<lparr>fk_routesV4 := rs\<rparr>)"

definition appendRoute :: "route \<Rightarrow> fake \<Rightarrow> fake" where
  "appendRoute rt p = set_table (rt_Family rt) (fk_table (rt_Family rt) p @ [rt]) p"

definition removeRoute :: "family \<Rightarrow> nat \<Rightarrow> fake \<Rightarrow> fake" where
  "removeRoute fam idx p = set_table fam (remove_at idx (fk_table fam p)) p"

definition same_identity :: "route \<Rightarrow> route \<Rightarrow> bool" where
  "same_identity r rt \<longleftrightarrow> rt_DstCIDR r = rt_DstCIDR rt \<and> rt_Gateway r = rt_Gateway rt \<and> rt_Iface r = rt_Iface rt
     \<and> rt_Table r = rt_Table rt \<and> rt_Reject r = rt_Reject rt"

definition indexOf :: "route \<Rightarrow> fake \<Rightarrow> nat option" where
  "indexOf rt p = index_where (\<lambda>r. same_identity r rt) (fk_table (rt_Family rt) p)"

definition indexOfCIDR :: "family \<Rightarrow> string \<Rightarrow> fake \<Rightarrow> nat option" where
  "indexOfCIDR fam cidr p = index_where (\<lambda>r. rt_DstCIDR r = cidr) (fk_table fam p)"

definition filterOwned :: "route list \<Rightarrow> route list" where
  "filterOwned rs = filter (\<lambda>r. rt_Owner r \<noteq> OwnerRiftRoute) rs"

definition fake_routeKey :: "route \<Rightarrow> string" where
  "fake_routeKey r =
     (let k = rt_Family r @ ''|'' @ rt_Table r @ ''|'' @ rt_DstCIDR r @ ''|'' @ rt_Gateway r @ ''|'' @ rt_Iface r
      in if rt_Reject r then k @ ''|reject'' else k)"

fun ifaceIsVPN :: "iface list \<Rightarrow> string \<Rightarrow> bool" where
  "ifaceIsVPN [] name = False"
| "ifaceIsVPN (i # is) name = (if if_Name i = name then if_IsVPN i else ifaceIsVPN is name)"

subsection \<open>Reads\<close>

definition fake_ListRoutes :: "family \<Rightarrow> fake \<Rightarrow> fake_error + route list" where
  "fake_ListRoutes fam p =
     (if fam = FamilyV4 then Inr (fk_routesV4 p) else if fam = FamilyV6 then Inr (fk_routesV6 p) else Inl (UnknownFamily fam))"

definition fake_ListRules :: "family \<Rightarrow> fake \<Rightarrow> fake_error + policy_rule list" where
  "fake_ListRules fam p = Inr (filter (\<lambda>r. pr_Family r = fam) (fk_rules p))"

definition fake_DNSConfig :: "fake \<Rightarrow> fake_error + dns_state" where
  "fake_DNSConfig p = Inr (fk_dns p)"

definition fake_Interfaces :: "fake \<Rightarrow> fake_error + iface list" where
  "fake_Interfaces p = Inr (fk_ifaces p)"

definition fake_DefaultGateway :: "family \<Rightarrow> fake \<Rightarrow> fake_error + addr \<times> string" where
  "fake_DefaultGateway fam p =
     (case fk_physGW p fam of None \<Rightarrow> Inl (NoPhysicalGateway fam) | Some gw \<Rightarrow> Inr (gw, fk_physIface p))"

fun lookup_scan :: "addr \<Rightarrow> route list \<Rightarrow> route option \<Rightarrow> int \<Rightarrow> route option" where
  "lookup_scan dst [] best bestBits = best"
| "lookup_scan dst (r # rs) best bestBits =
     (case parse_prefix (rt_DstCIDR r) of
        None \<Rightarrow> lookup_scan dst rs best bestBits
      | Some pfx \<Rightarrow>
          if contains pfx dst \<and> pfx_bits pfx > bestBits then lookup_scan dst rs (Some r) (pfx_bits pfx)
          else lookup_scan dst rs best bestBits)"

definition fake_LookupRoute :: "addr \<Rightarrow> fake \<Rightarrow> fake_error + route_decision" where
  "fake_LookupRoute dst p =
     (let fam = (if is6 dst then FamilyV6 else FamilyV4);
          best = lookup_scan dst (if is6 dst then fk_routesV6 p else fk_routesV4 p) None (-1);
          dec = \<lparr>rd_Target = addr_string dst, rd_Source = ''kernel'', rd_MatchedCIDR = [], rd_Gateway = [], rd_Iface = [],
                 rd_Family = fam, rd_Owner = [], rd_Profile = [], rd_ViaVPN = False, rd_Tunnel = [], rd_TunnelType = [],
                 rd_Reachable = (best \<noteq> None), rd_Rejected = False\<rparr>
      in Inr (case best of
           None \<Rightarrow> dec
         | Some r \<Rightarrow>
             let dec = dec\<lparr>rd_MatchedCIDR := rt_DstCIDR r\<rparr>
             in if rt_Reject r
                then dec\<lparr>rd_Reachable := False, rd_Rejected := True, rd_Owner := rt_Owner r, rd_Profile := rt_Profile r\<rparr>
                else dec\<lparr>rd_Gateway := rt_Gateway r, rd_Iface := rt_Iface r, rd_Owner := rt_Owner r, rd_Profile := rt_Profile r,
                       rd_ViaVPN := ifaceIsVPN (fk_ifaces p) (rt_Iface r)\<rparr>))"

subsection \<open>Mutations\<close>

definition fake_stamp :: "managed_route \<Rightarrow> route" where
  "fake_stamp r =
     (let rt = mr_Route r
      in if mr_ProfileID r \<noteq> [] then rt\<lparr>rt_Owner := OwnerRiftRoute, rt_Proto := ''riftroute'', rt_Profile := mr_ProfileID r\<rparr>
         else if rt_Owner rt = [] then rt\<lparr>rt_Owner := OwnerSystem\<rparr>
         else rt)"

definition own_key :: "managed_route \<Rightarrow> fake \<Rightarrow> fake" where
  "own_key r p = (if mr_ProfileID r \<noteq> [] then p\<lparr>fk_managedKey := insert (fake_routeKey (fake_stamp r)) (fk_managedKey p)\<rparr> else p)"

definition fake_AddRoute :: "managed_route \<Rightarrow> fake \<Rightarrow> fake_error option \<times> fake" where
  "fake_AddRoute r p =
     (if rt_DstCIDR (mr_Route r) \<in> fk_failAdd p then (Some (InjectedAdd (rt_DstCIDR (mr_Route r))), p)
      else let rt = fake_stamp r
        in if indexOf rt p \<noteq> None then (None, own_key r p)
           else (None, own_key r (appendRoute rt p)))"

definition disown :: "route \<Rightarrow> fake \<Rightarrow> fake" where
  "disown rt p = p\<lparr>fk_managedKey := fk_managedKey p - {fake_routeKey rt}\<rparr>"

definition fake_DelRoute :: "managed_route \<Rightarrow> fake \<Rightarrow> fake_error option \<times> fake" where
  "fake_DelRoute r p =
     (if rt_DstCIDR (mr_Route r) \<in> fk_failDel p then (Some (InjectedDel (rt_DstCIDR (mr_Route r))), p)
      else if mr_ProfileID r = [] then
        (let rt = mr_Route r
         in case indexOf rt p of
              Some idx \<Rightarrow> (None, disown rt (removeRoute (rt_Family rt) idx p))
            | None \<Rightarrow>
                let rt = rt\<lparr>rt_Owner := OwnerRiftRoute, rt_Proto := ''riftroute''\<rparr>
                in case indexOf rt p of
                     Some idx \<Rightarrow> (None, disown rt (removeRoute (rt_Family rt) idx p))
                   | None \<Rightarrow> (None, p))
      else
        let rt = (mr_Route r)\<lparr>rt_Owner := OwnerRiftRoute, rt_Proto := ''riftroute'', rt_Profile := mr_ProfileID r\<rparr>
        in if fake_routeKey rt \<notin> fk_managedKey p then (Some (RefusingUnowned (rt_DstCIDR rt)), p)
           else case indexOf rt p of
                  None \<Rightarrow> (None, disown rt p)
                | Some idx \<Rightarrow> (None, disown rt (removeRoute (rt_Family rt) idx p)))"

definition rule_stamp :: "managed_rule \<Rightarrow> policy_rule" where
  "rule_stamp r = (ml_Rule r)\<lparr>pr_Proto := ''riftroute''\<rparr>"

definition fake_AddRule :: "managed_rule \<Rightarrow> fake \<Rightarrow> fake_error option \<times> fake" where
  "fake_AddRule r p = (None, p\<lparr>fk_rules := sort_key pr_Priority (fk_rules p @ [rule_stamp r])\<rparr>)"

definition same_rule_identity :: "policy_rule \<Rightarrow> policy_rule \<Rightarrow> bool" where
  "same_rule_identity pr r \<longleftrightarrow> pr_Priority pr = pr_Priority r \<and> pr_Selector pr = pr_Selector r \<and> pr_Table pr = pr_Table r
     \<and> pr_Family pr = pr_Family r \<and> pr_RouteToIface pr = pr_RouteToIface r \<and> pr_RouteToGW pr = pr_RouteToGW r"

definition fake_DelRule :: "managed_rule \<Rightarrow> fake \<Rightarrow> fake_error option \<times> fake" where
  "fake_DelRule r p =
     (case index_where (\<lambda>pr. same_rule_identity pr (ml_Rule r)) (fk_rules p) of
        Some i \<Rightarrow> (None, p\<lparr>fk_rules := remove_at i (fk_rules p)\<rparr>)
      | None \<Rightarrow> (None, p))"

definition fake_FlushOwned :: "fake \<Rightarrow> fake_error option \<times> fake" where
  "fake_FlushOwned p =
     (None, p\<lparr>fk_routesV4 := filterOwned (fk_routesV4 p), fk_routesV6 := filterOwned (fk_routesV6 p),
            fk_rules := filter (\<lambda>r. pr_Proto r \<noteq> ''riftroute'') (fk_rules p), fk_managedKey := {}\<rparr>)"

definition fake_provider :: "(fake, fake_error) provider" where
  "fake_provider =
     \<lparr>pv_ListRoutes = fake_ListRoutes, pv_ListRules = fake_ListRules, pv_LookupRoute = fake_LookupRoute,
      pv_DefaultGateway = fake_DefaultGateway, pv_Interfaces = fake_Interfaces, pv_DNSConfig = fake_DNSConfig,
      pv_AddRoute = fake_AddRoute, pv_DelRoute = fake_DelRoute, pv_AddRule = fake_AddRule, pv_DelRule = fake_DelRule,
      pv_FlushOwned = fake_FlushOwned, pv_Capabilities = fk_caps, pv_Name = ''fake''\<rparr>"

subsection \<open>Helpers for development\<close>

definition FailAddRoute :: "string \<Rightarrow> bool \<Rightarrow> fake \<Rightarrow> fake" where
  "FailAddRoute cidr fail p = p\<lparr>fk_failAdd := (if fail then insert cidr (fk_failAdd p) else fk_failAdd p - {cidr})\<rparr>"

definition FailDelRoute :: "string \<Rightarrow> bool \<Rightarrow> fake \<Rightarrow> fake" where
  "FailDelRoute cidr fail p = p\<lparr>fk_failDel := (if fail then insert cidr (fk_failDel p) else fk_failDel p - {cidr})\<rparr>"

definition CountManaged :: "fake \<Rightarrow> nat" where
  "CountManaged p = length (filter (\<lambda>r. rt_Owner r = OwnerRiftRoute) (fk_routesV4 p @ fk_routesV6 p))"

definition drop_default :: "fake \<Rightarrow> route list" where
  "drop_default p = (case indexOfCIDR FamilyV4 ''0.0.0.0/0'' p of Some i \<Rightarrow> remove_at i (fk_routesV4 p) | None \<Rightarrow> fk_routesV4 p)"

definition SetVPN :: "bool \<Rightarrow> fake \<Rightarrow> fake" where
  "SetVPN up p =
     p\<lparr>fk_ifaces := map (\<lambda>i. if if_Name i = ''utun3'' then i\<lparr>if_Up := up\<rparr> else i) (fk_ifaces p),
       fk_routesV4 :=
         (if up then fake_route ''0.0.0.0/0'' ''10.8.0.1'' ''utun3'' FamilyV4 OwnerVPN # drop_default p
          else drop_default p @ [fake_route ''0.0.0.0/0'' ''192.168.1.1'' ''en0'' FamilyV4 OwnerSystem])\<rparr>"

definition PurgeIface :: "string \<Rightarrow> fake \<Rightarrow> fake" where
  "PurgeIface name p =
     p\<lparr>fk_routesV4 := filter (\<lambda>r. rt_Iface r \<noteq> name) (fk_routesV4 p), fk_routesV6 := filter (\<lambda>r. rt_Iface r \<noteq> name) (fk_routesV6 p)\<rparr>"

definition SetPhysGateway :: "family \<Rightarrow> addr \<Rightarrow> string \<Rightarrow> fake \<Rightarrow> fake" where
  "SetPhysGateway fam gw ifc p = p\<lparr>fk_physGW := (fk_physGW p)(fam \<mapsto> gw), fk_physIface := ifc\<rparr>"

definition SetDNS :: "string list \<Rightarrow> fake \<Rightarrow> fake" where
  "SetDNS ss p = p\<lparr>fk_dns := (fk_dns p)\<lparr>dn_Servers := ss\<rparr>\<rparr>"

definition drop_iface :: "string \<Rightarrow> iface list \<Rightarrow> iface list" where
  "drop_iface name is = (case index_where (\<lambda>i. if_Name i = name) is of Some i \<Rightarrow> remove_at i is | None \<Rightarrow> is)"

definition SetTunnelIface :: "string \<Rightarrow> string \<Rightarrow> bool \<Rightarrow> fake \<Rightarrow> fake" where
  "SetTunnelIface name ad up p =
     (let is = drop_iface name (fk_ifaces p)
      in p\<lparr>fk_ifaces := (if up then is @ [\<lparr>if_Name = name, if_Up = True, if_Kind = IfaceKindUtun, if_Addrs = [ad @ ''/24''], if_MTU = 0, if_IsVPN = True\<rparr>] else is)\<rparr>)"

definition ListTable :: "family \<Rightarrow> string \<Rightarrow> fake \<Rightarrow> route list" where
  "ListTable fam table p = filter (\<lambda>r. rt_Family r = fam) (fk_tables p table)"

definition tailscale_entry :: "string \<Rightarrow> route" where
  "tailscale_entry dst = (fake_route dst [] ''tailscale0'' FamilyV4 OwnerVPN)\<lparr>rt_Table := ''52''\<rparr>"

definition SetTailscale :: "bool \<Rightarrow> bool \<Rightarrow> fake \<Rightarrow> fake" where
  "SetTailscale up exitNode p =
     (let is = drop_iface ''tailscale0'' (fk_ifaces p)
      in if \<not> up then p\<lparr>fk_ifaces := is, fk_tables := (fk_tables p)(''52'' := [])\<rparr>
         else p\<lparr>fk_ifaces := is @ [\<lparr>if_Name = ''tailscale0'', if_Up = True, if_Kind = IfaceKindOther, if_Addrs = [''100.101.2.3/32''], if_MTU = 1280, if_IsVPN = False\<rparr>],
                fk_tables := (fk_tables p)(''52'' := map tailscale_entry ([''100.88.0.4/32'', ''100.100.100.100/32'', ''10.20.0.0/16'']
                  @ (if exitNode then [''0.0.0.0/0''] else [])))\<rparr>)"

section \<open>The in-memory provider keeps the contract\<close>

subsection \<open>Removing by index\<close>

lemma index_where_None: "index_where Q xs = None \<longleftrightarrow> (\<forall>x \<in> set xs. \<not> Q x)"
  by (induction xs) auto

lemma index_where_Some: "index_where Q xs = Some i \<Longrightarrow> i < length xs \<and> Q (xs ! i)"
  by (induction xs arbitrary: i) (auto split: if_splits)

lemma remove_at_mset: "i < length xs \<Longrightarrow> mset (remove_at i xs) = mset xs - {#xs ! i#}"
proof -
  assume i: "i < length xs"
  have "mset xs = mset (take i xs @ xs ! i # drop (Suc i) xs)" using id_take_nth_drop[OF i] by simp
  also have "\<dots> = add_mset (xs ! i) (mset (remove_at i xs))" by (simp add: remove_at_def)
  finally show ?thesis by simp
qed

lemma remove_at_sub: "set (remove_at i xs) \<subseteq> set xs"
  by (auto simp: remove_at_def dest: in_set_takeD in_set_dropD)

lemma map_remove_at: "map f (remove_at i xs) = remove_at i (map f xs)"
  by (simp add: remove_at_def take_map drop_map)

lemma distinct_remove_at: "distinct xs \<Longrightarrow> distinct (remove_at i xs)"
  unfolding remove_at_def by (auto simp: set_take_disj_set_drop_if_distinct)

subsection \<open>Soundness and the view\<close>

type_synonym identity = "string \<times> string \<times> string \<times> string \<times> bool"

definition ident :: "route \<Rightarrow> identity" where
  "ident r = (rt_DstCIDR r, rt_Gateway r, rt_Iface r, rt_Table r, rt_Reject r)"

lemma same_identity_ident: "same_identity r s \<longleftrightarrow> ident r = ident s"
  by (simp add: same_identity_def ident_def)

lemma fake_routeKey_RouteKey: "fake_routeKey r = RouteKey r"
  by (simp add: fake_routeKey_def RouteKey_def)

definition fake_sound :: "fake \<Rightarrow> bool" where
  "fake_sound p \<longleftrightarrow> distinct (map ident (fk_routesV4 p)) \<and> distinct (map ident (fk_routesV6 p))"

text \<open>The order of a table is not part of what an undone operation restores.\<close>

definition fake_view :: "fake \<Rightarrow> fake \<times> route multiset \<times> route multiset \<times> policy_rule multiset" where
  "fake_view p = (p\<lparr>fk_routesV4 := [], fk_routesV6 := [], fk_rules := []\<rparr>, mset (fk_routesV4 p), mset (fk_routesV6 p), mset (fk_rules p))"

definition rules_like :: "policy_rule \<Rightarrow> fake \<Rightarrow> policy_rule set" where
  "rules_like r p = {x \<in> set (fk_rules p). same_rule_identity x r}"

definition fake_clean :: "plan_op \<Rightarrow> fake \<Rightarrow> bool" where
  "fake_clean op p =
     (case (po_Kind op, po_Route op, po_Rule op) of
        (OpAddRoute, Some r, _) \<Rightarrow>
          ident (mr_Route r) \<notin> ident ` set (fk_table (rt_Family (mr_Route r)) p)
          \<and> RouteKey (mr_Route r) \<notin> fk_managedKey p \<and> rt_DstCIDR (mr_Route r) \<notin> fk_failDel p
      | (OpDelRoute, Some r, _) \<Rightarrow>
          fake_stamp r \<in> set (fk_table (rt_Family (mr_Route r)) p)
          \<and> (RouteKey (mr_Route r) \<in> fk_managedKey p \<longleftrightarrow> mr_ProfileID r \<noteq> []) \<and> rt_DstCIDR (mr_Route r) \<notin> fk_failAdd p
      | (OpAddRule, _, Some r) \<Rightarrow> rules_like (ml_Rule r) p = {}
      | (OpDelRule, _, Some r) \<Rightarrow> rules_like (ml_Rule r) p = {rule_stamp r}
      | _ \<Rightarrow> False)"

lemma stamp_simps [simp]:
  "ident (fake_stamp r) = ident (mr_Route r)" "RouteKey (fake_stamp r) = RouteKey (mr_Route r)"
  "rt_Family (fake_stamp r) = rt_Family (mr_Route r)"
  by (simp_all add: fake_stamp_def ident_def RouteKey_def Let_def)

lemma ident_upd [simp]:
  "ident (r\<lparr>rt_Owner := x\<rparr>) = ident r" "ident (r\<lparr>rt_Proto := y\<rparr>) = ident r" "ident (r\<lparr>rt_Profile := z\<rparr>) = ident r"
  "RouteKey (r\<lparr>rt_Owner := x\<rparr>) = RouteKey r" "RouteKey (r\<lparr>rt_Proto := y\<rparr>) = RouteKey r" "RouteKey (r\<lparr>rt_Profile := z\<rparr>) = RouteKey r"
  by (simp_all add: ident_def RouteKey_def)

lemma table_simps [simp]:
  "fk_table fam (set_table fam rs p) = rs"
  "fk_table fam (p\<lparr>fk_managedKey := m\<rparr>) = fk_table fam p" "fk_table fam (p\<lparr>fk_rules := rl\<rparr>) = fk_table fam p"
  "fk_managedKey (set_table fam rs p) = fk_managedKey p" "fk_failAdd (set_table fam rs p) = fk_failAdd p"
  "fk_failDel (set_table fam rs p) = fk_failDel p" "fk_rules (set_table fam rs p) = fk_rules p"
  by (simp_all add: set_table_def fk_table_def)

lemma sound_table: "fake_sound p \<Longrightarrow> distinct (map ident (fk_table fam p))"
  by (simp add: fake_sound_def fk_table_def)

lemma sound_set_table: "fake_sound p \<Longrightarrow> distinct (map ident rs) \<Longrightarrow> fake_sound (set_table fam rs p)"
  by (simp add: fake_sound_def set_table_def)

lemma sound_upd [simp]:
  "fake_sound (p\<lparr>fk_managedKey := m\<rparr>) = fake_sound p" "fake_sound (p\<lparr>fk_rules := rl\<rparr>) = fake_sound p"
  by (simp_all add: fake_sound_def)

lemma indexOf_None: "indexOf rt p = None \<longleftrightarrow> ident rt \<notin> ident ` set (fk_table (rt_Family rt) p)"
  by (simp add: indexOf_def index_where_None same_identity_ident image_iff) metis

lemma indexOf_Some: "indexOf rt p = Some i \<Longrightarrow> i < length (fk_table (rt_Family rt) p) \<and> ident (fk_table (rt_Family rt) p ! i) = ident rt"
  using index_where_Some[of "\<lambda>r. same_identity r rt"] by (auto simp: indexOf_def same_identity_ident)

lemma sound_append: "fake_sound p \<Longrightarrow> indexOf rt p = None \<Longrightarrow> fake_sound (appendRoute rt p)"
  using sound_table[of p "rt_Family rt"] by (auto simp: appendRoute_def indexOf_None intro!: sound_set_table)

lemma sound_remove: "fake_sound p \<Longrightarrow> fake_sound (removeRoute fam i p)"
  using sound_table[of p fam] by (auto simp: removeRoute_def map_remove_at intro!: sound_set_table distinct_remove_at)

lemma fake_do_sound:
  assumes "fake_sound p" shows "fake_sound (snd (exec_do fake_provider op p))"
  using assms sound_append[OF assms] sound_remove[OF assms]
  by (auto simp: exec_do_def lift_error_def fake_provider_def fake_AddRoute_def fake_DelRoute_def fake_AddRule_def fake_DelRule_def
    own_key_def disown_def Let_def split: op_kind.splits option.splits)

lemma fake_do_refused: "exec_do fake_provider op p = (Some e, p') \<Longrightarrow> p' = p"
  by (auto simp: exec_do_def lift_error_def fake_provider_def fake_AddRoute_def fake_DelRoute_def fake_AddRule_def fake_DelRule_def
    Let_def split: op_kind.splits option.splits if_splits)

subsection \<open>Undoing an operation\<close>

definition fake_rest :: "fake \<Rightarrow> fake" where
  "fake_rest p = p\<lparr>fk_routesV4 := [], fk_routesV6 := [], fk_rules := []\<rparr>"

lemma view_iff:
  "fake_view p = fake_view q \<longleftrightarrow> fake_rest p = fake_rest q
     \<and> (\<forall>fam. mset (fk_table fam p) = mset (fk_table fam q)) \<and> mset (fk_rules p) = mset (fk_rules q)"
proof -
  have "(\<forall>fam. mset (fk_table fam p) = mset (fk_table fam q))
      \<longleftrightarrow> mset (fk_routesV4 p) = mset (fk_routesV4 q) \<and> mset (fk_routesV6 p) = mset (fk_routesV6 q)" (is "?l \<longleftrightarrow> ?r")
  proof
    assume ?l
    from this[rule_format, of FamilyV4] this[rule_format, of FamilyV6] show ?r by (simp add: fk_table_def)
  qed (simp add: fk_table_def)
  then show ?thesis unfolding fake_view_def fake_rest_def prod.inject by blast
qed

lemma rest_simps [simp]:
  "fake_rest (set_table fam rs p) = fake_rest p" "fake_rest (p\<lparr>fk_rules := rl\<rparr>) = fake_rest p"
  "fake_rest (p\<lparr>fk_managedKey := m\<rparr>) = (fake_rest p)\<lparr>fk_managedKey := m\<rparr>"
  by (simp_all add: fake_rest_def set_table_def)

lemma rest_fields: "fake_rest p = fake_rest q \<Longrightarrow> fk_managedKey p = fk_managedKey q \<and> fk_failAdd p = fk_failAdd q \<and> fk_failDel p = fk_failDel q"
  by (cases p, cases q) (simp add: fake_rest_def)

lemma rest_managed: "fk_managedKey p = m \<Longrightarrow> (fake_rest p)\<lparr>fk_managedKey := m\<rparr> = fake_rest p"
  by (cases p) (simp add: fake_rest_def)

lemma table_other: "fk_table fam' (set_table fam rs p) = (if (fam' = FamilyV6) = (fam = FamilyV6) then rs else fk_table fam' p)"
  by (simp add: set_table_def fk_table_def)

lemma table_same: "(fam' = FamilyV6) = (fam = FamilyV6) \<Longrightarrow> fk_table fam' p = fk_table fam p"
  by (simp add: fk_table_def)

text \<open>In a sound state the route an index finds is the only one of its identity.\<close>

lemma removed_is:
  assumes "fake_sound p" "x \<in> set (fk_table (rt_Family rt) p)" "ident x = ident rt"
  obtains i where "indexOf rt p = Some i" "mset (remove_at i (fk_table (rt_Family rt) p)) = mset (fk_table (rt_Family rt) p) - {#x#}"
proof -
  let ?t = "fk_table (rt_Family rt) p"
  have "ident rt \<in> ident ` set ?t" using assms(2,3) by (metis image_eqI)
  then obtain i where i: "indexOf rt p = Some i" using indexOf_None[of rt p] by fastforce
  have n: "i < length ?t" "ident (?t ! i) = ident rt" using indexOf_Some[OF i] by auto
  have "inj_on ident (set ?t)" using sound_table[OF assms(1)] by (simp add: distinct_map)
  then have "?t ! i = x" using n assms(2,3) nth_mem[OF n(1)] by (metis inj_onD)
  then show ?thesis using that[OF i] remove_at_mset[OF n(1)] by simp
qed

lemma del_route_sound:
  assumes "fake_sound p" "fake_stamp r \<in> set (fk_table (rt_Family (mr_Route r)) p)"
    and "RouteKey (mr_Route r) \<in> fk_managedKey p \<longleftrightarrow> mr_ProfileID r \<noteq> []" "rt_DstCIDR (mr_Route r) \<notin> fk_failDel p"
  obtains rs where "mset rs = mset (fk_table (rt_Family (mr_Route r)) p) - {#fake_stamp r#}"
    "fake_DelRoute r p = (None, (set_table (rt_Family (mr_Route r)) rs p)\<lparr>fk_managedKey := fk_managedKey p - {RouteKey (mr_Route r)}\<rparr>)"
proof (cases "mr_ProfileID r = []")
  case True
  obtain i where i: "indexOf (mr_Route r) p = Some i"
      "mset (remove_at i (fk_table (rt_Family (mr_Route r)) p)) = mset (fk_table (rt_Family (mr_Route r)) p) - {#fake_stamp r#}"
    by (rule removed_is[of p "fake_stamp r" "mr_Route r"]) (use assms in simp_all)
  show ?thesis
    by (rule that[OF i(2)]) (use assms(4) True i(1) in \<open>simp add: fake_DelRoute_def disown_def removeRoute_def fake_routeKey_RouteKey Let_def\<close>)
next
  case False
  let ?rt = "(mr_Route r)\<lparr>rt_Owner := OwnerRiftRoute, rt_Proto := ''riftroute'', rt_Profile := mr_ProfileID r\<rparr>"
  obtain i where i: "indexOf ?rt p = Some i"
      "mset (remove_at i (fk_table (rt_Family ?rt) p)) = mset (fk_table (rt_Family ?rt) p) - {#fake_stamp r#}"
    by (rule removed_is[of p "fake_stamp r" ?rt]) (use assms in simp_all)
  show ?thesis
    by (rule that[of "remove_at i (fk_table (rt_Family ?rt) p)"])
      (use assms(3,4) False i in \<open>simp_all add: fake_DelRoute_def disown_def removeRoute_def fake_routeKey_RouteKey Let_def\<close>)
qed

lemma add_route_absent:
  assumes "ident (mr_Route r) \<notin> ident ` set (fk_table (rt_Family (mr_Route r)) p)" "rt_DstCIDR (mr_Route r) \<notin> fk_failAdd p"
  shows "fake_AddRoute r p = (None, (set_table (rt_Family (mr_Route r)) (fk_table (rt_Family (mr_Route r)) p @ [fake_stamp r]) p)
    \<lparr>fk_managedKey := (if mr_ProfileID r \<noteq> [] then insert (RouteKey (mr_Route r)) (fk_managedKey p) else fk_managedKey p)\<rparr>)"
  using assms indexOf_None[of "fake_stamp r" p]
  by (cases p) (simp add: fake_AddRoute_def own_key_def appendRoute_def fake_routeKey_RouteKey Let_def set_table_def)

lemma add_route_undone:
  assumes s: "fake_sound p" "fake_sound q"
    and c: "ident (mr_Route r) \<notin> ident ` set (fk_table (rt_Family (mr_Route r)) p)" "RouteKey (mr_Route r) \<notin> fk_managedKey p"
      "rt_DstCIDR (mr_Route r) \<notin> fk_failDel p"
    and d: "fake_AddRoute r p = (None, p1)" "fake_view q = fake_view p1"
  shows "fake_view (snd (fake_DelRoute r q)) = fake_view p"
proof -
  let ?f = "rt_Family (mr_Route r)" and ?k = "RouteKey (mr_Route r)"
  have "rt_DstCIDR (mr_Route r) \<notin> fk_failAdd p" using d(1) by (auto simp: fake_AddRoute_def split: if_splits)
  from add_route_absent[OF c(1) this] d(1)
  have p1: "p1 = (set_table ?f (fk_table ?f p @ [fake_stamp r]) p)
    \<lparr>fk_managedKey := (if mr_ProfileID r \<noteq> [] then insert ?k (fk_managedKey p) else fk_managedKey p)\<rparr>" by simp
  have v: "fake_rest q = fake_rest p1" "\<And>fam. mset (fk_table fam q) = mset (fk_table fam p1)" "mset (fk_rules q) = mset (fk_rules p1)"
    using d(2) unfolding view_iff by blast+
  have q: "fk_managedKey q = fk_managedKey p1" "fk_failDel q = fk_failDel p" using rest_fields[OF v(1)] by (auto simp: p1)
  have "fake_stamp r \<in> set (fk_table ?f q)" using v(2)[of ?f] mset_eq_setD[OF v(2)[of ?f]] by (simp add: p1)
  moreover have "?k \<in> fk_managedKey q \<longleftrightarrow> mr_ProfileID r \<noteq> []" using c(2) by (simp add: q p1)
  ultimately obtain rs where rs: "mset rs = mset (fk_table ?f q) - {#fake_stamp r#}"
      "fake_DelRoute r q = (None, (set_table ?f rs q)\<lparr>fk_managedKey := fk_managedKey q - {?k}\<rparr>)"
    using del_route_sound[OF s(2)] c(3) q(2) by metis
  have "mset rs = mset (fk_table ?f p)" using rs(1) v(2)[of ?f] by (simp add: p1)
  then have "mset (fk_table fam (set_table ?f rs q)) = mset (fk_table fam p)" for fam
    using v(2)[of fam] table_same[of fam ?f p] by (simp add: table_other p1)
  moreover have "fk_managedKey q - {?k} = fk_managedKey p" using c(2) by (simp add: q p1)
  ultimately show ?thesis using v(1,3) rest_managed[of p, OF refl]
    unfolding rs(2) view_iff by (simp add: p1)
qed

lemma del_route_undone:
  assumes s: "fake_sound p" "fake_sound q"
    and c: "fake_stamp r \<in> set (fk_table (rt_Family (mr_Route r)) p)" "RouteKey (mr_Route r) \<in> fk_managedKey p \<longleftrightarrow> mr_ProfileID r \<noteq> []"
      "rt_DstCIDR (mr_Route r) \<notin> fk_failAdd p"
    and d: "fake_DelRoute r p = (None, p1)" "fake_view q = fake_view p1"
  shows "fake_view (snd (fake_AddRoute r q)) = fake_view p"
proof -
  let ?f = "rt_Family (mr_Route r)" and ?k = "RouteKey (mr_Route r)"
  have "rt_DstCIDR (mr_Route r) \<notin> fk_failDel p" using d(1) by (auto simp: fake_DelRoute_def split: if_splits)
  from del_route_sound[OF s(1) c(1,2) this] obtain rs where rs: "mset rs = mset (fk_table ?f p) - {#fake_stamp r#}"
    "fake_DelRoute r p = (None, (set_table ?f rs p)\<lparr>fk_managedKey := fk_managedKey p - {?k}\<rparr>)" by blast
  then have p1: "p1 = (set_table ?f rs p)\<lparr>fk_managedKey := fk_managedKey p - {?k}\<rparr>" using d(1) by simp
  have v: "fake_rest q = fake_rest p1" "\<And>fam. mset (fk_table fam q) = mset (fk_table fam p1)" "mset (fk_rules q) = mset (fk_rules p1)"
    using d(2) unfolding view_iff by blast+
  have q: "fk_managedKey q = fk_managedKey p1" "fk_failAdd q = fk_failAdd p" using rest_fields[OF v(1)] by (auto simp: p1)
  have add: "add_mset (fake_stamp r) (mset (fk_table ?f q)) = mset (fk_table ?f p)" using c(1) rs(1) v(2)[of ?f] by (simp add: p1)
  then have "mset (map ident (fake_stamp r # fk_table ?f q)) = mset (map ident (fk_table ?f p))" by (metis mset.simps(2) mset_map)
  then have "distinct (map ident (fake_stamp r # fk_table ?f q))" using sound_table[OF s(1)] mset_eq_imp_distinct_iff by blast
  then have "ident (mr_Route r) \<notin> ident ` set (fk_table ?f q)" by simp
  from add_route_absent[OF this] c(3) q(2) have a: "fake_AddRoute r q = (None, (set_table ?f (fk_table ?f q @ [fake_stamp r]) q)
    \<lparr>fk_managedKey := (if mr_ProfileID r \<noteq> [] then insert ?k (fk_managedKey q) else fk_managedKey q)\<rparr>)" by simp
  have "(if mr_ProfileID r \<noteq> [] then insert ?k (fk_managedKey q) else fk_managedKey q) = fk_managedKey p"
    using c(2) by (auto simp: q p1)
  moreover have "mset (fk_table fam (set_table ?f (fk_table ?f q @ [fake_stamp r]) q)) = mset (fk_table fam p)" for fam
    using v(2)[of fam] add table_same[of fam ?f p] by (simp add: table_other p1)
  ultimately show ?thesis using v(1,3) rest_managed[of p, OF refl] unfolding a view_iff by (simp add: p1)
qed

lemma rule_index:
  assumes "rules_like (ml_Rule r) p = {x}"
  obtains i where "index_where (\<lambda>pr. same_rule_identity pr (ml_Rule r)) (fk_rules p) = Some i" "i < length (fk_rules p)" "fk_rules p ! i = x"
proof -
  have "\<not> (\<forall>y \<in> set (fk_rules p). \<not> same_rule_identity y (ml_Rule r))" using assms unfolding rules_like_def by blast
  then obtain i where i: "index_where (\<lambda>pr. same_rule_identity pr (ml_Rule r)) (fk_rules p) = Some i"
    using index_where_None by fastforce
  from index_where_Some[OF i] have "fk_rules p ! i \<in> rules_like (ml_Rule r) p" "i < length (fk_rules p)" by (auto simp: rules_like_def)
  then show ?thesis using that[OF i] assms by simp
qed

lemma del_rule_like:
  assumes "rules_like (ml_Rule r) p = {x}"
  obtains rl where "mset rl = mset (fk_rules p) - {#x#}" "fake_DelRule r p = (None, p\<lparr>fk_rules := rl\<rparr>)"
proof -
  obtain i where i: "index_where (\<lambda>pr. same_rule_identity pr (ml_Rule r)) (fk_rules p) = Some i" "i < length (fk_rules p)" "fk_rules p ! i = x"
    using assms by (rule rule_index)
  show ?thesis by (rule that[of "remove_at i (fk_rules p)"]) (use i in \<open>simp_all add: fake_DelRule_def remove_at_mset\<close>)
qed

lemma same_rule_stamp [simp]: "same_rule_identity (rule_stamp r) (ml_Rule r)"
  by (simp add: same_rule_identity_def rule_stamp_def)

lemma rules_like_view: "mset (fk_rules p) = mset rs \<Longrightarrow> rules_like r p = {x \<in> set rs. same_rule_identity x r}"
  by (auto simp: rules_like_def dest: mset_eq_setD)

lemma add_rule_undone:
  assumes "rules_like (ml_Rule r) p = {}" "fake_AddRule r p = (None, p1)" "fake_view q = fake_view p1"
  shows "fake_view (snd (fake_DelRule r q)) = fake_view p"
proof -
  have v: "fake_rest q = fake_rest p1" "\<And>fam. mset (fk_table fam q) = mset (fk_table fam p1)" "mset (fk_rules q) = mset (fk_rules p1)"
    using assms(3) unfolding view_iff by blast+
  have p1: "p1 = p\<lparr>fk_rules := sort_key pr_Priority (fk_rules p @ [rule_stamp r])\<rparr>" using assms(2) by (simp add: fake_AddRule_def)
  then have m: "mset (fk_rules q) = mset (rule_stamp r # fk_rules p)" using v(3) by simp
  have "rules_like (ml_Rule r) q = {rule_stamp r}" using assms(1) unfolding rules_like_view[OF m] by (auto simp: rules_like_def)
  then obtain rl where "mset rl = mset (fk_rules q) - {#rule_stamp r#}" "fake_DelRule r q = (None, q\<lparr>fk_rules := rl\<rparr>)" by (rule del_rule_like)
  moreover have "mset (fk_table fam q) = mset (fk_table fam p)" for fam using v(2)[of fam] unfolding p1 by simp
  ultimately show ?thesis using v(1) m unfolding view_iff by (simp add: p1)
qed

lemma del_rule_undone:
  assumes "rules_like (ml_Rule r) p = {rule_stamp r}" "fake_DelRule r p = (None, p1)" "fake_view q = fake_view p1"
  shows "fake_view (snd (fake_AddRule r q)) = fake_view p"
proof -
  have v: "fake_rest q = fake_rest p1" "\<And>fam. mset (fk_table fam q) = mset (fk_table fam p1)" "mset (fk_rules q) = mset (fk_rules p1)"
    using assms(3) unfolding view_iff by blast+
  obtain rl where rl: "mset rl = mset (fk_rules p) - {#rule_stamp r#}" "fake_DelRule r p = (None, p\<lparr>fk_rules := rl\<rparr>)"
    using assms(1) by (rule del_rule_like)
  have "rule_stamp r \<in> set (fk_rules p)" using assms(1) by (auto simp: rules_like_def)
  then have "add_mset (rule_stamp r) (mset rl) = mset (fk_rules p)" using rl(1) by simp
  moreover have p1: "p1 = p\<lparr>fk_rules := rl\<rparr>" using rl(2) assms(2) by simp
  moreover have "mset (fk_table fam q) = mset (fk_table fam p)" for fam using v(2)[of fam] unfolding p1 by simp
  ultimately show ?thesis using v(1,3) unfolding view_iff by (simp add: fake_AddRule_def)
qed

lemma exec_do_kinds:
  "po_Kind op = OpAddRoute \<Longrightarrow> po_Route op = Some r \<Longrightarrow> exec_do fake_provider op p = lift_error (fake_AddRoute r p)"
  "po_Kind op = OpDelRoute \<Longrightarrow> po_Route op = Some r \<Longrightarrow> exec_do fake_provider op p = lift_error (fake_DelRoute r p)"
  "po_Kind op = OpAddRule \<Longrightarrow> po_Rule op = Some l \<Longrightarrow> exec_do fake_provider op p = lift_error (fake_AddRule l p)"
  "po_Kind op = OpDelRule \<Longrightarrow> po_Rule op = Some l \<Longrightarrow> exec_do fake_provider op p = lift_error (fake_DelRule l p)"
  by (simp_all add: exec_do_def fake_provider_def)

lemma inverse_fields:
  "po_Kind op = OpAddRoute \<Longrightarrow> po_Kind (inverseOp op) = OpDelRoute" "po_Kind op = OpDelRoute \<Longrightarrow> po_Kind (inverseOp op) = OpAddRoute"
  "po_Kind op = OpAddRule \<Longrightarrow> po_Kind (inverseOp op) = OpDelRule" "po_Kind op = OpDelRule \<Longrightarrow> po_Kind (inverseOp op) = OpAddRule"
  "po_Route (inverseOp op) = po_Route op" "po_Rule (inverseOp op) = po_Rule op"
  by (simp_all add: inverseOp_def split: op_kind.splits)

lemma lift_error_None: "lift_error x = (None, k) \<longleftrightarrow> x = (None, k)" "snd (lift_error x) = snd x"
  by (cases x; simp add: lift_error_def)+

lemma fake_clean_cases:
  assumes "fake_clean op p"
  obtains (add) r where "po_Kind op = OpAddRoute" "po_Route op = Some r" "ident (mr_Route r) \<notin> ident ` set (fk_table (rt_Family (mr_Route r)) p)"
      "RouteKey (mr_Route r) \<notin> fk_managedKey p" "rt_DstCIDR (mr_Route r) \<notin> fk_failDel p"
    | (del) r where "po_Kind op = OpDelRoute" "po_Route op = Some r" "fake_stamp r \<in> set (fk_table (rt_Family (mr_Route r)) p)"
      "RouteKey (mr_Route r) \<in> fk_managedKey p \<longleftrightarrow> mr_ProfileID r \<noteq> []" "rt_DstCIDR (mr_Route r) \<notin> fk_failAdd p"
    | (add_rule) l where "po_Kind op = OpAddRule" "po_Rule op = Some l" "rules_like (ml_Rule l) p = {}"
    | (del_rule) l where "po_Kind op = OpDelRule" "po_Rule op = Some l" "rules_like (ml_Rule l) p = {rule_stamp l}"
  using assms by (simp add: fake_clean_def split: op_kind.splits option.splits)

lemma fake_do_undone:
  assumes a: "fake_sound k" "fake_clean op k" "exec_do fake_provider op k = (None, k1)" "fake_sound k'" "fake_view k' = fake_view k1"
  shows "fake_view (snd (exec_do fake_provider (inverseOp op) k')) = fake_view k"
  using a(2)
proof (cases rule: fake_clean_cases)
  case (add r)
  have "fake_AddRoute r k = (None, k1)" using a(3) unfolding exec_do_kinds(1)[OF add(1,2)] lift_error_None .
  from add_route_undone[OF a(1,4) add(3-5) this a(5)] show ?thesis
    by (simp add: exec_do_kinds(2)[of _ r] inverse_fields add lift_error_None)
next
  case (del r)
  have "fake_DelRoute r k = (None, k1)" using a(3) unfolding exec_do_kinds(2)[OF del(1,2)] lift_error_None .
  from del_route_undone[OF a(1,4) del(3-5) this a(5)] show ?thesis
    by (simp add: exec_do_kinds(1)[of _ r] inverse_fields del lift_error_None)
next
  case (add_rule l)
  have "fake_AddRule l k = (None, k1)" using a(3) unfolding exec_do_kinds(3)[OF add_rule(1,2)] lift_error_None .
  from add_rule_undone[OF add_rule(3) this a(5)] show ?thesis
    by (simp add: exec_do_kinds(4)[of _ l] inverse_fields add_rule lift_error_None)
next
  case (del_rule l)
  have "fake_DelRule l k = (None, k1)" using a(3) unfolding exec_do_kinds(4)[OF del_rule(1,2)] lift_error_None .
  from del_rule_undone[OF del_rule(3) this a(5)] show ?thesis
    by (simp add: exec_do_kinds(3)[of _ l] inverse_fields del_rule lift_error_None)
qed

interpretation fakep: route_provider fake_provider fake_view fake_sound fake_clean
proof
  fix k op assume "fake_sound k"
  then show "fake_sound (snd (exec_do fake_provider op k))" by (rule fake_do_sound)
next
  fix k op e k' assume "exec_do fake_provider op k = (Some e, k')"
  from fake_do_refused[OF this] show "fake_view k' = fake_view k" by simp
next
  fix k op k1 k'
  assume "fake_sound k" "fake_clean op k" "exec_do fake_provider op k = (None, k1)" "fake_sound k'" "fake_view k' = fake_view k1"
  then show "fake_view (snd (exec_do fake_provider (inverseOp op) k')) = fake_view k" by (rule fake_do_undone)
qed

section \<open>Lookups and the simulator\<close>

lemma contains_is4: "contains pfx a \<Longrightarrow> is4 (pfx_addr pfx) = is4 a"
  by (cases "pfx_addr pfx"; cases a) (auto simp: contains_def)

lemma lookup_scan_eq: "lookup_scan dst rs best b = sim_scan dst rs best b"
  by (induction rs arbitrary: best b) (auto simp: sim_better_def contains_is4 split: option.splits)

definition demo_add :: "string \<Rightarrow> plan_op" where
  "demo_add dst = makeRouteOp OpAddRoute
     \<lparr>mr_Route = route0\<lparr>rt_DstCIDR := dst, rt_Gateway := ''192.168.1.1'', rt_Iface := ''en0'', rt_Family := FamilyV4\<rparr>,
      mr_ProfileID = ''work'', mr_CreatedAt = 0\<rparr> ''linux''"

section \<open>Properties\<close>



text \<open>
  C35.  The answer of the in-memory kernel to a lookup is the simulator's decision on the routes it
  lists, so the two never drift apart.
\<close>

theorem fake_LookupRoute_simulated:
  "\<exists>routes. fake_ListRoutes (if is6 dst then FamilyV6 else FamilyV4) p = Inr routes
     \<and> fake_LookupRoute dst p = Inr ((Simulate routes dst (Some (ifaceIsVPN (fk_ifaces p))))\<lparr>rd_Source := ''kernel''\<rparr>)"
  by (auto simp: fake_ListRoutes_def fake_LookupRoute_def Simulate_def decision0_def decide_route_def lookup_scan_eq Let_def
    split: option.splits)

end
