(* ===== verification/Store.thy ===== *)
theory Store
  imports Plans
begin

text \<open>
  The database (\<^verbatim>\<open>internal/store/store.go\<close>) with the records it keeps (\<^verbatim>\<open>internal/domain/audit.go\<close>,
  \<^verbatim>\<open>internal/domain/prefs.go\<close>): its tables as lists of rows, each statement as the function it computes.
  Errors of the database file itself (the disk, the driver) are not modelled; broken constraints and
  documents that do not decode are.
\<close>

section \<open>Records\<close>

record snapshot =
  sn_ID :: string
  sn_CreatedAt :: time
  sn_Reason :: string
  sn_RoutesV4 :: "route list"
  sn_RoutesV6 :: "route list"
  sn_Rules :: "policy_rule list"
  sn_Defaults :: "default_route list"
  sn_DNS :: dns_state
  sn_Profiles :: "profile list option"
  sn_Restorable :: bool
  sn_Format :: int

record apply_timing =
  tm_TotalMS :: int
  tm_WaitMS :: int
  tm_BuildMS :: int
  tm_CheckMS :: int
  tm_ExecMS :: int

type_synonym actor = string

abbreviation ActorDaemon :: actor where "ActorDaemon \<equiv> ''daemon-auto''"

record audit_event =
  ae_ID :: int
  ae_TS :: "time option"
  ae_Actor :: actor
  ae_Action :: string
  ae_Profile :: string
  ae_Plan :: "plan option"
  ae_Result :: string
  ae_Rollback :: bool
  ae_Reason :: string
  ae_Codes :: "string list"
  ae_Timing :: "apply_timing option"

type_synonym update_mode = string
type_synonym telemetry_level = string

abbreviation UpdateAuto :: update_mode where "UpdateAuto \<equiv> ''auto''"
abbreviation UpdateNotify :: update_mode where "UpdateNotify \<equiv> ''notify''"
abbreviation UpdateOff :: update_mode where "UpdateOff \<equiv> ''off''"
abbreviation TelemetryFull :: telemetry_level where "TelemetryFull \<equiv> ''full''"
abbreviation TelemetryBasic :: telemetry_level where "TelemetryBasic \<equiv> ''basic''"
abbreviation TelemetryOff :: telemetry_level where "TelemetryOff \<equiv> ''off''"

definition UpdateMode_Valid :: "update_mode \<Rightarrow> bool" where
  "UpdateMode_Valid m \<longleftrightarrow> m = UpdateAuto \<or> m = UpdateNotify \<or> m = UpdateOff"

definition TelemetryLevel_Valid :: "telemetry_level \<Rightarrow> bool" where
  "TelemetryLevel_Valid l \<longleftrightarrow> l = TelemetryFull \<or> l = TelemetryBasic \<or> l = TelemetryOff"

record preferences =
  pf_Updates :: update_mode
  pf_Telemetry :: telemetry_level

record preferences_patch =
  pp_Updates :: "update_mode option"
  pp_Telemetry :: "telemetry_level option"

definition DefaultPreferences :: preferences where
  "DefaultPreferences = \<lparr>pf_Updates = UpdateAuto, pf_Telemetry = TelemetryFull\<rparr>"

section \<open>The tables\<close>

text \<open>
  A document column holds the JSON text of a value, or text that does not decode into one.
  \<open>format\<close> is the journal's format column, \<open>None\<close> when it holds no integer.
\<close>

datatype 'a doc = Doc 'a | Garbled

record profile_row =
  pw_id :: string
  pw_name :: string
  pw_enabled :: int
  pw_priority :: int
  pw_doc :: "profile doc"

record snapshot_row =
  sw_id :: string
  sw_created :: string
  sw_reason :: string
  sw_doc :: "snapshot doc"

type_synonym owner_key = "string \<times> string \<times> string \<times> string"

record owned_row =
  ow_key :: owner_key
  ow_profile :: string
  ow_created :: string
  ow_doc :: "managed_route doc"

record pending_row =
  pn_id :: string
  pn_format :: "int option"
  pn_doc :: "plan doc"

record audit_row =
  aw_id :: int
  aw_ts :: string
  aw_doc :: "audit_event doc"

record store =
  st_settings :: "string \<rightharpoonup> string"
  st_profiles :: "profile_row list"
  st_lists :: "(string \<times> rule_list doc) list"
  st_snapshots :: "snapshot_row list"
  st_ownership :: "owned_row list"
  st_pending :: "pending_row list"
  st_audit :: "audit_row list"
  st_audit_seq :: int

datatype store_error = NotFound | UniqueViolation | Undecodable | InvalidUpdateMode string | InvalidTelemetryLevel string
  | InvalidPreferences | PendingUnreadable "string list"

fun docs :: "'a doc list \<Rightarrow> store_error + 'a list" where
  "docs [] = Inr []"
| "docs (Garbled # ds) = Inl Undecodable"
| "docs (Doc x # ds) = (case docs ds of Inl e \<Rightarrow> Inl e | Inr xs \<Rightarrow> Inr (x # xs))"

definition undoc :: "'a doc \<Rightarrow> store_error + 'a" where
  "undoc d = (case d of Doc x \<Rightarrow> Inr x | Garbled \<Rightarrow> Inl Undecodable)"

text \<open>\<^verbatim>\<open>INSERT ... ON CONFLICT DO UPDATE\<close>: the row with the key is updated in place, else one is added.\<close>

fun upsert :: "('r \<Rightarrow> 'k) \<Rightarrow> ('r \<Rightarrow> 'r) \<Rightarrow> 'r \<Rightarrow> 'r list \<Rightarrow> 'r list" where
  "upsert key upd r [] = [r]"
| "upsert key upd r (x # xs) = (if key x = key r then upd x # xs else x # upsert key upd r xs)"

section \<open>Settings\<close>

definition GetSetting :: "string \<Rightarrow> store \<Rightarrow> string option" where
  "GetSetting key s = st_settings s key"

definition SetSetting :: "string \<Rightarrow> string \<Rightarrow> store \<Rightarrow> store" where
  "SetSetting key val s = s\<lparr>st_settings := (st_settings s)(key \<mapsto> val)\<rparr>"

section \<open>Profiles\<close>

definition ListProfiles :: "store \<Rightarrow> store_error + profile list" where
  "ListProfiles s = docs (map pw_doc (sort_key (\<lambda>r. (pw_priority r, pw_name r)) (st_profiles s)))"

definition GetProfile :: "string \<Rightarrow> store \<Rightarrow> store_error + profile" where
  "GetProfile name s = (case find (\<lambda>r. pw_name r = name) (st_profiles s) of None \<Rightarrow> Inl NotFound | Some r \<Rightarrow> undoc (pw_doc r))"

definition profile_row_of :: "profile \<Rightarrow> profile_row" where
  "profile_row_of p = \<lparr>pw_id = pf_ID p, pw_name = pf_Name p, pw_enabled = (if pf_Enabled p then 1 else 0), pw_priority = pf_Priority p, pw_doc = Doc p\<rparr>"

definition UpsertProfile :: "profile \<Rightarrow> store \<Rightarrow> store_error option \<times> store" where
  "UpsertProfile p s =
     (if \<exists>r \<in> set (st_profiles s). pw_name r = pf_Name p \<and> pw_id r \<noteq> pf_ID p then (Some UniqueViolation, s)
      else (None, s\<lparr>st_profiles := upsert pw_id (\<lambda>_. profile_row_of p) (profile_row_of p) (st_profiles s)\<rparr>))"

definition SetProfileEnabled :: "string \<Rightarrow> bool \<Rightarrow> store \<Rightarrow> store_error option \<times> store" where
  "SetProfileEnabled name on s =
     (case GetProfile name s of Inl e \<Rightarrow> (Some e, s) | Inr p \<Rightarrow> UpsertProfile (p\<lparr>pf_Enabled := on\<rparr>) s)"

definition DeleteProfile :: "string \<Rightarrow> store \<Rightarrow> store" where
  "DeleteProfile name s = s\<lparr>st_profiles := filter (\<lambda>r. pw_name r \<noteq> name) (st_profiles s)\<rparr>"

section \<open>Lists\<close>

definition ListLists :: "store \<Rightarrow> store_error + rule_list list" where
  "ListLists s = docs (map snd (sort_key fst (st_lists s)))"

definition GetList :: "string \<Rightarrow> store \<Rightarrow> store_error + rule_list" where
  "GetList name s = (case map_of (st_lists s) name of None \<Rightarrow> Inl NotFound | Some d \<Rightarrow> undoc d)"

definition UpsertList :: "rule_list \<Rightarrow> store \<Rightarrow> store" where
  "UpsertList l s = s\<lparr>st_lists := upsert fst (\<lambda>_. (li_Name l, Doc l)) (li_Name l, Doc l) (st_lists s)\<rparr>"

definition DeleteList :: "string \<Rightarrow> store \<Rightarrow> store" where
  "DeleteList name s = s\<lparr>st_lists := filter (\<lambda>r. fst r \<noteq> name) (st_lists s)\<rparr>"

section \<open>Preferences\<close>

abbreviation updatesModeKey :: string where "updatesModeKey \<equiv> ''updates_mode''"
abbreviation telemetryLevelKey :: string where "telemetryLevelKey \<equiv> ''telemetry_level''"

definition LoadPreferences :: "store \<Rightarrow> preferences" where
  "LoadPreferences s =
     \<lparr>pf_Updates = (case GetSetting updatesModeKey s of None \<Rightarrow> pf_Updates DefaultPreferences
        | Some m \<Rightarrow> if UpdateMode_Valid m then m else UpdateNotify),
      pf_Telemetry = (case GetSetting telemetryLevelKey s of None \<Rightarrow> pf_Telemetry DefaultPreferences
        | Some l \<Rightarrow> if TelemetryLevel_Valid l then l else TelemetryOff)\<rparr>"

definition ConservativePreferences :: preferences where
  "ConservativePreferences = \<lparr>pf_Updates = UpdateNotify, pf_Telemetry = TelemetryOff\<rparr>"

definition SavePreferencesPatch :: "preferences_patch \<Rightarrow> store \<Rightarrow> store_error option \<times> store" where
  "SavePreferencesPatch patch s =
     (case pp_Updates patch of
        Some m \<Rightarrow> if \<not> UpdateMode_Valid m then (Some (InvalidUpdateMode m), s)
          else let s = SetSetting updatesModeKey m s
            in (case pp_Telemetry patch of
                  Some l \<Rightarrow> if \<not> TelemetryLevel_Valid l then (Some (InvalidTelemetryLevel l), s) else (None, SetSetting telemetryLevelKey l s)
                | None \<Rightarrow> (None, s))
      | None \<Rightarrow>
          (case pp_Telemetry patch of
             Some l \<Rightarrow> if \<not> TelemetryLevel_Valid l then (Some (InvalidTelemetryLevel l), s) else (None, SetSetting telemetryLevelKey l s)
           | None \<Rightarrow> (None, s)))"

definition SavePreferences :: "preferences \<Rightarrow> store \<Rightarrow> store_error option \<times> store" where
  "SavePreferences p s =
     (if \<not> UpdateMode_Valid (pf_Updates p) \<or> \<not> TelemetryLevel_Valid (pf_Telemetry p) then (Some InvalidPreferences, s)
      else (None, SetSetting telemetryLevelKey (pf_Telemetry p) (SetSetting updatesModeKey (pf_Updates p) s)))"

section \<open>Audit\<close>

text \<open>
  \<open>rfc\<close> writes a time as \<^verbatim>\<open>time.RFC3339Nano\<close> does in the zone the time carries, \<open>None\<close> being the zero
  time; \<open>now\<close> is the reading of the clock.
\<close>

definition AppendAudit :: "(time option \<Rightarrow> string) \<Rightarrow> time \<Rightarrow> audit_event \<Rightarrow> store \<Rightarrow> int \<times> store" where
  "AppendAudit rfc now ev s =
     (let ev = (if ae_TS ev = None then ev\<lparr>ae_TS := Some now\<rparr> else ev);
          n = st_audit_seq s + 1
      in (n, s\<lparr>st_audit := st_audit s @ [\<lparr>aw_id = n, aw_ts = rfc (ae_TS ev), aw_doc = Doc ev\<rparr>], st_audit_seq := n\<rparr>))"

definition audit_limit :: "int \<Rightarrow> int \<Rightarrow> nat" where
  "audit_limit cap limit = nat (if limit \<le> 0 then cap else limit)"

definition audit_docs :: "audit_row list \<Rightarrow> store_error + audit_event list" where
  "audit_docs rs = map_sum id (map (\<lambda>(n, ev). ev\<lparr>ae_ID := n\<rparr>) \<circ> zip (map aw_id rs)) (docs (map aw_doc rs))"

definition ListAudit :: "(time option \<Rightarrow> string) \<Rightarrow> time option \<Rightarrow> int \<Rightarrow> store \<Rightarrow> store_error + audit_event list" where
  "ListAudit rfc since limit s =
     audit_docs (take (audit_limit 200 limit) (rev (sort_key aw_id (filter (\<lambda>r. rfc since \<le> aw_ts r) (st_audit s)))))"

definition AuditAfter :: "int \<Rightarrow> int \<Rightarrow> store \<Rightarrow> store_error + audit_event list \<times> int" where
  "AuditAfter after limit s =
     (let rs = take (audit_limit 5000 limit) (sort_key aw_id (filter (\<lambda>r. aw_id r > after) (st_audit s)))
      in map_sum id (\<lambda>evs. (evs, if rs = [] then after else aw_id (last rs))) (audit_docs rs))"

definition LatestAuditID :: "store \<Rightarrow> int" where
  "LatestAuditID s = (case st_audit s of [] \<Rightarrow> 0 | r # rs \<Rightarrow> foldl max (aw_id r) (map aw_id rs))"

section \<open>Snapshots\<close>

abbreviation (input) WALFormat :: int where "WALFormat \<equiv> 1"
abbreviation (input) SnapshotFormat :: int where "SnapshotFormat \<equiv> 1"

definition SaveSnapshot :: "(time option \<Rightarrow> string) \<Rightarrow> snapshot \<Rightarrow> store \<Rightarrow> store" where
  "SaveSnapshot rfc snap s =
     (let snap = (if sn_Format snap = 0 then snap\<lparr>sn_Format := SnapshotFormat\<rparr> else snap);
          row = \<lparr>sw_id = sn_ID snap, sw_created = rfc (Some (sn_CreatedAt snap)), sw_reason = sn_Reason snap, sw_doc = Doc snap\<rparr>
      in s\<lparr>st_snapshots := upsert sw_id (\<lambda>r. r\<lparr>sw_doc := Doc snap\<rparr>) row (st_snapshots s)\<rparr>)"

definition newest_first :: "snapshot_row list \<Rightarrow> snapshot_row list" where
  "newest_first rs = rev (sort_key sw_created (rev rs))"

definition ListSnapshots :: "store \<Rightarrow> store_error + snapshot list" where
  "ListSnapshots s = docs (map sw_doc (newest_first (st_snapshots s)))"

definition PruneSnapshots :: "int \<Rightarrow> store \<Rightarrow> store" where
  "PruneSnapshots keep s =
     (if keep \<le> 0 then s
      else let ids = map sw_id (take (nat keep) (newest_first (st_snapshots s)))
        in s\<lparr>st_snapshots := filter (\<lambda>r. sw_id r \<in> set ids) (st_snapshots s)\<rparr>)"

definition GetSnapshot :: "string \<Rightarrow> store \<Rightarrow> store_error + snapshot" where
  "GetSnapshot sid s = (case find (\<lambda>r. sw_id r = sid) (st_snapshots s) of None \<Rightarrow> Inl NotFound | Some r \<Rightarrow> undoc (sw_doc r))"

section \<open>Ownership\<close>

definition owner_key :: "managed_route \<Rightarrow> owner_key" where
  "owner_key r = (rt_Family (mr_Route r), rt_DstCIDR (mr_Route r), rt_Gateway (mr_Route r), rt_Iface (mr_Route r))"

definition ListOwned :: "store \<Rightarrow> store_error + managed_route list" where
  "ListOwned s = docs (map ow_doc (sort_key ow_created (st_ownership s)))"

definition AddOwned :: "(time option \<Rightarrow> string) \<Rightarrow> managed_route \<Rightarrow> store \<Rightarrow> store" where
  "AddOwned rfc r s =
     s\<lparr>st_ownership := upsert ow_key (\<lambda>o'. o'\<lparr>ow_profile := mr_ProfileID r, ow_doc := Doc r\<rparr>)
        \<lparr>ow_key = owner_key r, ow_profile = mr_ProfileID r, ow_created = rfc (Some (mr_CreatedAt r)), ow_doc = Doc r\<rparr> (st_ownership s)\<rparr>"

definition DelOwned :: "managed_route \<Rightarrow> store \<Rightarrow> store" where
  "DelOwned r s = s\<lparr>st_ownership := filter (\<lambda>o'. ow_key o' \<noteq> owner_key r) (st_ownership s)\<rparr>"

definition ClearOwned :: "store \<Rightarrow> store" where
  "ClearOwned s = s\<lparr>st_ownership := []\<rparr>"

section \<open>The journal\<close>

definition PutPendingTx :: "string \<Rightarrow> plan \<Rightarrow> store \<Rightarrow> store" where
  "PutPendingTx tx pl s =
     s\<lparr>st_pending := upsert pn_id (\<lambda>r. r\<lparr>pn_doc := Doc pl, pn_format := Some WALFormat\<rparr>)
        \<lparr>pn_id = tx, pn_format = Some WALFormat, pn_doc = Doc pl\<rparr> (st_pending s)\<rparr>"

definition ClearPendingTx :: "string \<Rightarrow> store \<Rightarrow> store" where
  "ClearPendingTx tx s = s\<lparr>st_pending := filter (\<lambda>r. pn_id r \<noteq> tx) (st_pending s)\<rparr>"

definition readable :: "pending_row \<Rightarrow> plan option" where
  "readable r = (case pn_format r of None \<Rightarrow> None
     | Some f \<Rightarrow> if f > WALFormat then None else (case pn_doc r of Doc pl \<Rightarrow> Some pl | Garbled \<Rightarrow> None))"

definition ListPendingTx :: "store \<Rightarrow> (string \<times> plan) list \<times> store_error option" where
  "ListPendingTx s =
     (let bad = map pn_id (filter (\<lambda>r. readable r = None) (st_pending s))
      in (List.map_filter (\<lambda>r. map_option (Pair (pn_id r)) (readable r)) (st_pending s), if bad = [] then None else Some (PendingUnreadable bad)))"

section \<open>Facts\<close>

lemma in_upsert: "x \<in> set (upsert key upd r xs) \<Longrightarrow> x \<in> set xs \<or> x = r \<or> (\<exists>y \<in> set xs. key y = key r \<and> x = upd y)"
  by (induction xs) (auto split: if_splits)

lemma upsert_keys:
  assumes "\<And>x. key x = key r \<Longrightarrow> key (upd x) = key r"
  shows "key ` set (upsert key upd r xs) = insert (key r) (key ` set xs)"
  using assms by (induction xs) (auto split: if_splits)

lemma upsert_distinct:
  assumes "\<And>x. key x = key r \<Longrightarrow> key (upd x) = key r"
  shows "distinct (map key xs) \<Longrightarrow> distinct (map key (upsert key upd r xs))"
proof (induction xs)
  case (Cons x xs)
  have "key ` set (upsert key upd r xs) = insert (key r) (key ` set xs)" by (rule upsert_keys) (rule assms)
  then show ?case using Cons assms by (auto simp: image_iff)
qed simp

lemma upsert_other: "key x \<noteq> key r \<Longrightarrow> (\<And>y. key y = key r \<Longrightarrow> key (upd y) = key r) \<Longrightarrow> x \<in> set (upsert key upd r xs) \<longleftrightarrow> x \<in> set xs"
proof (induction xs)
  case (Cons y ys)
  then show ?case by (cases "key y = key r") auto
qed auto

lemma docs_decoded: "docs (map Doc xs) = Inr xs"
  by (induction xs) simp_all

text \<open>
  The invariant of the tables: primary keys are unique, every document decodes into a value with
  the key of its row, and a profile's name is unique.
\<close>

definition store_ok :: "store \<Rightarrow> bool" where
  "store_ok s \<longleftrightarrow>
     distinct (map pw_id (st_profiles s)) \<and> distinct (map pw_name (st_profiles s)) \<and> distinct (map fst (st_lists s))
     \<and> distinct (map sw_id (st_snapshots s)) \<and> distinct (map ow_key (st_ownership s)) \<and> distinct (map pn_id (st_pending s))
     \<and> distinct (map aw_id (st_audit s))
     \<and> (\<forall>r \<in> set (st_profiles s). \<exists>p. r = profile_row_of p)
     \<and> (\<forall>r \<in> set (st_ownership s). \<exists>m. ow_doc r = Doc m \<and> ow_key r = owner_key m)
     \<and> (\<forall>r \<in> set (st_audit s). aw_id r \<le> st_audit_seq s)"

definition owned_of :: "store \<Rightarrow> managed_route set" where
  "owned_of s = {m. Doc m \<in> ow_doc ` set (st_ownership s)}"

lemma ListOwned_ok:
  assumes "store_ok s"
  obtains ms where "ListOwned s = Inr ms" "set ms = owned_of s" "distinct (map owner_key ms)"
proof -
  let ?rs = "sort_key ow_created (st_ownership s)"
  define un where "un r = (case ow_doc r of Doc m \<Rightarrow> m | Garbled \<Rightarrow> undefined)" for r :: owned_row
  have un: "ow_doc r = Doc (un r) \<and> owner_key (un r) = ow_key r" if "r \<in> set (st_ownership s)" for r
    using assms that by (auto simp: store_ok_def un_def)
  have m: "map ow_doc ?rs = map Doc (map un ?rs)" using un by simp
  have "set (map un ?rs) = owned_of s" using un by (auto simp: owned_of_def image_iff)
  moreover have "map owner_key (map un ?rs) = map ow_key ?rs" using un by simp
  moreover have "distinct (map ow_key ?rs)"
  proof -
    have "distinct (map ow_key (st_ownership s))" using assms by (simp add: store_ok_def)
    then show ?thesis by (simp add: distinct_map)
  qed
  moreover have "ListOwned s = Inr (map un ?rs)" unfolding ListOwned_def m docs_decoded ..
  ultimately show ?thesis using that[of "map un ?rs"] by metis
qed

lemma store_ok_AddOwned:
  assumes "store_ok s" shows "store_ok (AddOwned rfc m s)"
proof -
  let ?row = "\<lparr>ow_key = owner_key m, ow_profile = mr_ProfileID m, ow_created = rfc (Some (mr_CreatedAt m)), ow_doc = Doc m\<rparr>"
    and ?upd = "\<lambda>o'. o'\<lparr>ow_profile := mr_ProfileID m, ow_doc := Doc m\<rparr>"
  have "distinct (map ow_key (upsert ow_key ?upd ?row (st_ownership s)))"
    by (rule upsert_distinct) (use assms in \<open>simp_all add: store_ok_def\<close>)
  moreover have "\<exists>m. ow_doc r = Doc m \<and> ow_key r = owner_key m" if "r \<in> set (upsert ow_key ?upd ?row (st_ownership s))" for r
    using in_upsert[OF that] assms by (auto simp: store_ok_def)
  ultimately show ?thesis using assms by (simp add: store_ok_def AddOwned_def)
qed

lemma owned_AddOwned:
  assumes "store_ok s"
  shows "owned_of (AddOwned rfc m s) = insert m {o' \<in> owned_of s. owner_key o' \<noteq> owner_key m}"
proof -
  let ?row = "\<lparr>ow_key = owner_key m, ow_profile = mr_ProfileID m, ow_created = rfc (Some (mr_CreatedAt m)), ow_doc = Doc m\<rparr>"
    and ?upd = "\<lambda>o'. o'\<lparr>ow_profile := mr_ProfileID m, ow_doc := Doc m\<rparr>"
  let ?rs = "upsert ow_key ?upd ?row (st_ownership s)"
  have other: "r \<in> set ?rs \<longleftrightarrow> r \<in> set (st_ownership s)" if "ow_key r \<noteq> owner_key m" for r
    by (rule upsert_other) (use that in simp_all)
  have key: "ow_doc r = Doc n \<Longrightarrow> ow_key r = owner_key n" if "r \<in> set (st_ownership s)" for r n
    using assms that by (auto simp: store_ok_def)
  have same: "ow_doc r = Doc m" if "r \<in> set ?rs" "ow_key r = owner_key m" for r
  proof -
    have d: "distinct (map ow_key ?rs)" by (rule upsert_distinct) (use assms in \<open>simp_all add: store_ok_def\<close>)
    have "\<exists>x \<in> set ?rs. ow_key x = owner_key m \<and> ow_doc x = Doc m" for rs
    proof -
      have "\<exists>x \<in> set (upsert ow_key ?upd ?row rs). ow_key x = owner_key m \<and> ow_doc x = Doc m" for rs
        by (induction rs) auto
      then show ?thesis by blast
    qed
    then obtain x where "x \<in> set ?rs" "ow_key x = owner_key m" "ow_doc x = Doc m" by blast
    with distinct_key_eq[OF d that(1), of x] that(2) show ?thesis by simp
  qed
  have has: "\<exists>x \<in> set ?rs. ow_key x = owner_key m"
  proof -
    have "owner_key m \<in> ow_key ` set ?rs" using upsert_keys[of ow_key ?row ?upd "st_ownership s"] by auto
    then show ?thesis by auto
  qed
  show ?thesis
  proof (intro set_eqI iffI)
    fix n assume "n \<in> owned_of (AddOwned rfc m s)"
    then obtain r where r: "r \<in> set ?rs" "ow_doc r = Doc n" by (auto simp: owned_of_def AddOwned_def)
    show "n \<in> insert m {o' \<in> owned_of s. owner_key o' \<noteq> owner_key m}"
    proof (cases "ow_key r = owner_key m")
      case True then show ?thesis using same[OF r(1)] r(2) by simp
    next
      case False
      then have "r \<in> set (st_ownership s)" using other r(1) by simp
      then have "owner_key n \<noteq> owner_key m" "n \<in> owned_of s" using key r(2) False by (auto simp: owned_of_def image_iff intro: bexI[of _ r])
      then show ?thesis by simp
    qed
  next
    fix n assume "n \<in> insert m {o' \<in> owned_of s. owner_key o' \<noteq> owner_key m}"
    then consider "n = m" | "n \<in> owned_of s" "owner_key n \<noteq> owner_key m" by blast
    then show "n \<in> owned_of (AddOwned rfc m s)"
    proof cases
      case 1
      obtain x where "x \<in> set ?rs" "ow_key x = owner_key m" using has by blast
      then have "Doc m \<in> ow_doc ` set ?rs" using same by (metis image_eqI)
      then show ?thesis using 1 by (simp add: owned_of_def AddOwned_def)
    next
      case 2
      then obtain r where r: "r \<in> set (st_ownership s)" "ow_doc r = Doc n" by (auto simp: owned_of_def)
      then have "r \<in> set ?rs" using other key 2(2) by metis
      then have "Doc n \<in> ow_doc ` set ?rs" using r(2) by (metis image_eqI)
      then show ?thesis by (simp add: owned_of_def AddOwned_def)
    qed
  qed
qed

lemma store_ok_DelOwned: "store_ok s \<Longrightarrow> store_ok (DelOwned m s)"
  by (auto simp: store_ok_def DelOwned_def distinct_map_filter)

lemma owned_DelOwned:
  assumes "store_ok s"
  shows "owned_of (DelOwned m s) = {o' \<in> owned_of s. owner_key o' \<noteq> owner_key m}"
proof -
  have "ow_key r \<noteq> owner_key m \<longleftrightarrow> owner_key n \<noteq> owner_key m" if "r \<in> set (st_ownership s)" "ow_doc r = Doc n" for r n
    using assms that by (auto simp: store_ok_def)
  then have "(\<exists>r \<in> set (st_ownership s). ow_key r \<noteq> owner_key m \<and> Doc n = ow_doc r)
      \<longleftrightarrow> (\<exists>r \<in> set (st_ownership s). Doc n = ow_doc r) \<and> owner_key n \<noteq> owner_key m" for n by metis
  then show ?thesis by (simp add: owned_of_def DelOwned_def image_iff Bex_def conj_assoc)
qed

lemma owned_ClearOwned [simp]: "owned_of (ClearOwned s) = {}" "store_ok s \<Longrightarrow> store_ok (ClearOwned s)"
  by (simp_all add: owned_of_def ClearOwned_def store_ok_def)

text \<open>Snapshots are kept to the bound.\<close>

lemma length_filter_ids:
  assumes "distinct (map f xs)" shows "length (filter (\<lambda>x. f x \<in> set ks) xs) \<le> length ks"
proof -
  have "length (filter (\<lambda>x. f x \<in> set ks) xs) = card (set (map f (filter (\<lambda>x. f x \<in> set ks) xs)))"
    using distinct_card[of "map f (filter (\<lambda>x. f x \<in> set ks) xs)"] assms by (simp add: distinct_map_filter)
  also have "\<dots> \<le> card (set ks)" by (rule card_mono) auto
  also have "\<dots> \<le> length ks" by (rule card_length)
  finally show ?thesis .
qed

lemma PruneSnapshots_bound:
  assumes "distinct (map sw_id (st_snapshots s))" "keep > 0"
  shows "length (st_snapshots (PruneSnapshots keep s)) \<le> nat keep"
proof -
  let ?ids = "map sw_id (take (nat keep) (newest_first (st_snapshots s)))"
  have "length (filter (\<lambda>r. sw_id r \<in> set ?ids) (st_snapshots s)) \<le> length ?ids" using length_filter_ids[OF assms(1)] .
  also have "\<dots> \<le> nat keep" by simp
  finally show ?thesis using assms(2) by (simp add: PruneSnapshots_def Let_def)
qed

end
