(* ===== verification/Safety.thy ===== *)
theory Safety
  imports Fake Store
begin

text \<open>
  The parts of \<^verbatim>\<open>internal/safety\<close> the apply protocol is built from: snapshots, the watchdog, the
  guardrails, panic and the timing of an apply, over any provider and store.  The properties are
  about the in-memory provider and the database.
\<close>

section \<open>The persistence the protocol uses\<close>

record ('s, 'f) store_ops =
  so_AddOwned :: "managed_route \<Rightarrow> 's \<Rightarrow> 'f option \<times> 's"
  so_DelOwned :: "managed_route \<Rightarrow> 's \<Rightarrow> 'f option \<times> 's"
  so_ListOwned :: "'s \<Rightarrow> 'f + managed_route list"
  so_ClearOwned :: "'s \<Rightarrow> 'f option \<times> 's"
  so_SaveSnapshot :: "snapshot \<Rightarrow> 's \<Rightarrow> 'f option \<times> 's"
  so_PruneSnapshots :: "int \<Rightarrow> 's \<Rightarrow> 'f option \<times> 's"
  so_ListProfiles :: "'s \<Rightarrow> 'f + profile list"
  so_AppendAudit :: "audit_event \<Rightarrow> 's \<Rightarrow> 'f option \<times> 's"
  so_PutPendingTx :: "string \<Rightarrow> plan \<Rightarrow> 's \<Rightarrow> 'f option \<times> 's"
  so_ClearPendingTx :: "string \<Rightarrow> 's \<Rightarrow> 'f option \<times> 's"
  so_ListPendingTx :: "'s \<Rightarrow> (string \<times> plan) list option \<times> 'f option"

text \<open>The database as an instance.\<close>

definition sql_store :: "(time option \<Rightarrow> string) \<Rightarrow> time \<Rightarrow> (store, store_error) store_ops" where
  "sql_store rfc now =
     \<lparr>so_AddOwned = (\<lambda>r s. (None, AddOwned rfc r s)), so_DelOwned = (\<lambda>r s. (None, DelOwned r s)), so_ListOwned = ListOwned,
      so_ClearOwned = (\<lambda>s. (None, ClearOwned s)), so_SaveSnapshot = (\<lambda>x s. (None, SaveSnapshot rfc x s)),
      so_PruneSnapshots = (\<lambda>n s. (None, PruneSnapshots n s)), so_ListProfiles = ListProfiles,
      so_AppendAudit = (\<lambda>ev s. (None, snd (AppendAudit rfc now ev s))), so_PutPendingTx = (\<lambda>i pl s. (None, PutPendingTx i pl s)),
      so_ClearPendingTx = (\<lambda>i s. (None, ClearPendingTx i s)), so_ListPendingTx = (\<lambda>s. let (m, e) = ListPendingTx s in (Some m, e))\<rparr>"

section \<open>Snapshots\<close>

definition defaultFrom :: "route list \<Rightarrow> family \<Rightarrow> default_route" where
  "defaultFrom routes fam =
     (case find (\<lambda>r. rt_DstCIDR r = (if fam = FamilyV6 then ''::/0'' else ''0.0.0.0/0'')) routes of
        Some r \<Rightarrow> \<lparr>df_Family = fam, df_Present = True, df_Gateway = rt_Gateway r, df_Iface = rt_Iface r, df_Owner = rt_Owner r, df_ViaVPN = False\<rparr>
      | None \<Rightarrow> \<lparr>df_Family = fam, df_Present = False, df_Gateway = [], df_Iface = [], df_Owner = OwnerUnknown, df_ViaVPN = False\<rparr>)"

definition or_zero :: "'a \<Rightarrow> 'e + 'a \<Rightarrow> 'a" where
  "or_zero z x = (case x of Inl e \<Rightarrow> z | Inr v \<Rightarrow> v)"

definition Capture :: "('k, 'e) provider \<Rightarrow> string \<Rightarrow> string \<Rightarrow> time \<Rightarrow> 'k \<Rightarrow> 'e + snapshot" where
  "Capture P sid reason now k =
     (case pv_ListRoutes P FamilyV4 k of
        Inl e \<Rightarrow> Inl e
      | Inr v4 \<Rightarrow>
          let v6 = or_zero [] (pv_ListRoutes P FamilyV6 k);
              rules4 = or_zero [] (pv_ListRules P FamilyV4 k);
              rules6 = or_zero [] (pv_ListRules P FamilyV6 k);
              dns = or_zero \<lparr>dn_Servers = [], dn_SearchDomains = [], dn_Iface = []\<rparr> (pv_DNSConfig P k)
          in Inr \<lparr>sn_ID = sid, sn_CreatedAt = now, sn_Reason = reason, sn_RoutesV4 = v4, sn_RoutesV6 = v6, sn_Rules = rules4 @ rules6,
                  sn_Defaults = [defaultFrom v4 FamilyV4, defaultFrom v6 FamilyV6], sn_DNS = dns, sn_Profiles = None,
                  sn_Restorable = False, sn_Format = 0\<rparr>)"

section \<open>The watchdog\<close>

abbreviation CanaryAnchor :: string where "CanaryAnchor \<equiv> ''1.1.1.1''"

definition DefaultAnchors :: "addr \<Rightarrow> string list" where
  "DefaultAnchors physGW = (if addr_valid physGW then [addr_string physGW] else []) @ [CanaryAnchor]"

record watchdog =
  wd_anchors :: "string list"
  wd_k :: int
  wd_interval :: int

definition NewWatchdog :: "string list \<Rightarrow> int \<Rightarrow> int \<Rightarrow> watchdog" where
  "NewWatchdog anchors k interval = \<lparr>wd_anchors = anchors, wd_k = (if k < 1 then 1 else k), wd_interval = interval\<rparr>"

text \<open>
  What the loop's \<^verbatim>\<open>select\<close> yields, in order: the cancellation, or a tick, with the prober's answers at
  that tick.  A run ends by firing or by the cancellation, or is still watching after the events.
\<close>

datatype wd_event = Cancelled | Tick "string \<Rightarrow> bool"
datatype wd_outcome = Fired | Stopped | Watching int

definition allUnreachable :: "watchdog \<Rightarrow> (string \<Rightarrow> bool) \<Rightarrow> bool" where
  "allUnreachable w probe = (if wd_anchors w = [] then False else list_all (\<lambda>a. \<not> probe a) (wd_anchors w))"

fun wd_loop :: "watchdog \<Rightarrow> int \<Rightarrow> wd_event list \<Rightarrow> wd_outcome" where
  "wd_loop w consecutive [] = Watching consecutive"
| "wd_loop w consecutive (Cancelled # es) = Stopped"
| "wd_loop w consecutive (Tick probe # es) =
     (let consecutive = (if allUnreachable w probe then consecutive + 1 else 0)
      in if consecutive \<ge> wd_k w then Fired else wd_loop w consecutive es)"

definition watchdog_Run :: "watchdog \<Rightarrow> wd_event list \<Rightarrow> wd_outcome" where
  "watchdog_Run w es = wd_loop w 0 es"

section \<open>Guardrails\<close>

datatype violation = GatewayUnresolved | GatewayCapture string addr | BadGateway string | UnreachableNextHop string
  | NextHopViaVPN string | ConflictingRoute string string string | SSHPeer addr | KeepDefaultRoute family

fun violation_rule :: "violation \<Rightarrow> string" where
  "violation_rule GatewayUnresolved = ''gateway-unresolved''"
| "violation_rule (GatewayCapture dst gw) = ''gateway-capture''"
| "violation_rule (BadGateway gw) = ''bad-gateway''"
| "violation_rule (UnreachableNextHop gw) = ''unreachable-next-hop''"
| "violation_rule (NextHopViaVPN gw) = ''next-hop-via-vpn''"
| "violation_rule (ConflictingRoute dst a b) = ''conflicting-route''"
| "violation_rule (SSHPeer a) = ''ssh-peer''"
| "violation_rule (KeepDefaultRoute fam) = ''keep-default-route''"

definition sshPeer :: "string \<Rightarrow> addr" where
  "sshPeer env = (case Prelude.fields env of [] \<Rightarrow> AddrZero | f # fs \<Rightarrow> (case parse_addr f of Some a \<Rightarrow> a | None \<Rightarrow> AddrZero))"

definition plan_routes :: "plan \<Rightarrow> managed_route list" where
  "plan_routes pl = List.map_filter po_Route (pl_Ops pl)"

definition plan_added :: "plan \<Rightarrow> string set" where
  "plan_added pl = set (List.map_filter (\<lambda>op. case po_Route op of Some m \<Rightarrow> if po_Kind op = OpAddRoute then Some (RouteKey (mr_Route m)) else None | None \<Rightarrow> None) (pl_Ops pl))"

definition vetted :: "plan option \<Rightarrow> managed_route \<Rightarrow> bool" where
  "vetted vet d = (case vet of None \<Rightarrow> True | Some pl \<Rightarrow> RouteKey (mr_Route d) \<in> plan_added pl)"

definition main_captures :: "addr \<Rightarrow> managed_route list \<Rightarrow> string list" where
  "main_captures a ds = List.map_filter (\<lambda>d.
     if rt_Table (mr_Route d) \<noteq> [] then None
     else case parse_prefix (rt_DstCIDR (mr_Route d)) of
            None \<Rightarrow> None | Some pfx \<Rightarrow> if contains pfx a then Some (rt_DstCIDR (mr_Route d)) else None) ds"

fun next_hops :: "('k, 'e) provider \<Rightarrow> 'k \<Rightarrow> string set \<Rightarrow> managed_route list \<Rightarrow> violation list" where
  "next_hops P k seen [] = []"
| "next_hops P k seen (d # ds) =
     (let gw = rt_Gateway (mr_Route d)
      in if rt_Table (mr_Route d) \<noteq> [] then next_hops P k seen ds
         else if gw = [] \<or> gw \<in> seen then next_hops P k seen ds
         else (case parse_addr gw of
                 None \<Rightarrow> [BadGateway gw]
               | Some a \<Rightarrow>
                   (case pv_LookupRoute P a k of
                      Inl e \<Rightarrow> []
                    | Inr dec \<Rightarrow> if \<not> rd_Reachable dec then [UnreachableNextHop gw]
                        else if rd_ViaVPN dec then [NextHopViaVPN gw] else []))
              @ next_hops P k (insert gw seen) ds)"

definition dest_key :: "route \<Rightarrow> string" where
  "dest_key r = rt_Family r @ ''|'' @ rt_Table r @ ''|'' @ rt_DstCIDR r"

definition hop_key :: "route \<Rightarrow> string" where
  "hop_key r = (if rt_Reject r then ''reject'' else rt_Gateway r @ ''|'' @ rt_Iface r)"

fun hop_conflicts :: "(managed_route \<Rightarrow> bool) \<Rightarrow> (string \<rightharpoonup> string \<times> bool) \<Rightarrow> managed_route list \<Rightarrow> violation list" where
  "hop_conflicts vet nextHop [] = []"
| "hop_conflicts vet nextHop (d # ds) =
     (let k = dest_key (mr_Route d); nh = hop_key (mr_Route d)
      in case nextHop k of
           None \<Rightarrow> hop_conflicts vet (nextHop(k \<mapsto> (nh, vet d))) ds
         | Some (pnh, pv) \<Rightarrow>
             if pnh \<noteq> nh \<and> (pv \<or> vet d) then ConflictingRoute (rt_DstCIDR (mr_Route d)) pnh nh # hop_conflicts vet nextHop ds
             else hop_conflicts vet (nextHop(k \<mapsto> (pnh, pv \<or> vet d))) ds)"

definition checkGuardrails :: "('k, 'e) provider \<Rightarrow> string \<Rightarrow> managed_route list \<Rightarrow> plan option \<Rightarrow> addr \<Rightarrow> 'k \<Rightarrow> violation list" where
  "checkGuardrails P env all vet physGW k =
     (let changes = (case vet of None \<Rightarrow> all | Some pl \<Rightarrow> plan_routes pl);
          desired = filter (vetted vet) all;
          peer = sshPeer env
      in (if \<not> addr_valid physGW \<and> list_ex (\<lambda>d. rt_Table (mr_Route d) = []) changes then [GatewayUnresolved] else [])
         @ (if addr_valid physGW then map (\<lambda>dst. GatewayCapture dst physGW) (main_captures physGW desired) else [])
         @ next_hops P k {} desired
         @ hop_conflicts (vetted vet) Map.empty all
         @ (if addr_valid peer then map (\<lambda>dst. SSHPeer peer) (main_captures peer desired) else []))"

definition CheckGuardrails :: "('k, 'e) provider \<Rightarrow> string \<Rightarrow> managed_route list \<Rightarrow> addr \<Rightarrow> 'k \<Rightarrow> violation list" where
  "CheckGuardrails P env desired physGW k = checkGuardrails P env desired None physGW k"

section \<open>Panic\<close>

datatype ('e, 'f) panic_error = ClearFailed 'f | StillThere nat "'e option"

fun panic_deletes :: "('k, 'e) provider \<Rightarrow> managed_route list \<Rightarrow> 'k \<Rightarrow> managed_route list \<times> 'e option \<times> 'k" where
  "panic_deletes P [] k = ([], None, k)"
| "panic_deletes P (m # ms) k =
     (let (e, k) = pv_DelRoute P m k; (failed, firstErr, k) = panic_deletes P ms k
      in case e of None \<Rightarrow> (failed, firstErr, k) | Some d \<Rightarrow> (m # failed, Some d, k))"

definition stillInstalled :: "('k, 'e) provider \<Rightarrow> 'k \<Rightarrow> managed_route list \<Rightarrow> managed_route list" where
  "stillInstalled P k rs =
     (if rs = [] then []
      else case (pv_ListRoutes P FamilyV4 k, pv_ListRoutes P FamilyV6 k) of
             (Inr a, Inr b) \<Rightarrow> filter (\<lambda>r. Has (IndexInstalled (a @ b)) (mr_Route r)) rs
           | _ \<Rightarrow> rs)"

definition drop_unkept :: "('s, 'f) store_ops \<Rightarrow> string set \<Rightarrow> managed_route list \<Rightarrow> 's \<Rightarrow> 's" where
  "drop_unkept S keep owned s = foldl (\<lambda>s m. if RouteKey (mr_Route m) \<in> keep then s else snd (so_DelOwned S m s)) s owned"

definition Panic :: "('k, 'e) provider \<Rightarrow> ('s, 'f) store_ops option \<Rightarrow> 'k \<Rightarrow> 's \<Rightarrow> ('e, 'f) panic_error option \<times> 'k \<times> 's" where
  "Panic P S k s =
     (let owned = (case S of None \<Rightarrow> [] | Some S \<Rightarrow> (case so_ListOwned S s of Inl e \<Rightarrow> [] | Inr owned \<Rightarrow> owned));
          (failed, firstErr, k) = panic_deletes P owned k;
          k = snd (pv_FlushOwned P k)
      in case S of
           None \<Rightarrow> (None, k, s)
         | Some S \<Rightarrow>
             let failed = stillInstalled P k failed
             in if failed = [] then let (e, s) = so_ClearOwned S s in (map_option ClearFailed e, k, s)
                else (Some (StillThere (length failed) firstErr), k, drop_unkept S (set (map (\<lambda>m. RouteKey (mr_Route m)) failed)) owned s))"

section \<open>How long an apply took\<close>

record timing =
  ti_start :: time
  ti_locked :: "time option"
  ti_built :: "time option"
  ti_vetted :: "time option"
  ti_done :: "time option"

text \<open>\<^verbatim>\<open>Duration.Milliseconds\<close> truncates towards zero.\<close>

definition since_ms :: "time \<Rightarrow> time \<Rightarrow> int" where
  "since_ms t x = (if x \<ge> t then (x - t) div 1000000 else - ((t - x) div 1000000))"

definition timing_summary :: "timing option \<Rightarrow> apply_timing option" where
  "timing_summary t =
     (case t of None \<Rightarrow> None
      | Some t \<Rightarrow>
          (case ti_done t of None \<Rightarrow> None
           | Some fin \<Rightarrow>
               let at = (\<lambda>x prev. case x of None \<Rightarrow> prev | Some x \<Rightarrow> x);
                   locked = at (ti_locked t) (ti_start t);
                   built = at (ti_built t) locked;
                   vetd = at (ti_vetted t) built;
                   l = since_ms (ti_start t) locked; b = since_ms (ti_start t) built;
                   v = since_ms (ti_start t) vetd; d = since_ms (ti_start t) fin
               in Some \<lparr>tm_TotalMS = d, tm_WaitMS = l, tm_BuildMS = b - l, tm_CheckMS = v - b, tm_ExecMS = d - v\<rparr>))"

section \<open>When the watchdog fires\<close>

definition dead :: "watchdog \<Rightarrow> wd_event \<Rightarrow> bool" where
  "dead w e = (case e of Tick probe \<Rightarrow> allUnreachable w probe | Cancelled \<Rightarrow> False)"

definition is_tick :: "wd_event \<Rightarrow> bool" where
  "is_tick e = (case e of Tick _ \<Rightarrow> True | Cancelled \<Rightarrow> False)"

text \<open>The events begin with ticks, the last \<open>n\<close> of which found every anchor unreachable.\<close>

definition lost_after :: "watchdog \<Rightarrow> nat \<Rightarrow> wd_event list \<Rightarrow> bool" where
  "lost_after w n es \<longleftrightarrow> (\<exists>pre run rest. es = pre @ run @ rest \<and> list_all is_tick pre \<and> list_all (dead w) run \<and> length run = n)"

lemma dead_tick: "dead w e \<Longrightarrow> is_tick e"
  by (cases e) (simp_all add: dead_def is_tick_def)

lemma lost_after_0: "lost_after w 0 es"
  unfolding lost_after_def by (rule exI[of _ "[]"], rule exI[of _ "[]"]) simp

lemma lost_after_Cancelled: "lost_after w n (Cancelled # es) \<longleftrightarrow> n = 0"
proof
  assume "lost_after w n (Cancelled # es)"
  then obtain pre run rest where *: "Cancelled # es = pre @ run @ rest" "list_all is_tick pre" "list_all (dead w) run" "length run = n"
    unfolding lost_after_def by blast
  then have "pre = []" by (cases pre) (auto simp: is_tick_def)
  then show "n = 0" using * by (cases run) (auto simp: dead_def)
qed (simp add: lost_after_0)

lemma lost_after_Nil: "lost_after w n [] \<longleftrightarrow> n = 0"
  unfolding lost_after_def by auto

lemma lost_after_Tick:
  "lost_after w n (Tick p # es) \<longleftrightarrow> lost_after w n es
     \<or> (\<exists>run rest. Tick p # es = run @ rest \<and> list_all (dead w) run \<and> length run = n)"
proof
  assume "lost_after w n (Tick p # es)"
  then obtain pre run rest where *: "Tick p # es = pre @ run @ rest" "list_all is_tick pre" "list_all (dead w) run" "length run = n"
    unfolding lost_after_def by blast
  show "lost_after w n es \<or> (\<exists>run rest. Tick p # es = run @ rest \<and> list_all (dead w) run \<and> length run = n)"
  proof (cases pre)
    case Nil then show ?thesis using * by auto
  next
    case (Cons e pre')
    then have "es = pre' @ run @ rest" "list_all is_tick pre'" using * by auto
    then show ?thesis using * unfolding lost_after_def by blast
  qed
next
  assume "lost_after w n es \<or> (\<exists>run rest. Tick p # es = run @ rest \<and> list_all (dead w) run \<and> length run = n)"
  then show "lost_after w n (Tick p # es)"
  proof
    assume "lost_after w n es"
    then obtain pre run rest where *: "es = pre @ run @ rest" "list_all is_tick pre" "list_all (dead w) run" "length run = n"
      unfolding lost_after_def by blast
    then have "Tick p # es = (Tick p # pre) @ run @ rest" "list_all is_tick (Tick p # pre)" by (simp_all add: is_tick_def)
    then show ?thesis using * unfolding lost_after_def by blast
  next
    assume "\<exists>run rest. Tick p # es = run @ rest \<and> list_all (dead w) run \<and> length run = n"
    then have "\<exists>run rest. Tick p # es = [] @ run @ rest \<and> list_all is_tick [] \<and> list_all (dead w) run \<and> length run = n" by simp
    then show ?thesis unfolding lost_after_def by (rule exI)
  qed
qed

text \<open>The run of dead ticks the events begin with.\<close>

definition dead_run :: "watchdog \<Rightarrow> nat \<Rightarrow> wd_event list \<Rightarrow> bool" where
  "dead_run w n es \<longleftrightarrow> n \<le> length es \<and> list_all (dead w) (take n es)"

lemma dead_run_ex: "(\<exists>run rest. es = run @ rest \<and> list_all (dead w) run \<and> length run = n) \<longleftrightarrow> dead_run w n es"
proof
  assume "dead_run w n es"
  then show "\<exists>run rest. es = run @ rest \<and> list_all (dead w) run \<and> length run = n"
    by (intro exI[of _ "take n es"] exI[of _ "drop n es"]) (simp add: dead_run_def)
qed (auto simp: dead_run_def)

lemma dead_run_Tick: "dead_run w (Suc n) (Tick p # es) \<longleftrightarrow> allUnreachable w p \<and> dead_run w n es"
  by (auto simp: dead_run_def dead_def)

lemma dead_run_lost: "dead_run w n es \<Longrightarrow> lost_after w n es"
  unfolding dead_run_ex[symmetric] lost_after_def
  by (rule exI[of "\<lambda>pre. \<exists>run rest. es = pre @ run @ rest \<and> list_all is_tick pre \<and> list_all (dead w) run \<and> length run = n" "[]"]) simp

lemma wd_loop_Fired:
  assumes "wd_k w \<ge> 1" "0 \<le> c" "c < wd_k w"
  shows "wd_loop w c es = Fired \<longleftrightarrow> dead_run w (nat (wd_k w - c)) es \<or> lost_after w (nat (wd_k w)) es"
  using assms(2,3)
proof (induction es arbitrary: c)
  case Nil
  then show ?case using assms(1) by (auto simp: dead_run_def lost_after_Nil)
next
  case (Cons e es)
  show ?case
  proof (cases e)
    case Cancelled
    then show ?thesis using Cons.prems assms(1) by (cases "nat (wd_k w - c)") (auto simp: lost_after_Cancelled dead_run_def dead_def)
  next
    case (Tick p)
    obtain m where m: "nat (wd_k w - c) = Suc m" "m = nat (wd_k w - (c + 1))" using Cons.prems by (cases "nat (wd_k w - c)") auto
    obtain j where j: "nat (wd_k w) = Suc j" using assms(1) by (cases "nat (wd_k w)") auto
    have lost: "lost_after w (nat (wd_k w)) (e # es) \<longleftrightarrow> lost_after w (nat (wd_k w)) es \<or> dead_run w (nat (wd_k w)) (e # es)"
      unfolding Tick lost_after_Tick dead_run_ex ..
    show ?thesis
    proof (cases "allUnreachable w p")
      case False
      then have "wd_loop w c (e # es) = wd_loop w 0 es" using assms(1) by (simp add: Tick)
      moreover have "\<not> dead_run w (nat (wd_k w - c)) (e # es)" "\<not> dead_run w (nat (wd_k w)) (e # es)"
        using False by (simp_all add: m(1) j Tick dead_run_Tick)
      moreover have "wd_loop w 0 es = Fired \<longleftrightarrow> dead_run w (nat (wd_k w)) es \<or> lost_after w (nat (wd_k w)) es"
        using Cons.IH[of 0] assms(1) by simp
      ultimately show ?thesis using lost dead_run_lost[of w "nat (wd_k w)" es] by metis
    next
      case True
      have d: "dead_run w (nat (wd_k w - c)) (e # es) \<longleftrightarrow> dead_run w m es" using True by (simp add: m(1) Tick dead_run_Tick)
      have mono: "dead_run w n xs" if "dead_run w n' xs" "n \<le> n'" for n n' xs
        using that set_take_subset_set_take[OF that(2), of xs] unfolding dead_run_def list_all_iff by (meson order_trans subsetD)
      have "dead_run w (nat (wd_k w)) (e # es) \<Longrightarrow> dead_run w (nat (wd_k w - c)) (e # es)"
        using mono[of "nat (wd_k w)" "e # es" "nat (wd_k w - c)"] Cons.prems(1) by simp
      then have e: "?thesis \<longleftrightarrow> (wd_loop w c (e # es) = Fired \<longleftrightarrow> dead_run w m es \<or> lost_after w (nat (wd_k w)) es)"
        using lost d by blast
      show ?thesis
      proof (cases "c + 1 \<ge> wd_k w")
        case 2: True
        then have "m = 0" using m(2) by simp
        then show ?thesis unfolding e using 2 True by (simp add: Tick dead_run_def)
      next
        case 3: False
        then show ?thesis unfolding e using True Cons.IH[of "c + 1"] Cons.prems(1) m(2) by (simp add: Tick)
      qed
    qed
  qed
qed

lemma watchdog_Run_Fired:
  "watchdog_Run (NewWatchdog anchors k i) es = Fired \<longleftrightarrow> lost_after (NewWatchdog anchors k i) (nat (max 1 k)) es"
proof -
  let ?w = "NewWatchdog anchors k i"
  have k: "wd_k ?w = max 1 k" by (simp add: NewWatchdog_def)
  have "wd_loop ?w 0 es = Fired \<longleftrightarrow> dead_run ?w (nat (wd_k ?w - 0)) es \<or> lost_after ?w (nat (wd_k ?w)) es"
    by (rule wd_loop_Fired) (simp_all add: k)
  then show ?thesis using dead_run_lost[of ?w "nat (wd_k ?w)" es] unfolding watchdog_Run_def k by auto
qed

section \<open>What the guardrails let through\<close>

text \<open>Two routes of the list to one destination have one next hop.\<close>

definition one_hop :: "managed_route list \<Rightarrow> bool" where
  "one_hop ds \<longleftrightarrow> (\<forall>d \<in> set ds. \<forall>e \<in> set ds. dest_key (mr_Route d) = dest_key (mr_Route e) \<longrightarrow> hop_key (mr_Route d) = hop_key (mr_Route e))"

lemma one_hop_Cons:
  "one_hop (d # ds) \<longleftrightarrow> one_hop ds \<and> (\<forall>e \<in> set ds. dest_key (mr_Route e) = dest_key (mr_Route d) \<longrightarrow> hop_key (mr_Route e) = hop_key (mr_Route d))"
proof
  assume l: "one_hop (d # ds)"
  show "one_hop ds \<and> (\<forall>e \<in> set ds. dest_key (mr_Route e) = dest_key (mr_Route d) \<longrightarrow> hop_key (mr_Route e) = hop_key (mr_Route d))"
    using l unfolding one_hop_def list.set by blast
next
  assume r: "one_hop ds \<and> (\<forall>e \<in> set ds. dest_key (mr_Route e) = dest_key (mr_Route d) \<longrightarrow> hop_key (mr_Route e) = hop_key (mr_Route d))"
  show "one_hop (d # ds)"
    unfolding one_hop_def
  proof (intro ballI impI)
    fix x y assume x: "x \<in> set (d # ds)" "y \<in> set (d # ds)" "dest_key (mr_Route x) = dest_key (mr_Route y)"
    then consider "x = d" "y = d" | "x = d" "y \<in> set ds" | "x \<in> set ds" "y = d" | "x \<in> set ds" "y \<in> set ds" by auto
    then show "hop_key (mr_Route x) = hop_key (mr_Route y)"
    proof cases
      case 2
      then show ?thesis using r x(3) by metis
    next
      case 3
      then show ?thesis using r x(3) by metis
    next
      case 4
      then show ?thesis using r x(3) unfolding one_hop_def by blast
    qed simp
  qed
qed

definition agrees :: "(string \<rightharpoonup> string \<times> bool) \<Rightarrow> managed_route \<Rightarrow> bool" where
  "agrees m d = (case m (dest_key (mr_Route d)) of None \<Rightarrow> True | Some (h, v) \<Rightarrow> hop_key (mr_Route d) = h)"

lemma agrees_upd: "agrees (m(k \<mapsto> (h, v))) e = (if dest_key (mr_Route e) = k then hop_key (mr_Route e) = h else agrees m e)"
  by (simp add: agrees_def)

lemma hop_conflicts_none:
  assumes "\<forall>k x. m k = Some x \<longrightarrow> snd x"
  shows "hop_conflicts (\<lambda>_. True) m ds = [] \<longleftrightarrow> one_hop ds \<and> (\<forall>d \<in> set ds. agrees m d)"
  using assms
proof (induction ds arbitrary: m)
  case (Cons d ds)
  let ?k = "dest_key (mr_Route d)" and ?h = "hop_key (mr_Route d)"
  have IH: "hop_conflicts (\<lambda>_. True) (m(?k \<mapsto> (h, True))) ds = [] \<longleftrightarrow> one_hop ds \<and> (\<forall>e \<in> set ds. agrees (m(?k \<mapsto> (h, True))) e)" for h
    by (rule Cons.IH) (use Cons.prems in auto)
  show ?case
  proof (cases "m ?k")
    case None
    have s: "hop_conflicts (\<lambda>_. True) m (d # ds) = hop_conflicts (\<lambda>_. True) (m(?k \<mapsto> (?h, True))) ds"
      using None by (simp add: Let_def)
    have a: "agrees (m(?k \<mapsto> (?h, True))) e \<longleftrightarrow> (dest_key (mr_Route e) = ?k \<longrightarrow> hop_key (mr_Route e) = ?h) \<and> agrees m e" for e
      unfolding agrees_upd by (cases "dest_key (mr_Route e) = ?k") (simp_all add: agrees_def None)
    have "agrees m d" using None by (simp add: agrees_def)
    then show ?thesis unfolding s IH a one_hop_Cons list.set by blast
  next
    case (Some x)
    obtain h where x: "m ?k = Some (h, True)" using Some Cons.prems by (cases x) auto
    have m: "m(?k \<mapsto> (h, True)) = m" using x by (simp add: fun_eq_iff)
    have d: "agrees m d \<longleftrightarrow> h = ?h" using x by (auto simp: agrees_def)
    have s: "hop_conflicts (\<lambda>_. True) m (d # ds) = [] \<longleftrightarrow> h = ?h \<and> hop_conflicts (\<lambda>_. True) (m(?k \<mapsto> (h, True))) ds = []"
      using x m by (auto simp: Let_def)
    have e: "dest_key (mr_Route e) = ?k \<longrightarrow> hop_key (mr_Route e) = h" if "agrees m e" for e using that x by (auto simp: agrees_def)
    have "(\<forall>e \<in> set ds. dest_key (mr_Route e) = ?k \<longrightarrow> hop_key (mr_Route e) = ?h)" if "h = ?h" "\<forall>e \<in> set ds. agrees m e"
      using e that(2) unfolding that(1)[symmetric] by blast
    then show ?thesis unfolding s IH[of h, unfolded m] m one_hop_Cons list.set d[symmetric] by blast
  qed
qed (simp add: one_hop_def)

definition hop_ok :: "('k, 'e) provider \<Rightarrow> 'k \<Rightarrow> string \<Rightarrow> bool" where
  "hop_ok P k gw = (case parse_addr gw of None \<Rightarrow> False
     | Some a \<Rightarrow> (case pv_LookupRoute P a k of Inl _ \<Rightarrow> True | Inr dec \<Rightarrow> rd_Reachable dec \<and> \<not> rd_ViaVPN dec))"

lemma next_hops_none:
  "next_hops P k seen ds = [] \<longleftrightarrow>
     (\<forall>d \<in> set ds. rt_Table (mr_Route d) = [] \<longrightarrow> rt_Gateway (mr_Route d) \<noteq> [] \<longrightarrow> rt_Gateway (mr_Route d) \<notin> seen \<longrightarrow> hop_ok P k (rt_Gateway (mr_Route d)))"
proof (induction ds arbitrary: seen)
  case (Cons d ds)
  let ?gw = "rt_Gateway (mr_Route d)"
  have "(case parse_addr ?gw of None \<Rightarrow> [BadGateway ?gw]
      | Some a \<Rightarrow> (case pv_LookupRoute P a k of Inl e \<Rightarrow> []
          | Inr dec \<Rightarrow> if \<not> rd_Reachable dec then [UnreachableNextHop ?gw] else if rd_ViaVPN dec then [NextHopViaVPN ?gw] else [])) = []
    \<longleftrightarrow> hop_ok P k ?gw" by (auto simp: hop_ok_def split: option.splits sum.splits)
  then have "next_hops P k seen (d # ds) = [] \<longleftrightarrow>
      (if rt_Table (mr_Route d) \<noteq> [] \<or> ?gw = [] \<or> ?gw \<in> seen then next_hops P k seen ds = []
       else hop_ok P k ?gw \<and> next_hops P k (insert ?gw seen) ds = [])" by (simp add: Let_def)
  also have "\<dots> \<longleftrightarrow> (\<forall>e \<in> set (d # ds). rt_Table (mr_Route e) = [] \<longrightarrow> rt_Gateway (mr_Route e) \<noteq> []
      \<longrightarrow> rt_Gateway (mr_Route e) \<notin> seen \<longrightarrow> hop_ok P k (rt_Gateway (mr_Route e)))"
    unfolding Cons.IH by auto
  finally show ?case .
qed simp

definition captures :: "managed_route \<Rightarrow> addr \<Rightarrow> bool" where
  "captures d a \<longleftrightarrow> rt_Table (mr_Route d) = [] \<and> (\<exists>pfx. parse_prefix (rt_DstCIDR (mr_Route d)) = Some pfx \<and> contains pfx a)"

lemma main_captures_none: "main_captures a ds = [] \<longleftrightarrow> (\<forall>d \<in> set ds. \<not> captures d a)"
  by (induction ds) (auto simp: main_captures_def captures_def split: option.splits)

section \<open>What a panic leaves\<close>

text \<open>
  A route the provider's ownership map names is RiftRoute's: an add of a managed route found no
  other program's route of its identity there.
\<close>

definition tagged :: "fake \<Rightarrow> bool" where
  "tagged p \<longleftrightarrow> (\<forall>fam. list_all (\<lambda>r. RouteKey (r\<lparr>rt_Family := fam\<rparr>) \<in> fk_managedKey p \<longrightarrow> rt_Owner r = OwnerRiftRoute) (fk_table fam p))"

lemma ident_key: "ident r = ident s \<Longrightarrow> RouteKey (r\<lparr>rt_Family := rt_Family s\<rparr>) = RouteKey s"
  by (simp add: ident_def RouteKey_def)

lemma filterOwned_remove: "i < length xs \<Longrightarrow> rt_Owner (xs ! i) = OwnerRiftRoute \<Longrightarrow> filterOwned (remove_at i xs) = filterOwned xs"
proof -
  assume i: "i < length xs" "rt_Owner (xs ! i) = OwnerRiftRoute"
  have "filterOwned xs = filterOwned (take i xs @ xs ! i # drop (Suc i) xs)" using id_take_nth_drop[OF i(1)] by simp
  also have "\<dots> = filterOwned (remove_at i xs)" using i(2) by (simp add: filterOwned_def remove_at_def)
  finally show ?thesis by simp
qed

lemma flush_remove:
  assumes "i < length (fk_table fam p)" "rt_Owner (fk_table fam p ! i) = OwnerRiftRoute"
  shows "snd (fake_FlushOwned (disown rt (removeRoute fam i p))) = snd (fake_FlushOwned p)"
  using assms filterOwned_remove[of i "fk_table fam p"]
  by (cases p) (auto simp: fake_FlushOwned_def disown_def removeRoute_def set_table_def fk_table_def split: if_splits)

lemma flush_disown: "snd (fake_FlushOwned (disown rt p)) = snd (fake_FlushOwned p)"
  by (cases p) (simp add: fake_FlushOwned_def disown_def)

lemma tagged_disown: "tagged p \<Longrightarrow> tagged (disown rt p)"
  by (simp add: tagged_def disown_def list_all_iff)

lemma tagged_remove:
  assumes "tagged p" shows "tagged (removeRoute fam i p)"
  unfolding tagged_def
proof
  fix f
  have "set (fk_table f (removeRoute fam i p)) \<subseteq> set (fk_table f p)"
    using remove_at_sub[of i "fk_table fam p"] table_same[of f fam p] by (simp add: removeRoute_def table_other)
  then show "list_all (\<lambda>r. RouteKey (r\<lparr>rt_Family := f\<rparr>) \<in> fk_managedKey (removeRoute fam i p) \<longrightarrow> rt_Owner r = OwnerRiftRoute)
      (fk_table f (removeRoute fam i p))"
    using assms by (auto simp: tagged_def list_all_iff removeRoute_def)
qed

lemma fake_DelRoute_flush:
  assumes "tagged p" "mr_ProfileID m \<noteq> []" "fake_DelRoute m p = (e, p1)"
  shows "snd (fake_FlushOwned p1) = snd (fake_FlushOwned p) \<and> tagged p1 \<and> fk_failDel p1 = fk_failDel p"
proof -
  let ?rt = "(mr_Route m)\<lparr>rt_Owner := OwnerRiftRoute, rt_Proto := ''riftroute'', rt_Profile := mr_ProfileID m\<rparr>"
  show ?thesis
  proof (cases "rt_DstCIDR (mr_Route m) \<in> fk_failDel p \<or> fake_routeKey ?rt \<notin> fk_managedKey p")
    case True
    then have "p1 = p" using assms(2,3) by (auto simp: fake_DelRoute_def Let_def split: if_splits)
    then show ?thesis using assms(1) by simp
  next
    case False
    show ?thesis
    proof (cases "indexOf ?rt p")
      case None
      then have "p1 = disown ?rt p" using assms(2,3) False by (auto simp: fake_DelRoute_def Let_def)
      then show ?thesis using assms(1) flush_disown tagged_disown by (simp add: disown_def)
    next
      case (Some i)
      have p1: "p1 = disown ?rt (removeRoute (rt_Family ?rt) i p)" using assms(2,3) False Some by (simp add: fake_DelRoute_def Let_def)
      have i: "i < length (fk_table (rt_Family ?rt) p)" "ident (fk_table (rt_Family ?rt) p ! i) = ident ?rt"
        using indexOf_Some[OF Some] by blast+
      have "rt_Owner (fk_table (rt_Family ?rt) p ! i) = OwnerRiftRoute"
      proof -
        have "RouteKey ?rt \<in> fk_managedKey p" using False by (simp add: fake_routeKey_RouteKey)
        then have "RouteKey ((fk_table (rt_Family ?rt) p ! i)\<lparr>rt_Family := rt_Family ?rt\<rparr>) \<in> fk_managedKey p"
          unfolding ident_key[OF i(2)] .
        then show ?thesis using assms(1) i(1) unfolding tagged_def list_all_length by blast
      qed
      then show ?thesis
        unfolding p1 using flush_remove[OF i(1)] tagged_disown[OF tagged_remove[OF assms(1)]] by (simp add: disown_def removeRoute_def)
    qed
  qed
qed

lemma panic_deletes_flush:
  assumes "tagged p" "\<forall>m \<in> set ms. mr_ProfileID m \<noteq> []" "panic_deletes fake_provider ms p = (failed, fe, p1)"
  shows "snd (fake_FlushOwned p1) = snd (fake_FlushOwned p) \<and> set failed \<subseteq> set ms
    \<and> {m \<in> set ms. rt_DstCIDR (mr_Route m) \<in> fk_failDel p} \<subseteq> set failed"
  using assms
proof (induction ms arbitrary: p failed fe p1)
  case (Cons m ms)
  obtain e p2 where d: "fake_DelRoute m p = (e, p2)" by force
  obtain f2 fe2 p3 where r: "panic_deletes fake_provider ms p2 = (f2, fe2, p3)" by (metis prod_cases3)
  have d1: "snd (fake_FlushOwned p2) = snd (fake_FlushOwned p)" "tagged p2" "fk_failDel p2 = fk_failDel p"
    using fake_DelRoute_flush[OF Cons.prems(1) _ d] Cons.prems(2) by simp_all
  have r1: "snd (fake_FlushOwned p3) = snd (fake_FlushOwned p2)" "set f2 \<subseteq> set ms" "{m \<in> set ms. rt_DstCIDR (mr_Route m) \<in> fk_failDel p2} \<subseteq> set f2"
    using Cons.IH[OF d1(2) _ r] Cons.prems(2) by auto
  have f: "failed = (if e = None then f2 else m # f2)" "p1 = p3"
    using Cons.prems(3) d r by (auto simp: fake_provider_def split: option.splits)
  have "e \<noteq> None" if "rt_DstCIDR (mr_Route m) \<in> fk_failDel p" using d that by (auto simp: fake_DelRoute_def)
  then show ?case using d1 r1 f by (auto split: if_splits)
qed simp

section \<open>Records after a panic\<close>

lemma drop_unkept_owned:
  assumes "store_ok s" "set ms = owned_of s0" "distinct (map owner_key ms)" "distinct todo"
    and "owned_of s = {m \<in> owned_of s0. m \<in> set todo \<or> RouteKey (mr_Route m) \<in> keep}" "set todo \<subseteq> set ms"
  shows "store_ok (drop_unkept (sql_store rfc now) keep todo s)
    \<and> owned_of (drop_unkept (sql_store rfc now) keep todo s) = {m \<in> owned_of s0. RouteKey (mr_Route m) \<in> keep}"
  using assms(1,4-6)
proof (induction todo arbitrary: s)
  case (Cons m todo)
  let ?s = "if RouteKey (mr_Route m) \<in> keep then s else DelOwned m s"
  have step: "drop_unkept (sql_store rfc now) keep (m # todo) s = drop_unkept (sql_store rfc now) keep todo ?s"
    by (simp add: drop_unkept_def sql_store_def)
  have inj: "n = m" if "n \<in> owned_of s0" "owner_key n = owner_key m" for n
  proof -
    have "n \<in> set ms" "m \<in> set ms" using that(1) assms(2) Cons.prems(4) by auto
    then show ?thesis using distinct_key_eq[OF assms(3)] that(2) by blast
  qed
  have ok: "store_ok ?s" using Cons.prems(1) store_ok_DelOwned by simp
  moreover have "owned_of ?s = {n \<in> owned_of s0. n \<in> set todo \<or> RouteKey (mr_Route n) \<in> keep}"
  proof (cases "RouteKey (mr_Route m) \<in> keep")
    case True
    then show ?thesis using Cons.prems(3) by auto
  next
    case False
    then show ?thesis using Cons.prems(2) owned_DelOwned[OF Cons.prems(1)] Cons.prems(3) inj by auto
  qed
  ultimately show ?case unfolding step using Cons.IH[of ?s] Cons.prems(2,4) by simp
qed (simp add: drop_unkept_def)

text \<open>A kernel that holds a managed route, recorded, and refuses to delete it.\<close>

definition demo_owned :: managed_route where
  "demo_owned = \<lparr>mr_Route = route0\<lparr>rt_DstCIDR := ''10.0.0.0/8'', rt_Gateway := ''192.168.1.1'', rt_Iface := ''en0'', rt_Family := FamilyV4\<rparr>,
     mr_ProfileID = ''work'', mr_CreatedAt = 0\<rparr>"

definition demo_kernel :: fake where
  "demo_kernel = FailDelRoute ''10.0.0.0/8'' True (snd (fake_AddRoute demo_owned fake_New))"

definition store0 :: store where
  "store0 = \<lparr>st_settings = Map.empty, st_profiles = [], st_lists = [], st_snapshots = [], st_ownership = [], st_pending = [], st_audit = [], st_audit_seq = 0\<rparr>"

definition demo_store :: store where
  "demo_store = AddOwned (\<lambda>_. []) demo_owned store0"

lemma store0_ok [simp]: "store_ok store0" "owned_of store0 = {}"
  by (simp_all add: store_ok_def store0_def owned_of_def)

lemma demo_store_ok: "store_ok demo_store" "owned_of demo_store = {demo_owned}"
  unfolding demo_store_def using store_ok_AddOwned[OF store0_ok(1)] owned_AddOwned[OF store0_ok(1)] by simp_all

lemma demo_managed: "fk_managedKey demo_kernel = {RouteKey (mr_Route demo_owned)}"
  by code_simp

lemma RouteKey_split_family: "RouteKey (r\<lparr>rt_Family := fam\<rparr>) = fam @ RouteKey (r\<lparr>rt_Family := []\<rparr>)"
  by (simp add: RouteKey_def Let_def)

lemma demo_tagged: "tagged demo_kernel"
proof -
  define K where "K = RouteKey (mr_Route demo_owned)"
  let ?bad = "\<lambda>r. let t = RouteKey (r\<lparr>rt_Family := []\<rparr>) in drop (length K - length t) K = t \<and> rt_Owner r \<noteq> OwnerRiftRoute"
  have "list_all (\<lambda>r. \<not> ?bad r) (fk_routesV4 demo_kernel @ fk_routesV6 demo_kernel)" unfolding K_def by code_simp
  then have n: "\<not> ?bad r" if "r \<in> set (fk_table fam demo_kernel)" for r fam
    using that by (auto simp: list_all_iff fk_table_def split: if_splits)
  have "drop (length K - length t) K = t" if "fam @ t = K" for fam t using that by auto
  then have "rt_Owner r = OwnerRiftRoute" if "r \<in> set (fk_table fam demo_kernel)" "RouteKey (r\<lparr>rt_Family := fam\<rparr>) = K" for r fam
    using n[OF that(1)] that(2) unfolding RouteKey_split_family[where r = r and fam = fam] Let_def by blast
  then show ?thesis unfolding tagged_def demo_managed K_def[symmetric] by (simp add: list_all_iff)
qed

section \<open>Properties\<close>

text \<open>
  C36.  The watchdog fires exactly when, before any cancellation, \<open>k\<close> probes in a row (one, for \<open>k < 1\<close>)
  found every anchor unreachable.
\<close>

theorem watchdog_fires_iff:
  "watchdog_Run (NewWatchdog anchors k i) es = Fired \<longleftrightarrow>
     (\<exists>pre run rest. es = pre @ run @ rest \<and> list_all is_tick pre
        \<and> list_all (dead (NewWatchdog anchors k i)) run \<and> length run = nat (max 1 k))"
  using watchdog_Run_Fired unfolding lost_after_def .







end
