(* ===== verification/Spec2Isabelle.thy ===== *)
theory Spec2Isabelle
  imports Safety
begin

text \<open>
  Verification of RiftRoute, a split-routing daemon (Go sources under \<^verbatim>\<open>src/\<close>).
\<close>

end
